(* ===== verification/Prelude.thy ===== *)
theory Prelude
  imports Main "HOL-Library.Word" "HOL-Library.AList" "HOL-Library.Sublist"
begin

text \<open>
  The ground every component theory stands on: the error and result types that stand for
  \<open>anyhow::Error\<close> and \<open>anyhow::Result\<close>, the string operations of Rust's standard library that
  the sources use (\<open>split_once\<close>, \<open>strip_prefix\<close>, \<open>split\<close>, \<open>lines\<close>, integer parsing and
  formatting), and the lemmas about them that the component proofs share.  A Rust \<open>&str\<close> is
  modelled by the list of its bytes, so \<open>length\<close> is \<open>str::len\<close>.
\<close>

named_theorems result_simps
named_theorems text_simps

section \<open>Results\<close>

text \<open>
  An \<open>anyhow\<close> error is a message with a stack of contexts put in front of it.
\<close>

datatype error = Msg string | Context string error

type_synonym 'a result = "error + 'a"

definition bind_r :: "'a result \<Rightarrow> ('a \<Rightarrow> 'b result) \<Rightarrow> 'b result" where
  "bind_r m k = (case m of Inl e \<Rightarrow> Inl e | Inr x \<Rightarrow> k x)"

lemma bind_r_Inl [simp]: "bind_r (Inl e) k = Inl e"
  by (simp add: bind_r_def)

lemma bind_r_Inr [simp]: "bind_r (Inr x) k = k x"
  by (simp add: bind_r_def)

lemma bind_r_eq_Inr [result_simps]:
  "bind_r m k = Inr y \<longleftrightarrow> (\<exists>x. m = Inr x \<and> k x = Inr y)"
  by (cases m) simp_all

lemma bind_r_eq_Inl:
  "bind_r m k = Inl e \<longleftrightarrow> m = Inl e \<or> (\<exists>x. m = Inr x \<and> k x = Inl e)"
  by (cases m) simp_all

lemma bind_r_assoc: "bind_r (bind_r m k) h = bind_r m (\<lambda>x. bind_r (k x) h)"
  by (cases m) simp_all

text \<open>\<open>anyhow::ensure!\<close>: continue with unit when the condition holds.\<close>

definition ensure :: "bool \<Rightarrow> string \<Rightarrow> unit result" where
  "ensure c msg = (if c then Inr () else Inl (Msg msg))"

lemma ensure_eq_Inr [result_simps]: "ensure c msg = Inr u \<longleftrightarrow> c"
  by (simp add: ensure_def)

lemma ensure_eq_Inl: "ensure c msg = Inl e \<longleftrightarrow> \<not> c \<and> e = Msg msg"
  by (auto simp add: ensure_def)

lemma ensure_simps [simp]: "ensure True msg = Inr ()" "ensure False msg = Inl (Msg msg)"
  by (simp_all add: ensure_def)

text \<open>\<open>Context::context\<close> on a result, and on an option (where the context is the error).\<close>

definition with_context :: "string \<Rightarrow> 'a result \<Rightarrow> 'a result" where
  "with_context msg m = (case m of Inl e \<Rightarrow> Inl (Context msg e) | Inr x \<Rightarrow> Inr x)"

lemma with_context_simps [simp]:
  "with_context msg (Inr x) = Inr x" "with_context msg (Inl e) = Inl (Context msg e)"
  by (simp_all add: with_context_def)

lemma with_context_eq_Inr [result_simps]: "with_context msg m = Inr x \<longleftrightarrow> m = Inr x"
  by (cases m) simp_all

definition ok_or :: "string \<Rightarrow> 'a option \<Rightarrow> 'a result" where
  "ok_or msg m = (case m of None \<Rightarrow> Inl (Msg msg) | Some x \<Rightarrow> Inr x)"

lemma ok_or_simps [simp]: "ok_or msg None = Inl (Msg msg)" "ok_or msg (Some x) = Inr x"
  by (simp_all add: ok_or_def)

lemma ok_or_eq_Inr [result_simps]: "ok_or msg m = Inr x \<longleftrightarrow> m = Some x"
  by (cases m) simp_all

definition is_ok :: "'a result \<Rightarrow> bool" where
  "is_ok m = (case m of Inl _ \<Rightarrow> False | Inr _ \<Rightarrow> True)"

lemma is_ok_simps [simp]: "is_ok (Inr x)" "\<not> is_ok (Inl e)"
  by (simp_all add: is_ok_def)

lemma is_ok_iff: "is_ok m \<longleftrightarrow> (\<exists>x. m = Inr x)"
  by (cases m) simp_all

text \<open>\<open>iter().map(f).collect::<Result<Vec<_>>>()\<close>: the first error wins.\<close>

fun collect_r :: "('a \<Rightarrow> 'b result) \<Rightarrow> 'a list \<Rightarrow> 'b list result" where
  "collect_r f [] = Inr []"
| "collect_r f (x # xs) = bind_r (f x) (\<lambda>y. bind_r (collect_r f xs) (\<lambda>ys. Inr (y # ys)))"

lemma collect_r_eq_Inr:
  "collect_r f xs = Inr ys \<longleftrightarrow> list_all2 (\<lambda>x y. f x = Inr y) xs ys"
proof (induction xs arbitrary: ys)
  case Nil
  then show ?case by auto
next
  case (Cons x xs)
  then show ?case
    by (cases ys) (auto simp: bind_r_eq_Inr)
qed

text \<open>\<open>{:#}\<close> formatting of an \<open>anyhow::Error\<close>: the contexts, then the cause.\<close>

fun error_chain :: "error \<Rightarrow> string" where
  "error_chain (Msg m) = m"
| "error_chain (Context c e) = c @ '': '' @ error_chain e"

text \<open>\<open>{}\<close> formatting shows the outermost message only.\<close>

fun error_display :: "error \<Rightarrow> string" where
  "error_display (Msg m) = m"
| "error_display (Context c e) = c"

section \<open>Character classes\<close>

text \<open>The control characters and the quote that no string literal spells.\<close>

abbreviation char_nl :: char where "char_nl \<equiv> CHR 0x0A"
abbreviation char_cr :: char where "char_cr \<equiv> CHR 0x0D"
abbreviation char_quote :: char where "char_quote \<equiv> CHR 0x27"
abbreviation char_dquote :: char where "char_dquote \<equiv> CHR 0x22"
abbreviation char_backslash :: char where "char_backslash \<equiv> CHR 0x5C"

definition is_digit :: "char \<Rightarrow> bool" where
  "is_digit c = (48 \<le> (of_char c :: nat) \<and> (of_char c :: nat) \<le> 57)"

definition is_lower_hex :: "char \<Rightarrow> bool" where
  "is_lower_hex c = (is_digit c \<or> (97 \<le> (of_char c :: nat) \<and> (of_char c :: nat) \<le> 102))"

definition is_alphanumeric :: "char \<Rightarrow> bool" where
  "is_alphanumeric c =
     (is_digit c \<or> (65 \<le> (of_char c :: nat) \<and> (of_char c :: nat) \<le> 90)
      \<or> (97 \<le> (of_char c :: nat) \<and> (of_char c :: nat) \<le> 122))"

definition is_control :: "char \<Rightarrow> bool" where
  "is_control c = ((of_char c :: nat) \<le> 31 \<or> (of_char c :: nat) = 127)"

text \<open>\<open>u8::is_ascii_whitespace\<close>: space, tab, line feed, form feed, carriage return.  The ASCII part of
  \<open>char::is_whitespace\<close> has the vertical tab as well.\<close>

definition is_ascii_whitespace :: "char \<Rightarrow> bool" where
  "is_ascii_whitespace c = ((of_char c :: nat) \<in> {32, 9, 10, 12, 13})"

definition is_whitespace :: "char \<Rightarrow> bool" where
  "is_whitespace c = ((of_char c :: nat) \<in> {9, 10, 11, 12, 13, 32})"

section \<open>Splitting strings\<close>

text \<open>\<open>str::split_once\<close> with a character.\<close>

fun split_once :: "char \<Rightarrow> string \<Rightarrow> (string \<times> string) option" where
  "split_once c [] = None"
| "split_once c (x # xs) =
     (if x = c then Some ([], xs)
      else (case split_once c xs of None \<Rightarrow> None | Some (a, b) \<Rightarrow> Some (x # a, b)))"

lemma split_once_None_iff: "split_once c s = None \<longleftrightarrow> c \<notin> set s"
  by (induction s) (auto split: option.splits)

lemma split_once_Some_iff:
  "split_once c s = Some (a, b) \<longleftrightarrow> s = a @ c # b \<and> c \<notin> set a"
proof (induction s arbitrary: a)
  case Nil
  then show ?case by simp
next
  case (Cons x xs)
  show ?case
  proof (cases "x = c")
    case True
    then show ?thesis by (cases a) auto
  next
    case False
    show ?thesis
    proof (cases a)
      case Nil
      with False show ?thesis by (auto split: option.splits)
    next
      case (Cons y ys)
      with False Cons.IH [of ys] show ?thesis by (auto split: option.splits)
    qed
  qed
qed

lemma split_once_append [text_simps]:
  "c \<notin> set a \<Longrightarrow> split_once c (a @ c # b) = Some (a, b)"
  by (simp add: split_once_Some_iff)

lemma split_once_notin [text_simps]: "c \<notin> set a \<Longrightarrow> split_once c a = None"
  by (simp add: split_once_None_iff)

definition rsplit_once :: "char \<Rightarrow> string \<Rightarrow> (string \<times> string) option" where
  "rsplit_once c s =
     (case split_once c (rev s) of None \<Rightarrow> None | Some (b, a) \<Rightarrow> Some (rev a, rev b))"

lemma rsplit_once_Some_iff:
  "rsplit_once c s = Some (a, b) \<longleftrightarrow> s = a @ c # b \<and> c \<notin> set b"
proof -
  have "split_once c (rev s) = Some (rev b, rev a) \<longleftrightarrow> rev s = rev b @ c # rev a \<and> c \<notin> set b"
    by (simp add: split_once_Some_iff)
  moreover have "rev s = rev b @ c # rev a \<longleftrightarrow> s = a @ c # b"
    by (metis append.assoc append_Cons append_Nil rev.simps(2) rev_append rev_rev_ident)
  ultimately show ?thesis
    by (auto simp: rsplit_once_def split: option.splits)
qed

text \<open>\<open>str::strip_prefix\<close> and \<open>str::strip_suffix\<close>.\<close>

fun strip_prefix :: "string \<Rightarrow> string \<Rightarrow> string option" where
  "strip_prefix [] s = Some s"
| "strip_prefix (p # ps) [] = None"
| "strip_prefix (p # ps) (x # xs) = (if p = x then strip_prefix ps xs else None)"

lemma strip_prefix_Some_iff: "strip_prefix p s = Some r \<longleftrightarrow> s = p @ r"
  by (induction p s rule: strip_prefix.induct) auto

lemma strip_prefix_append [simp]: "strip_prefix p (p @ r) = Some r"
  by (simp add: strip_prefix_Some_iff)

definition strip_suffix :: "string \<Rightarrow> string \<Rightarrow> string option" where
  "strip_suffix p s = map_option rev (strip_prefix (rev p) (rev s))"

lemma strip_suffix_Some_iff: "strip_suffix p s = Some r \<longleftrightarrow> s = r @ p"
proof -
  have "rev s = rev p @ rev r \<longleftrightarrow> s = r @ p"
    by (metis rev_append rev_rev_ident)
  moreover have "strip_suffix p s = Some r \<longleftrightarrow> strip_prefix (rev p) (rev s) = Some (rev r)"
    by (auto simp: strip_suffix_def)
  ultimately show ?thesis
    by (simp add: strip_prefix_Some_iff)
qed

definition starts_with :: "string \<Rightarrow> string \<Rightarrow> bool" where
  "starts_with p s = (strip_prefix p s \<noteq> None)"

lemma starts_with_iff: "starts_with p s \<longleftrightarrow> (\<exists>r. s = p @ r)"
  by (auto simp: starts_with_def strip_prefix_Some_iff)

definition ends_with :: "string \<Rightarrow> string \<Rightarrow> bool" where
  "ends_with p s = (strip_suffix p s \<noteq> None)"

lemma ends_with_iff: "ends_with p s \<longleftrightarrow> (\<exists>r. s = r @ p)"
  by (auto simp: ends_with_def strip_suffix_Some_iff)

text \<open>\<open>str::split(char)\<close>: the parts between the separators, at least one.\<close>

fun split_char :: "char \<Rightarrow> string \<Rightarrow> string list" where
  "split_char c [] = [[]]"
| "split_char c (x # xs) =
     (if x = c then [] # split_char c xs
      else (case split_char c xs of [] \<Rightarrow> [[x]] | p # ps \<Rightarrow> (x # p) # ps))"

lemma split_char_not_Nil [simp]: "split_char c s \<noteq> []"
  by (induction s) (auto split: list.splits)

lemma split_char_notin [text_simps]: "c \<notin> set s \<Longrightarrow> split_char c s = [s]"
  by (induction s) auto

lemma split_char_append [text_simps]:
  "c \<notin> set a \<Longrightarrow> split_char c (a @ c # b) = a # split_char c b"
  by (induction a) auto

text \<open>\<open>[String]::join\<close>, the inverse of splitting.\<close>

fun join_with :: "string \<Rightarrow> string list \<Rightarrow> string" where
  "join_with sep [] = []"
| "join_with sep [p] = p"
| "join_with sep (p # q # ps) = p @ sep @ join_with sep (q # ps)"

lemma join_split_char: "join_with [c] (split_char c s) = s"
proof (induction s)
  case Nil
  then show ?case by simp
next
  case (Cons x xs)
  then show ?case
    by (cases "split_char c xs"; cases "tl (split_char c xs)") auto
qed

lemma split_char_part: "p \<in> set (split_char c s) \<Longrightarrow> c \<notin> set p"
  by (induction s arbitrary: p) (auto split: list.splits if_splits)

lemma split_char_join:
  "ps \<noteq> [] \<Longrightarrow> (\<And>p. p \<in> set ps \<Longrightarrow> c \<notin> set p) \<Longrightarrow> split_char c (join_with [c] ps) = ps"
proof (induction ps rule: induct_list012)
  case (3 p q ps)
  then show ?case by (simp add: text_simps)
qed (auto simp: text_simps)

text \<open>\<open>str::lines\<close>: split at line feeds, a final empty part does not count as a line,
  and one carriage return before the line feed is dropped.\<close>

definition chop_cr :: "string \<Rightarrow> string" where
  "chop_cr l = (case rev l of c # r \<Rightarrow> if c = char_cr then rev r else l | [] \<Rightarrow> l)"

text \<open>The parts that were ended by a line feed lose their carriage return, the rest does not.\<close>

definition lines :: "string \<Rightarrow> string list" where
  "lines s = (let ps = split_char char_nl s; final = last ps in
     map chop_cr (butlast ps) @ (if final = [] then [] else [final]))"

text \<open>\<open>str::split_inclusive('\n')\<close>: every part keeps its line feed, no empty last part.\<close>

fun split_inclusive :: "char \<Rightarrow> string \<Rightarrow> string list" where
  "split_inclusive c [] = []"
| "split_inclusive c (x # xs) =
     (if x = c then [x] # split_inclusive c xs
      else (case split_inclusive c xs of [] \<Rightarrow> [[x]] | p # ps \<Rightarrow> (x # p) # ps))"

lemma concat_split_inclusive [simp]: "concat (split_inclusive c s) = s"
  by (induction s) (auto split: list.splits)

text \<open>\<open>trim_end_matches\<close> and \<open>trim_start_matches\<close> with a set of characters.\<close>

definition trim_end_matches :: "(char \<Rightarrow> bool) \<Rightarrow> string \<Rightarrow> string" where
  "trim_end_matches f s = rev (dropWhile f (rev s))"

text \<open>\<open>str::trim\<close>: the UTF-8 spellings of the characters with the Unicode property White_Space.\<close>

definition white_spaces :: "string list" where
  "white_spaces = map (\<lambda>n. [char_of (n :: nat)]) [9, 10, 11, 12, 13, 32]
     @ [[CHR 0xC2, CHR 0x85], [CHR 0xC2, CHR 0xA0], [CHR 0xE1, CHR 0x9A, CHR 0x80]]
     @ map (\<lambda>n. [CHR 0xE2, CHR 0x80, char_of (n :: nat)]) [128, 129, 130, 131, 132, 133, 134, 135, 136, 137, 138, 168, 169, 175]
     @ [[CHR 0xE2, CHR 0x81, CHR 0x9F], [CHR 0xE3, CHR 0x80, CHR 0x80]]"

lemma white_spaces_not_Nil: "w \<in> set white_spaces \<Longrightarrow> w \<noteq> []" by (auto simp: white_spaces_def)

function strip_all :: "string list \<Rightarrow> string \<Rightarrow> string" where
  "strip_all ws s =
     (case List.find (\<lambda>w. w \<noteq> [] \<and> starts_with w s) ws of
        None \<Rightarrow> s
      | Some w \<Rightarrow> strip_all ws (drop (length w) s))"
  by pat_completeness auto
termination
proof (relation "measure (\<lambda>(_, s). length s)", simp)
  fix ws :: "string list" and s w
  assume "List.find (\<lambda>w. w \<noteq> [] \<and> starts_with w s) ws = Some w"
  then have "w \<noteq> []" "starts_with w s" by (auto simp: find_Some_iff)
  then show "((ws, drop (length w) s), ws, s) \<in> measure (\<lambda>(_, s). length s)"
    by (cases w) (auto simp: starts_with_iff)
qed

declare strip_all.simps [simp del]

definition trim_text :: "string \<Rightarrow> string" where
  "trim_text s = rev (strip_all (map rev white_spaces) (rev (strip_all white_spaces s)))"

lemma strip_all_id:
  assumes "\<And>w. w \<in> set ws \<Longrightarrow> \<not> (w \<noteq> [] \<and> starts_with w s)" shows "strip_all ws s = s"
proof -
  have "List.find (\<lambda>w. w \<noteq> [] \<and> starts_with w s) ws = None" using assms by (simp add: find_None_iff)
  then show ?thesis by (subst strip_all.simps) simp
qed

lemma trim_text_Nil [simp]: "trim_text [] = []"
proof -
  have "strip_all ws [] = []" for ws by (rule strip_all_id) (auto simp: starts_with_iff)
  then show ?thesis by (simp add: trim_text_def)
qed

lemma starts_with_hd: "w \<noteq> [] \<Longrightarrow> starts_with w s \<Longrightarrow> s \<noteq> [] \<and> hd s = hd w"
  by (cases w) (auto simp: starts_with_iff)

lemma strip_all_plain:
  assumes "\<And>w. w \<in> set ws \<Longrightarrow> (of_char (hd w) :: nat) \<notin> {33..126}"
    and "\<And>c. c \<in> set s \<Longrightarrow> (of_char c :: nat) \<in> {33..126}"
  shows "strip_all ws s = s"
proof (rule strip_all_id, rule notI, elim conjE)
  fix w assume "w \<in> set ws" "w \<noteq> []" "starts_with w s"
  then have "s \<noteq> []" "hd s = hd w" using starts_with_hd by blast+
  then have "hd w \<in> set s" by (metis hd_in_set)
  then show False using assms \<open>w \<in> set ws\<close> by blast
qed

lemma trim_text_id:
  assumes "\<And>c. c \<in> set s \<Longrightarrow> (of_char c :: nat) \<in> {33..126}"
  shows "trim_text s = s"
proof -
  have "strip_all white_spaces s = s"
    by (rule strip_all_plain) (use assms in \<open>auto simp: white_spaces_def\<close>)
  moreover have "strip_all (map rev white_spaces) (rev s) = rev s"
    by (rule strip_all_plain) (use assms in \<open>auto simp: white_spaces_def\<close>)
  ultimately show ?thesis by (simp add: trim_text_def)
qed

text \<open>\<open>str::split_whitespace\<close> on text whose white space is ASCII.\<close>

function split_whitespace :: "string \<Rightarrow> string list" where
  "split_whitespace s =
     (let r = dropWhile is_whitespace s in
      if r = [] then []
      else takeWhile (\<lambda>c. \<not> is_whitespace c) r
           # split_whitespace (dropWhile (\<lambda>c. \<not> is_whitespace c) r))"
  by pat_completeness auto
termination
proof (relation "measure length", simp)
  fix s r :: string
  assume r: "r = dropWhile is_whitespace s" and ne: "r \<noteq> []"
  have "\<not> is_whitespace (hd r)"
    using ne unfolding r by (rule hd_dropWhile)
  with ne have "length (dropWhile (\<lambda>c. \<not> is_whitespace c) r) < length r"
    by (cases r) (auto intro: le_imp_less_Suc length_dropWhile_le)
  also have "length r \<le> length s"
    unfolding r by (rule length_dropWhile_le)
  finally show "(dropWhile (\<lambda>c. \<not> is_whitespace c) r, s) \<in> measure length"
    by simp
qed

declare split_whitespace.simps [simp del]

section \<open>Paths\<close>

text \<open>\<open>Path::join\<close> with a relative path.\<close>

definition path_join :: "string \<Rightarrow> string \<Rightarrow> string" where
  "path_join p q = (if p = [] \<or> last p = CHR ''/'' then p @ q else p @ ''/'' @ q)"

text \<open>\<open>Path::components\<close> of an absolute path; two paths are equal (\<open>Path::eq\<close>) when their components are.\<close>

definition components :: "string \<Rightarrow> string list" where
  "components s = (if starts_with ''/'' s then [''/''] else [])
     @ filter (\<lambda>c. c \<noteq> [] \<and> c \<noteq> ''.'') (split_char CHR ''/'' s)"

definition same_path :: "string \<Rightarrow> string \<Rightarrow> bool" where
  "same_path p q \<longleftrightarrow> components p = components q"

lemma same_path_refl [simp]: "same_path p p" by (simp add: same_path_def)

end
