(* ===== verification/Protocol.thy ===== *)
theory Protocol
  imports Prelude
begin

text \<open>
  \<open>src/src/commands/activator/protocol.rs\<close>: the request a client writes to the activator's
  socket and the responses it gets back, one JSON value per line.  The JSON text itself is
  \<open>serde_json\<close>'s; the records are the values it reads and prints.
\<close>

record seed_ref =
  sr_name :: string
  sr_path :: string

record request =
  rq_id :: string
  rq_kind :: string
  rq_path :: string
  rq_mode :: string
  rq_reason :: string
  rq_seeds :: "seed_ref list"
  rq_network_action :: "string option"
  rq_execution_id :: "string option"
  rq_lease :: "string option"

datatype response_type = Output | Error | Complete

record response =
  rs_id :: string
  rs_kind :: response_type
  rs_data :: string
  rs_exit_code :: "int option"

definition response_output :: "string \<Rightarrow> string \<Rightarrow> response" where
  "response_output i d = \<lparr>rs_id = i, rs_kind = Output, rs_data = d, rs_exit_code = None\<rparr>"

definition response_error :: "string \<Rightarrow> string \<Rightarrow> response" where
  "response_error i d = \<lparr>rs_id = i, rs_kind = Error, rs_data = d, rs_exit_code = None\<rparr>"

definition response_complete :: "string \<Rightarrow> int \<Rightarrow> response" where
  "response_complete i code = \<lparr>rs_id = i, rs_kind = Complete, rs_data = [], rs_exit_code = Some code\<rparr>"

end
