(* ===== verification/Effects.thy ===== *)
theory Effects
  imports Prelude
begin

text \<open>
  Stateful code that returns \<open>anyhow::Result\<close> is a function from the state to a result and
  the next state.  The theory holds the combinators the models are written with (sequencing
  stops at the first error, \<open>attempt\<close> is a call whose \<open>Result\<close> is inspected instead of
  propagated with \<open>?\<close>) and two judgements on such actions, an invariant that every outcome keeps and a
  triple with separate postconditions for success and for an error.
\<close>

named_theorems act_simps
named_theorems keeps_rules

type_synonym ('w, 'a) act = "'w \<Rightarrow> 'a result \<times> 'w"

definition ret :: "'a \<Rightarrow> ('w, 'a) act" where
  "ret x = (\<lambda>w. (Inr x, w))"

definition lift_r :: "'a result \<Rightarrow> ('w, 'a) act" where
  "lift_r r = (\<lambda>w. (r, w))"

definition seq :: "('w, 'a) act \<Rightarrow> ('a \<Rightarrow> ('w, 'b) act) \<Rightarrow> ('w, 'b) act" where
  "seq m k = (\<lambda>w. case m w of (Inl e, w') \<Rightarrow> (Inl e, w') | (Inr x, w') \<Rightarrow> k x w')"

definition attempt :: "('w, 'a) act \<Rightarrow> ('w, 'a result) act" where
  "attempt m = (\<lambda>w. case m w of (r, w') \<Rightarrow> (Inr r, w'))"

definition ctx :: "string \<Rightarrow> ('w, 'a) act \<Rightarrow> ('w, 'a) act" where
  "ctx msg m = (\<lambda>w. case m w of (r, w') \<Rightarrow> (with_context msg r, w'))"

definition gets :: "('w \<Rightarrow> 'a) \<Rightarrow> ('w, 'a) act" where
  "gets f = (\<lambda>w. (Inr (f w), w))"

definition check :: "bool \<Rightarrow> string \<Rightarrow> ('w, unit) act" where
  "check c msg = lift_r (ensure c msg)"

fun each :: "('a \<Rightarrow> ('w, unit) act) \<Rightarrow> 'a list \<Rightarrow> ('w, unit) act" where
  "each f [] = ret ()"
| "each f (x # xs) = seq (f x) (\<lambda>_. each f xs)"

lemma ret_apply [simp]: "ret x w = (Inr x, w)" by (simp add: ret_def)
lemma lift_r_apply [simp]: "lift_r r w = (r, w)" by (simp add: lift_r_def)
lemma gets_apply [simp]: "gets f w = (Inr (f w), w)" by (simp add: gets_def)
lemma check_apply [simp]: "check c msg w = (ensure c msg, w)" by (simp add: check_def)

lemma attempt_apply [simp]: "attempt m w = (Inr (fst (m w)), snd (m w))"
  by (simp add: attempt_def split: prod.splits)

lemma ctx_apply [simp]: "ctx msg m w = (with_context msg (fst (m w)), snd (m w))"
  by (simp add: ctx_def split: prod.splits)

lemma seq_Inl: "m w = (Inl e, w') \<Longrightarrow> seq m k w = (Inl e, w')" by (simp add: seq_def)
lemma seq_Inr: "m w = (Inr x, w') \<Longrightarrow> seq m k w = k x w'" by (simp add: seq_def)

lemma seq_gets [simp]: "seq (gets f) k w = k (f w) w" by (simp add: seq_def)
lemma seq_ret [simp]: "seq (ret x) k = k x" by (simp add: seq_def fun_eq_iff)
lemma seq_attempt [simp]: "seq (attempt m) k w = k (fst (m w)) (snd (m w))"
  by (simp add: seq_def)

lemma seq_check: "seq (check c msg) k w = (if c then k () w else (Inl (Msg msg), w))"
  by (simp add: seq_def)

lemma seq_check_True [simp]: "seq (check True msg) k w = k () w" by (simp add: seq_check)
lemma seq_check_False [simp]: "seq (check False msg) k w = (Inl (Msg msg), w)" by (simp add: seq_check)

lemma seq_lift [simp]:
  "seq (lift_r (Inr x)) k w = k x w" "seq (lift_r (Inl e)) k w = (Inl e, w)"
  by (simp_all add: seq_def)

lemma seq_lift_Inr: "seq (lift_r (Inr x)) k = k x"
  by (simp add: seq_def fun_eq_iff)

lemma seq_eq_Inr [act_simps]:
  "seq m k w = (Inr y, w'') \<longleftrightarrow> (\<exists>x w'. m w = (Inr x, w') \<and> k x w' = (Inr y, w''))"
  by (auto simp: seq_def split: prod.splits sum.splits)

section \<open>Invariants of actions\<close>

definition keeps :: "('w \<Rightarrow> bool) \<Rightarrow> ('w, 'a) act \<Rightarrow> bool" where
  "keeps I m \<longleftrightarrow> (\<forall>w. I w \<longrightarrow> I (snd (m w)))"

lemma keepsI: "(\<And>w. I w \<Longrightarrow> I (snd (m w))) \<Longrightarrow> keeps I m"
  by (simp add: keeps_def)

lemma keepsD: "keeps I m \<Longrightarrow> I w \<Longrightarrow> I (snd (m w))"
  by (simp add: keeps_def)

lemma keeps_seq [keeps_rules]: "keeps I m \<Longrightarrow> (\<And>x. keeps I (k x)) \<Longrightarrow> keeps I (seq m k)"
  unfolding keeps_def seq_def by (fastforce split: prod.splits sum.splits)

lemma keeps_ret [keeps_rules]: "keeps I (ret x)" by (simp add: keeps_def)
lemma keeps_lift [keeps_rules]: "keeps I (lift_r r)" by (simp add: keeps_def)
lemma keeps_gets [keeps_rules]: "keeps I (gets f)" by (simp add: keeps_def)
lemma keeps_check [keeps_rules]: "keeps I (check c msg)" by (simp add: keeps_def)
lemma keeps_attempt [keeps_rules]: "keeps I m \<Longrightarrow> keeps I (attempt m)" by (simp add: keeps_def)
lemma keeps_ctx [keeps_rules]: "keeps I m \<Longrightarrow> keeps I (ctx msg m)" by (simp add: keeps_def)
lemma keeps_if [keeps_rules]: "keeps I m \<Longrightarrow> keeps I n \<Longrightarrow> keeps I (if c then m else n)" by simp

lemma keeps_option [keeps_rules]:
  "keeps I n \<Longrightarrow> (\<And>x. keeps I (f x)) \<Longrightarrow> keeps I (case v of None \<Rightarrow> n | Some x \<Rightarrow> f x)"
  by (cases v) simp_all

lemma keeps_sum [keeps_rules]:
  "(\<And>e. keeps I (f e)) \<Longrightarrow> (\<And>x. keeps I (g x)) \<Longrightarrow> keeps I (case v of Inl e \<Rightarrow> f e | Inr x \<Rightarrow> g x)"
  by (cases v) simp_all

lemma keeps_each [keeps_rules]: "(\<And>x. x \<in> set xs \<Longrightarrow> keeps I (f x)) \<Longrightarrow> keeps I (each f xs)"
  by (induction xs) (auto intro: keeps_rules)

section \<open>Triples with an error postcondition\<close>

definition triple :: "('w \<Rightarrow> bool) \<Rightarrow> ('w, 'a) act \<Rightarrow> ('a \<Rightarrow> 'w \<Rightarrow> bool) \<Rightarrow> ('w \<Rightarrow> bool) \<Rightarrow> bool" where
  "triple P m Q E \<longleftrightarrow>
     (\<forall>w. P w \<longrightarrow> (case m w of (Inr x, w') \<Rightarrow> Q x w' | (Inl e, w') \<Rightarrow> E w'))"

lemma tripleD_Inr: "triple P m Q E \<Longrightarrow> P w \<Longrightarrow> m w = (Inr x, w') \<Longrightarrow> Q x w'"
  by (auto simp: triple_def)

lemma tripleD_Inl: "triple P m Q E \<Longrightarrow> P w \<Longrightarrow> m w = (Inl e, w') \<Longrightarrow> E w'"
  by (auto simp: triple_def)

lemma triple_seq:
  assumes "triple P m R E" "\<And>x. triple (R x) (k x) Q E"
  shows "triple P (seq m k) Q E"
  using assms unfolding triple_def seq_def by (fastforce split: prod.splits sum.splits)

lemma triple_weaken:
  assumes "triple P' m Q' E'" "\<And>w. P w \<Longrightarrow> P' w" "\<And>x w. Q' x w \<Longrightarrow> Q x w" "\<And>w. E' w \<Longrightarrow> E w"
  shows "triple P m Q E"
  using assms unfolding triple_def by (fastforce split: prod.splits sum.splits)

lemma triple_ret: "(\<And>w. P w \<Longrightarrow> Q x w) \<Longrightarrow> triple P (ret x) Q E"
  by (simp add: triple_def)

lemma triple_check:
  "(\<And>w. P w \<Longrightarrow> c \<Longrightarrow> Q () w) \<Longrightarrow> (\<And>w. P w \<Longrightarrow> E w) \<Longrightarrow> triple P (check c msg) Q E"
  by (auto simp: triple_def ensure_def)

lemma triple_ctx: "triple P m Q E \<Longrightarrow> triple P (ctx msg m) Q E"
  unfolding triple_def ctx_def by (fastforce split: prod.splits sum.splits)

lemma keeps_triple: "keeps I m \<longleftrightarrow> triple I m (\<lambda>_. I) I"
  unfolding keeps_def triple_def by (fastforce split: prod.splits sum.splits)

lemma keeps_seq_check: "(c \<Longrightarrow> keeps I (k ())) \<Longrightarrow> keeps I (seq (check c msg) k)"
  by (cases c) (simp_all add: keeps_def)

lemma triple_gets: "(\<And>x. triple (\<lambda>w. P w \<and> f w = x) (k x) Q E) \<Longrightarrow> triple P (seq (gets f) k) Q E"
  by (simp add: triple_def)

lemma triple_seq_check:
  "(c \<Longrightarrow> triple P (k ()) Q E) \<Longrightarrow> (\<And>w. P w \<Longrightarrow> E w) \<Longrightarrow> triple P (seq (check c msg) k) Q E"
  by (cases c) (auto simp: triple_def)

lemma triple_seq_lift:
  "(\<And>x. r = Inr x \<Longrightarrow> triple P (k x) Q E) \<Longrightarrow> (\<And>w. P w \<Longrightarrow> E w) \<Longrightarrow> triple P (seq (lift_r r) k) Q E"
  by (cases r) (auto simp: triple_def)

lemma triple_seq_attempt:
  assumes "triple P m Q' E'" "\<And>x. triple (Q' x) (k (Inr x)) Q E" "\<And>e. triple E' (k (Inl e)) Q E"
  shows "triple P (seq (attempt m) k) Q E"
  using assms unfolding triple_def by (fastforce split: prod.splits sum.splits)

lemma triple_lift: "(\<And>w x. P w \<Longrightarrow> r = Inr x \<Longrightarrow> Q x w) \<Longrightarrow> (\<And>w. P w \<Longrightarrow> E w) \<Longrightarrow> triple P (lift_r r) Q E"
  by (cases r) (auto simp: triple_def)

lemma triple_if:
  "(c \<Longrightarrow> triple P m Q E) \<Longrightarrow> (\<not> c \<Longrightarrow> triple P n Q E) \<Longrightarrow> triple P (if c then m else n) Q E"
  by simp

lemma triple_pre: "triple P' m Q E \<Longrightarrow> (\<And>w. P w \<Longrightarrow> P' w) \<Longrightarrow> triple P m Q E"
  by (auto simp: triple_def)

section \<open>Actions whose every step stays in a preorder\<close>

definition moves :: "('w \<Rightarrow> 'w \<Rightarrow> bool) \<Rightarrow> ('w, 'a) act \<Rightarrow> bool" where
  "moves R m \<longleftrightarrow> (\<forall>w. R w (snd (m w)))"

locale step_preorder =
  fixes R :: "'w \<Rightarrow> 'w \<Rightarrow> bool"
  assumes step_refl: "R w w"
    and step_trans: "R u v \<Longrightarrow> R v w \<Longrightarrow> R u w"
begin

lemma seq_moves:
  assumes "moves R m" "\<And>x. moves R (k x)" shows "moves R (seq m k)"
  unfolding moves_def
proof
  fix w
  have "R w (snd (m w))" using assms(1) by (simp add: moves_def)
  moreover have "R (snd (m w)) (snd (k x (snd (m w))))" for x using assms(2) by (simp add: moves_def)
  ultimately show "R w (snd (seq m k w))"
    by (auto simp: seq_def split: prod.splits sum.splits intro: step_trans)
qed

lemma ret_moves: "moves R (ret x)" by (simp add: moves_def step_refl)
lemma lift_moves: "moves R (lift_r r)" by (simp add: moves_def step_refl)
lemma gets_moves: "moves R (gets f)" by (simp add: moves_def step_refl)
lemma check_moves: "moves R (check c msg)" by (simp add: moves_def step_refl)
lemma attempt_moves: "moves R m \<Longrightarrow> moves R (attempt m)" by (simp add: moves_def)
lemma ctx_moves: "moves R m \<Longrightarrow> moves R (ctx msg m)" by (simp add: moves_def)
lemma if_moves: "(c \<Longrightarrow> moves R m) \<Longrightarrow> (\<not> c \<Longrightarrow> moves R n) \<Longrightarrow> moves R (if c then m else n)" by simp

lemma option_moves:
  "moves R n \<Longrightarrow> (\<And>x. moves R (f x)) \<Longrightarrow> moves R (case v of None \<Rightarrow> n | Some x \<Rightarrow> f x)"
  by (cases v) simp_all

lemma sum_moves:
  "(\<And>e. moves R (f e)) \<Longrightarrow> (\<And>x. moves R (g x)) \<Longrightarrow> moves R (case v of Inl e \<Rightarrow> f e | Inr x \<Rightarrow> g x)"
  by (cases v) simp_all

lemma each_moves: "(\<And>x. moves R (f x)) \<Longrightarrow> moves R (each f xs)"
  by (induction xs) (auto intro: ret_moves seq_moves)

lemmas moves_rules = seq_moves ret_moves lift_moves gets_moves check_moves attempt_moves ctx_moves
  if_moves option_moves sum_moves each_moves

lemma keeps_moves:
  assumes "moves R m" "\<And>u v. I u \<Longrightarrow> R u v \<Longrightarrow> I v" shows "keeps I m"
  using assms by (auto simp: moves_def keeps_def)

lemma triple_moves:
  assumes "moves R m" "\<And>u v. P u \<Longrightarrow> R u v \<Longrightarrow> P v" shows "triple P m (\<lambda>_. P) P"
  unfolding triple_def
proof (intro allI impI)
  fix w assume "P w"
  then have "P (snd (m w))" using assms by (auto simp: moves_def)
  then show "case m w of (Inl e, w') \<Rightarrow> P w' | (Inr x, w') \<Rightarrow> P w'"
    by (auto split: prod.splits sum.splits)
qed

end

end
