(* ===== verification/Utf8.thy ===== *)
theory Utf8
  imports Prelude
begin

text \<open>
  The check of \<open>String::from_utf8\<close>: a byte string is valid UTF-8 when it is a sequence of
  well-formed code points (no overlong form, no surrogate, nothing above U+10FFFF).
\<close>

definition byte_in :: "char \<Rightarrow> nat \<Rightarrow> nat \<Rightarrow> bool" where
  "byte_in c lo hi = (lo \<le> of_char c \<and> (of_char c :: nat) \<le> hi)"

definition utf8_second :: "char \<Rightarrow> char \<Rightarrow> bool" where
  "utf8_second a b =
     (if of_char a = (224 :: nat) then byte_in b 160 191
      else if of_char a = (237 :: nat) then byte_in b 128 159
      else if of_char a = (240 :: nat) then byte_in b 144 191
      else if of_char a = (244 :: nat) then byte_in b 128 143
      else byte_in b 128 191)"

fun is_utf8 :: "string \<Rightarrow> bool" where
  "is_utf8 [] = True"
| "is_utf8 [a] = byte_in a 0 127"
| "is_utf8 [a, b] =
     (if byte_in a 0 127 then is_utf8 [b] else byte_in a 194 223 \<and> utf8_second a b)"
| "is_utf8 [a, b, c] =
     (if byte_in a 0 127 then is_utf8 [b, c]
      else if byte_in a 194 223 then utf8_second a b \<and> is_utf8 [c]
      else byte_in a 224 239 \<and> utf8_second a b \<and> byte_in c 128 191)"
| "is_utf8 (a # b # c # d # s) =
     (if byte_in a 0 127 then is_utf8 (b # c # d # s)
      else if byte_in a 194 223 then utf8_second a b \<and> is_utf8 (c # d # s)
      else if byte_in a 224 239 then utf8_second a b \<and> byte_in c 128 191 \<and> is_utf8 (d # s)
      else byte_in a 240 244 \<and> utf8_second a b \<and> byte_in c 128 191 \<and> byte_in d 128 191 \<and> is_utf8 s)"

lemma is_utf8_ascii: "list_all (\<lambda>c. byte_in c 0 127) s \<Longrightarrow> is_utf8 s"
  by (induction s rule: is_utf8.induct) auto

end
