(* ===== verification/Numbers.thy ===== *)
theory Numbers
  imports Prelude
begin

text \<open>
  Decimal and hexadecimal text: what \<open>format!("{}")\<close>, \<open>format!("{:02x}")\<close> and
  \<open>format!("{:04x}")\<close> print for unsigned integers, what \<open>str::parse::<uN>\<close> accepts, and the
  round trip between them.
\<close>

section \<open>Decimal\<close>

definition digit_char :: "nat \<Rightarrow> char" where
  "digit_char n = char_of (48 + n)"

definition digit_value :: "char \<Rightarrow> nat" where
  "digit_value c = of_char c - 48"

fun show_nat :: "nat \<Rightarrow> string" where
  "show_nat n = (if n < 10 then [digit_char n] else show_nat (n div 10) @ [digit_char (n mod 10)])"

declare show_nat.simps [simp del]

definition show_int :: "int \<Rightarrow> string" where
  "show_int i = (if i < 0 then CHR ''-'' # show_nat (nat (- i)) else show_nat (nat i))"

definition nat_of_digits :: "string \<Rightarrow> nat" where
  "nat_of_digits ds = foldl (\<lambda>a c. 10 * a + digit_value c) 0 ds"

text \<open>
  \<open><uN as FromStr>::from_str\<close>: an optional plus sign, then at least one decimal digit and
  nothing else, with a value below the type's bound.
\<close>

definition parse_uint :: "nat \<Rightarrow> string \<Rightarrow> nat option" where
  "parse_uint bound s =
     (let ds = (case s of [] \<Rightarrow> [] | c # cs \<Rightarrow> if c = CHR ''+'' then cs else s) in
      if ds = [] \<or> \<not> list_all is_digit ds then None
      else (let n = nat_of_digits ds in if n < bound then Some n else None))"

lemma of_char_char_of [simp]: "n < 256 \<Longrightarrow> of_char (char_of n :: char) = (n :: nat)"
  by (simp add: of_char_of)

lemma is_digit_digit_char [simp]: "n < 10 \<Longrightarrow> is_digit (digit_char n)"
  by (simp add: is_digit_def digit_char_def)

lemma digit_value_digit_char [simp]: "n < 10 \<Longrightarrow> digit_value (digit_char n) = n"
  by (simp add: digit_value_def digit_char_def)

lemma show_nat_digits: "list_all is_digit (show_nat n)"
proof (induction n rule: show_nat.induct)
  case (1 n)
  then show ?case by (subst show_nat.simps) simp
qed

lemma show_nat_digit: "c \<in> set (show_nat n) \<Longrightarrow> is_digit c"
  using show_nat_digits [of n] by (simp add: list_all_iff)

lemma show_nat_not_Nil [simp]: "show_nat n \<noteq> []"
  by (subst show_nat.simps) simp

lemma nat_of_digits_snoc [simp]: "nat_of_digits (ds @ [c]) = 10 * nat_of_digits ds + digit_value c"
  by (simp add: nat_of_digits_def)

lemma nat_of_digits_Nil [simp]: "nat_of_digits [] = 0"
  by (simp add: nat_of_digits_def)

lemma nat_of_digits_single [simp]: "nat_of_digits [c] = digit_value c"
  using nat_of_digits_snoc [of "[]" c] by simp

lemma nat_of_digits_show_nat [simp]: "nat_of_digits (show_nat n) = n"
proof (induction n rule: show_nat.induct)
  case (1 n)
  then show ?case by (subst show_nat.simps) auto
qed

lemma not_digit_plus [simp]: "\<not> is_digit CHR ''+''"
  by (simp add: is_digit_def)

lemma parse_uint_digits:
  "ds \<noteq> [] \<Longrightarrow> list_all is_digit ds \<Longrightarrow>
     parse_uint bound ds = (if nat_of_digits ds < bound then Some (nat_of_digits ds) else None)"
  by (cases ds) (auto simp: parse_uint_def Let_def)

lemma parse_uint_show_nat [simp]:
  "parse_uint bound (show_nat n) = (if n < bound then Some n else None)"
  by (simp add: parse_uint_digits show_nat_digits)

lemma parse_uint_bound: "parse_uint bound s = Some n \<Longrightarrow> n < bound"
  by (auto simp: parse_uint_def Let_def split: if_splits list.splits)

lemma show_nat_inj: "show_nat m = show_nat n \<longleftrightarrow> m = n"
  by (metis nat_of_digits_show_nat)

lemma length_show_nat: "n < 10 ^ Suc k \<Longrightarrow> length (show_nat n) \<le> Suc k"
proof (induction k arbitrary: n)
  case 0
  then show ?case by (subst show_nat.simps) simp
next
  case (Suc k)
  show ?case
  proof (cases "n < 10")
    case True
    then show ?thesis by (subst show_nat.simps) simp
  next
    case False
    have "n div 10 < 10 ^ Suc k"
      using Suc.prems by (simp add: less_mult_imp_div_less)
    then have "length (show_nat (n div 10)) \<le> Suc k" by (rule Suc.IH)
    with False show ?thesis by (subst show_nat.simps) simp
  qed
qed

lemma hd_show_nat: "0 < n \<Longrightarrow> hd (show_nat n) \<noteq> CHR ''0''"
proof (induction n rule: show_nat.induct)
  case (1 n)
  show ?case
  proof (cases "n < 10")
    case True
    then have "(of_char (digit_char n) :: nat) = 48 + n" by (simp add: digit_char_def)
    with 1(2) have "(of_char (digit_char n) :: nat) \<noteq> of_char CHR ''0''" by simp
    then have "digit_char n \<noteq> CHR ''0''" by metis
    with True show ?thesis by (subst show_nat.simps) simp
  next
    case False
    then have "0 < n div 10" by (simp add: div_greater_zero_iff)
    with False 1(1) have "hd (show_nat (n div 10)) \<noteq> CHR ''0''" by simp
    with False show ?thesis by (subst show_nat.simps) (simp add: hd_append)
  qed
qed

lemma show_nat_0 [simp]: "show_nat 0 = ''0''"
  by code_simp

section \<open>Hexadecimal\<close>

definition hex_char :: "nat \<Rightarrow> char" where
  "hex_char n = (if n < 10 then char_of (48 + n) else char_of (87 + n))"

definition hex_value :: "char \<Rightarrow> nat" where
  "hex_value c = (if is_digit c then of_char c - 48 else of_char c - 87)"

fun show_hex :: "nat \<Rightarrow> string" where
  "show_hex n = (if n < 16 then [hex_char n] else show_hex (n div 16) @ [hex_char (n mod 16)])"

declare show_hex.simps [simp del]

text \<open>\<open>format!("{:0wx}")\<close>: lower-case hexadecimal, padded with zeros to at least \<open>w\<close> digits.\<close>

definition hex_pad :: "nat \<Rightarrow> nat \<Rightarrow> string" where
  "hex_pad w n = (let ds = show_hex n in replicate (w - length ds) CHR ''0'' @ ds)"

definition nat_of_hex :: "string \<Rightarrow> nat" where
  "nat_of_hex ds = foldl (\<lambda>a c. 16 * a + hex_value c) 0 ds"

lemma hex_value_hex_char [simp]: "n < 16 \<Longrightarrow> hex_value (hex_char n) = n"
  by (auto simp add: hex_value_def hex_char_def is_digit_def)

lemma is_lower_hex_hex_char [simp]: "n < 16 \<Longrightarrow> is_lower_hex (hex_char n)"
  by (auto simp add: is_lower_hex_def hex_char_def is_digit_def)

lemma nat_of_hex_snoc [simp]: "nat_of_hex (ds @ [c]) = 16 * nat_of_hex ds + hex_value c"
  by (simp add: nat_of_hex_def)

lemma nat_of_hex_Nil [simp]: "nat_of_hex [] = 0"
  by (simp add: nat_of_hex_def)

lemma nat_of_hex_single [simp]: "nat_of_hex [c] = hex_value c"
  using nat_of_hex_snoc [of "[]" c] by simp

lemma nat_of_hex_show_hex [simp]: "nat_of_hex (show_hex n) = n"
proof (induction n rule: show_hex.induct)
  case (1 n)
  then show ?case by (subst show_hex.simps) auto
qed

lemma nat_of_hex_zeros: "nat_of_hex (replicate k CHR ''0'' @ ds) = nat_of_hex ds"
  by (induction k) (simp_all add: nat_of_hex_def hex_value_def is_digit_def)

lemma nat_of_hex_hex_pad [simp]: "nat_of_hex (hex_pad w n) = n"
  by (simp add: hex_pad_def Let_def nat_of_hex_zeros)

lemma hex_pad_inj: "hex_pad w m = hex_pad w n \<longleftrightarrow> m = n"
  by (metis nat_of_hex_hex_pad)

lemma show_hex_digits: "list_all is_lower_hex (show_hex n)"
proof (induction n rule: show_hex.induct)
  case (1 n)
  then show ?case by (subst show_hex.simps) simp
qed

lemma length_show_hex: "n < 16 ^ Suc k \<Longrightarrow> length (show_hex n) \<le> Suc k"
proof (induction k arbitrary: n)
  case 0
  then show ?case by (subst show_hex.simps) simp
next
  case (Suc k)
  show ?case
  proof (cases "n < 16")
    case True
    then show ?thesis by (subst show_hex.simps) simp
  next
    case False
    have "n div 16 < 16 ^ Suc k"
      using Suc.prems by (simp add: less_mult_imp_div_less)
    then have "length (show_hex (n div 16)) \<le> Suc k" by (rule Suc.IH)
    with False show ?thesis by (subst show_hex.simps) simp
  qed
qed

lemma length_hex_pad: "n < 16 ^ Suc k \<Longrightarrow> length (hex_pad (Suc k) n) = Suc k"
  using length_show_hex [of n k] by (simp add: hex_pad_def Let_def)

lemma length_hex_pad_2: "n < 256 \<Longrightarrow> length (hex_pad 2 n) = 2"
  using length_hex_pad [of n 1] by (simp add: numeral_2_eq_2)

lemma hex_pad_digits: "list_all is_lower_hex (hex_pad w n)"
  using show_hex_digits [of n]
  by (auto simp: hex_pad_def Let_def list_all_iff is_lower_hex_def is_digit_def)

lemma hex_pad_digit: "c \<in> set (hex_pad w n) \<Longrightarrow> is_lower_hex c"
  using hex_pad_digits [of w n] by (simp add: list_all_iff)

end
