(* ===== verification/Ipv4.thy ===== *)
theory Ipv4
  imports Numbers
begin

text \<open>
  \<open>std::net::Ipv4Addr\<close>, as far as the sources use it: an address is its 32-bit value
  (\<open>u32::from\<close> and \<open>Ipv4Addr::from\<close> are the identity here), with the standard library's
  parser, \<open>Display\<close> and \<open>is_private\<close>.
\<close>

type_synonym u32 = "32 word"
type_synonym ipv4 = "32 word"

text \<open>The four octets, most significant first.\<close>

definition octets :: "ipv4 \<Rightarrow> nat list" where
  "octets a = (let n = unat a in
     [n div 16777216, n div 65536 mod 256, n div 256 mod 256, n mod 256])"

definition of_octets :: "nat \<Rightarrow> nat \<Rightarrow> nat \<Rightarrow> nat \<Rightarrow> ipv4" where
  "of_octets a b c d = word_of_nat (((a * 256 + b) * 256 + c) * 256 + d)"

definition show_ipv4 :: "ipv4 \<Rightarrow> string" where
  "show_ipv4 a = join_with ''.'' (map show_nat (octets a))"

text \<open>
  One group of \<open>Ipv4Addr::from_str\<close>: at most three decimal digits, at most 255, and no
  leading zero unless the group is a single digit.
\<close>

definition parse_octet :: "string \<Rightarrow> nat option" where
  "parse_octet s =
     (if s = [] \<or> 3 < length s \<or> \<not> list_all is_digit s \<or> (1 < length s \<and> hd s = CHR ''0'')
      then None
      else (let n = nat_of_digits s in if n \<le> 255 then Some n else None))"

definition parse_ipv4 :: "string \<Rightarrow> ipv4 option" where
  "parse_ipv4 s =
     (case split_char CHR ''.'' s of
        [a, b, c, d] \<Rightarrow>
          (case (parse_octet a, parse_octet b, parse_octet c, parse_octet d) of
             (Some w, Some x, Some y, Some z) \<Rightarrow> Some (of_octets w x y z)
           | _ \<Rightarrow> None)
      | _ \<Rightarrow> None)"

definition is_private :: "ipv4 \<Rightarrow> bool" where
  "is_private a =
     (case octets a of
        [o1, o2, o3, o4] \<Rightarrow> o1 = 10 \<or> (o1 = 172 \<and> 16 \<le> o2 \<and> o2 \<le> 31) \<or> (o1 = 192 \<and> o2 = 168)
      | _ \<Rightarrow> False)"

lemma parse_octet_show_nat:
  assumes "n \<le> 255" shows "parse_octet (show_nat n) = Some n"
proof -
  have len: "length (show_nat n) \<le> 3"
    using length_show_nat [of n 2] assms by simp
  have lead: "\<not> (1 < length (show_nat n) \<and> hd (show_nat n) = CHR ''0'')"
    using hd_show_nat [of n] by (cases "n = 0") auto
  show ?thesis
    using len lead assms by (auto simp: parse_octet_def show_nat_digits)
qed

lemma dot_notin_show_nat: "CHR ''.'' \<notin> set (show_nat n)"
  using show_nat_digit [of "CHR ''.''" n] by (auto simp: is_digit_def)

lemma nat_div_eq_iff:
  fixes n d q :: nat
  assumes "0 < d" shows "n div d = q \<longleftrightarrow> q * d \<le> n \<and> n < Suc q * d"
proof -
  have "n div d = q \<longleftrightarrow> q \<le> n div d \<and> n div d < Suc q" by auto
  then show ?thesis
    using assms by (simp only: less_eq_div_iff_mult_less_eq div_less_iff_less_mult)
qed

lemma nat_mod_256: "n mod 256 = n - 256 * (n div 256)" for n :: nat
  by (simp add: minus_mult_div_eq_mod)

lemma unat_ipv4_bound: "unat (a :: ipv4) < 4294967296"
  using unsigned_less [of a] by simp

lemma octets_bound: "x \<in> set (octets a) \<Longrightarrow> x \<le> 255"
proof -
  have "unat a div 16777216 < 256"
    using unat_ipv4_bound [of a] by (simp add: div_less_iff_less_mult)
  then show "x \<in> set (octets a) \<Longrightarrow> x \<le> 255"
    by (auto simp: octets_def Let_def less_Suc_eq_le [symmetric])
qed

lemma octets_value:
  "((n div 16777216 * 256 + n div 65536 mod 256) * 256 + n div 256 mod 256) * 256 + n mod 256 = n"
  for n :: nat
proof -
  have "n div 65536 = n div 256 div 256" and "n div 16777216 = n div 256 div 256 div 256"
    by (simp_all add: div_mult2_eq [symmetric])
  then show ?thesis
    using div_mult_mod_eq [of n 256] div_mult_mod_eq [of "n div 256" 256]
      div_mult_mod_eq [of "n div 256 div 256" 256] by simp
qed

lemma of_octets_octets: "octets a = [w, x, y, z] \<Longrightarrow> of_octets w x y z = a"
  using octets_value [of "unat a"] by (auto simp: octets_def of_octets_def Let_def)

lemma octets_four: "\<exists>w x y z. octets a = [w, x, y, z]"
  by (simp add: octets_def Let_def)

lemma parse_show_ipv4 [simp]: "parse_ipv4 (show_ipv4 a) = Some a"
proof -
  obtain w x y z where o: "octets a = [w, x, y, z]" using octets_four by blast
  have "w \<le> 255" "x \<le> 255" "y \<le> 255" "z \<le> 255"
    using octets_bound [of _ a] o by simp_all
  moreover have "split_char CHR ''.'' (show_ipv4 a) = [show_nat w, show_nat x, show_nat y, show_nat z]"
    by (simp add: show_ipv4_def o text_simps dot_notin_show_nat)
  ultimately show ?thesis
    using of_octets_octets [OF o] by (simp add: parse_ipv4_def parse_octet_show_nat)
qed

lemma show_ipv4_inj: "show_ipv4 a = show_ipv4 b \<longleftrightarrow> a = b"
  by (metis option.inject parse_show_ipv4)

lemma is_private_iff:
  "is_private a \<longleftrightarrow>
     (167772160 \<le> unat a \<and> unat a < 184549376)
     \<or> (2886729728 \<le> unat a \<and> unat a < 2887778304)
     \<or> (3232235520 \<le> unat a \<and> unat a < 3232301056)"
proof -
  define m where "m = unat a div 65536"
  have top: "unat a div 16777216 = m div 256"
    by (simp add: m_def div_mult2_eq [symmetric])
  have "m div 256 = 10 \<longleftrightarrow> 167772160 \<le> unat a \<and> unat a < 184549376"
    unfolding top [symmetric] by (simp add: nat_div_eq_iff)
  moreover have "m div 256 = 172 \<and> 16 \<le> m mod 256 \<and> m mod 256 \<le> 31
      \<longleftrightarrow> 2886729728 \<le> unat a \<and> unat a < 2887778304"
  proof -
    have "m div 256 = 172 \<longleftrightarrow> 44032 \<le> m \<and> m < 44288"
      by (simp add: nat_div_eq_iff)
    then have "m div 256 = 172 \<and> 16 \<le> m mod 256 \<and> m mod 256 \<le> 31 \<longleftrightarrow> 44048 \<le> m \<and> m < 44064"
      by (cases "m div 256 = 172") (auto simp: nat_mod_256)
    then show ?thesis
      by (auto simp: m_def less_eq_div_iff_mult_less_eq div_less_iff_less_mult)
  qed
  moreover have "m div 256 = 192 \<and> m mod 256 = 168
      \<longleftrightarrow> 3232235520 \<le> unat a \<and> unat a < 3232301056"
  proof -
    have "m div 256 = 192 \<longleftrightarrow> 49152 \<le> m \<and> m < 49408"
      by (simp add: nat_div_eq_iff)
    then have "m div 256 = 192 \<and> m mod 256 = 168 \<longleftrightarrow> m = 49320"
      by (cases "m div 256 = 192") (auto simp: nat_mod_256)
    then show ?thesis
      by (auto simp: m_def nat_div_eq_iff)
  qed
  ultimately show ?thesis
    unfolding is_private_def octets_def Let_def list.case top m_def [symmetric] by blast
qed

end
