(* ===== verification/NetworkPolicy.thy ===== *)
theory NetworkPolicy
  imports Ipv4
begin

unbundle bit_operations_syntax

text \<open>
  The network policy of the activator (\<open>src/src/commands/activator/network_policy.rs\<close>): CIDR
  subnets, the validation of the policy file, and the division of the address pool into
  point-to-point /30 subnets, one per slot.
\<close>

section \<open>Subnets\<close>

record subnet =
  sub_network :: u32
  sub_prefix :: nat

text \<open>\<open>u32::checked_shl\<close>: \<open>None\<close> when the shift is not below the width.\<close>

definition checked_shl :: "u32 \<Rightarrow> nat \<Rightarrow> u32 option" where
  "checked_shl a k = (if k < 32 then Some (push_bit k a) else None)"

text \<open>\<open>u32::MAX.checked_shl(32 - prefix).unwrap_or(0)\<close>\<close>

definition netmask :: "nat \<Rightarrow> u32" where
  "netmask p = (case checked_shl (- 1) (32 - p) of None \<Rightarrow> 0 | Some m \<Rightarrow> m)"

definition parse_subnet :: "string \<Rightarrow> subnet result" where
  "parse_subnet v =
     bind_r (ok_or ''expected IPv4 CIDR'' (split_once CHR ''/'' v)) (\<lambda>(address, pre).
     bind_r (ok_or ''invalid IPv4 prefix'' (parse_uint 256 pre)) (\<lambda>p.
     bind_r (ensure (p \<le> 32) ''invalid IPv4 prefix'') (\<lambda>_.
     bind_r (ok_or ''invalid IPv4 address'' (parse_ipv4 address)) (\<lambda>net.
     bind_r (ensure (net AND netmask p = net) ''CIDR must use its network address'') (\<lambda>_.
     Inr \<lparr>sub_network = net, sub_prefix = p\<rparr>)))))"

definition contains :: "subnet \<Rightarrow> ipv4 \<Rightarrow> bool" where
  "contains s a = (a AND netmask (sub_prefix s) = sub_network s)"

definition canonical :: "subnet \<Rightarrow> string" where
  "canonical s = show_ipv4 (sub_network s) @ ''/'' @ show_nat (sub_prefix s)"

text \<open>What every parsed subnet satisfies: a prefix length, and no host bit in the network.\<close>

definition wf_subnet :: "subnet \<Rightarrow> bool" where
  "wf_subnet s \<longleftrightarrow> sub_prefix s \<le> 32 \<and> sub_network s AND netmask (sub_prefix s) = sub_network s"

lemma parse_subnet_wf: "parse_subnet v = Inr s \<Longrightarrow> wf_subnet s"
  by (auto simp: parse_subnet_def wf_subnet_def result_simps split: prod.splits)

lemma slash_notin_show_ipv4: "CHR ''/'' \<notin> set (show_ipv4 a)"
proof -
  have "CHR ''/'' \<notin> set (show_nat n)" for n
    using show_nat_digit [of "CHR ''/''" n] by (auto simp: is_digit_def)
  moreover obtain w x y z where "octets a = [w, x, y, z]" using octets_four by blast
  ultimately show ?thesis by (simp add: show_ipv4_def)
qed

lemma parse_canonical: "wf_subnet s \<Longrightarrow> parse_subnet (canonical s) = Inr s"
  by (simp add: parse_subnet_def canonical_def wf_subnet_def text_simps slash_notin_show_ipv4
      ensure_def)

subsection \<open>The mask as arithmetic\<close>

lemma and_high_mask: "a AND push_bit k (- 1) = push_bit k (drop_bit k a)" for a :: u32
  by (rule bit_eqI) (auto simp: bit_simps)

lemma unat_high_part: "unat (push_bit k (drop_bit k a)) = unat a - unat a mod 2 ^ k" for a :: u32
proof -
  have "push_bit k (drop_bit k a) + take_bit k a = a" by (rule bits_ident)
  then have eq: "push_bit k (drop_bit k a) = a - take_bit k a" by (simp add: algebra_simps)
  have t: "unat (take_bit k a) = unat a mod 2 ^ k"
    by (simp only: unsigned_take_bit_eq) (simp only: take_bit_eq_mod)
  then have "take_bit k a \<le> a" by (simp add: word_le_nat_alt)
  then show ?thesis by (simp add: eq unat_sub t)
qed

lemma unat_and_netmask:
  assumes "p \<le> 32" shows "unat (a AND netmask p) = unat a - unat a mod 2 ^ (32 - p)"
proof (cases "p = 0")
  case True
  then show ?thesis using unat_ipv4_bound [of a] by (simp add: netmask_def checked_shl_def)
next
  case False
  with assms have "32 - p < 32" by simp
  then have "netmask p = push_bit (32 - p) (- 1)"
    by (simp only: netmask_def checked_shl_def if_True option.case)
  then show ?thesis by (simp only: and_high_mask unat_high_part)
qed

lemma contains_iff_range:
  assumes "wf_subnet s"
  shows "contains s a \<longleftrightarrow>
    unat (sub_network s) \<le> unat a \<and> unat a < unat (sub_network s) + 2 ^ (32 - sub_prefix s)"
proof -
  define m :: nat where "m = 2 ^ (32 - sub_prefix s)"
  have m: "0 < m" by (simp add: m_def)
  have p: "sub_prefix s \<le> 32" using assms by (simp add: wf_subnet_def)
  have "unat (sub_network s) - unat (sub_network s) mod m = unat (sub_network s)"
    using assms unat_and_netmask [OF p, of "sub_network s"] by (simp add: wf_subnet_def m_def)
  then have "unat (sub_network s) mod m = 0 \<or> unat (sub_network s) = 0" by linarith
  then have "m dvd unat (sub_network s)" by auto
  then obtain q where q: "unat (sub_network s) = q * m" by (metis dvd_def mult.commute)
  have "contains s a \<longleftrightarrow> unat (a AND netmask (sub_prefix s)) = unat (sub_network s)"
    by (simp add: contains_def word_unat_eq_iff)
  also have "\<dots> \<longleftrightarrow> unat a div m * m = q * m"
    by (simp add: unat_and_netmask [OF p] m_def [symmetric] q minus_mod_eq_div_mult)
  also have "\<dots> \<longleftrightarrow> unat a div m = q" using m by simp
  also have "\<dots> \<longleftrightarrow> q * m \<le> unat a \<and> unat a < Suc q * m" using m by (rule nat_div_eq_iff)
  finally show ?thesis by (simp add: q m_def [symmetric] algebra_simps)
qed

lemma wf_subnet_aligned:
  assumes "wf_subnet s" shows "2 ^ (32 - sub_prefix s) dvd unat (sub_network s)"
proof -
  have "sub_prefix s \<le> 32" using assms by (simp add: wf_subnet_def)
  then have "unat (sub_network s) - unat (sub_network s) mod 2 ^ (32 - sub_prefix s) = unat (sub_network s)"
    using assms unat_and_netmask [of "sub_prefix s" "sub_network s"] by (simp add: wf_subnet_def)
  then have "unat (sub_network s) mod 2 ^ (32 - sub_prefix s) = 0 \<or> unat (sub_network s) = 0"
    by linarith
  then show ?thesis by auto
qed

lemma wf_subnet_top:
  assumes "wf_subnet s" shows "unat (sub_network s) + 2 ^ (32 - sub_prefix s) \<le> 2 ^ 32"
proof -
  let ?m = "2 ^ (32 - sub_prefix s) :: nat"
  have p: "sub_prefix s \<le> 32" using assms by (simp add: wf_subnet_def)
  have split: "2 ^ 32 = ?m * 2 ^ sub_prefix s"
    using p by (simp flip: power_add)
  obtain q where q: "unat (sub_network s) = ?m * q"
    using wf_subnet_aligned [OF assms] by (auto simp: dvd_def)
  have "?m * q < ?m * 2 ^ sub_prefix s"
    using unat_ipv4_bound [of "sub_network s"] by (simp add: q [symmetric] split [symmetric])
  then have "Suc q \<le> 2 ^ sub_prefix s" by simp
  then have "?m * Suc q \<le> ?m * 2 ^ sub_prefix s" by (rule mult_le_mono2)
  then show ?thesis unfolding q split by simp
qed

lemma netmask_aligned_iff:
  "p \<le> 32 \<Longrightarrow> a AND netmask p = a \<longleftrightarrow> unat a mod 2 ^ (32 - p) = 0"
proof -
  assume p: "p \<le> 32"
  have "a AND netmask p = a \<longleftrightarrow> unat a - unat a mod 2 ^ (32 - p) = unat a"
    by (simp add: word_unat_eq_iff unat_and_netmask [OF p])
  moreover have "unat a mod 2 ^ (32 - p) \<le> unat a" by simp
  ultimately show ?thesis by linarith
qed

lemma contains_eval:
  "sub_prefix s \<le> 32 \<Longrightarrow> contains s a \<longleftrightarrow>
     unat a - unat a mod 2 ^ (32 - sub_prefix s) = unat (sub_network s)"
  by (simp add: contains_def word_unat_eq_iff unat_and_netmask)

lemma contains_div:
  assumes "wf_subnet s"
  shows "contains s a \<longleftrightarrow>
    unat a div 2 ^ (32 - sub_prefix s) = unat (sub_network s) div 2 ^ (32 - sub_prefix s)"
proof -
  obtain q where q: "unat (sub_network s) = 2 ^ (32 - sub_prefix s) * q"
    using wf_subnet_aligned [OF assms] by (auto simp: dvd_def)
  have m: "0 < (2 :: nat) ^ (32 - sub_prefix s)" by simp
  show ?thesis
    using nat_div_eq_iff [OF m, of "unat a" q]
    by (simp add: contains_iff_range [OF assms] q algebra_simps)
qed

text \<open>A subnet whose network lies in a shorter prefix lies in it as a whole.\<close>

lemma contains_trans:
  assumes "wf_subnet s" "wf_subnet t" "contains s (sub_network t)" "sub_prefix s \<le> sub_prefix t"
    "contains t a"
  shows "contains s a"
proof -
  let ?ks = "32 - sub_prefix s" and ?kt = "32 - sub_prefix t"
  have "?ks = ?kt + (?ks - ?kt)" using assms(4) by simp
  then have split: "(2 :: nat) ^ ?ks = 2 ^ ?kt * 2 ^ (?ks - ?kt)"
    by (metis power_add)
  have "unat a div 2 ^ ?kt = unat (sub_network t) div 2 ^ ?kt"
    using assms(2,5) by (simp add: contains_div)
  then have "unat a div 2 ^ ?ks = unat (sub_network t) div 2 ^ ?ks"
    by (simp add: split div_mult2_eq)
  then show ?thesis
    using assms(1,3) by (simp add: contains_div)
qed

text \<open>The equations that evaluate the policy functions on literals.\<close>

lemmas subnet_eval = parse_subnet_def parse_ipv4_def parse_octet_def of_octets_def
  nat_of_digits_def digit_value_def is_digit_def parse_uint_def ensure_def netmask_aligned_iff
  contains_eval

section \<open>The policy file and its validation\<close>

text \<open>\<open>SPECIAL\<close>: the IANA special-purpose networks no resolver may lie in.\<close>

definition SPECIAL :: "string list" where
  "SPECIAL =
    [''0.0.0.0/8'', ''10.0.0.0/8'', ''100.64.0.0/10'', ''127.0.0.0/8'', ''169.254.0.0/16'',
     ''172.16.0.0/12'', ''192.0.0.0/24'', ''192.0.2.0/24'', ''192.31.196.0/24'',
     ''192.52.193.0/24'', ''192.175.48.0/24'', ''192.88.99.0/24'', ''192.168.0.0/16'',
     ''198.18.0.0/15'', ''198.51.100.0/24'', ''203.0.113.0/24'', ''224.0.0.0/4'', ''240.0.0.0/4'']"

record policy_file =
  pf_address_pool :: string
  pf_dns_resolver :: ipv4
  pf_protected_destinations :: "string list"
  pf_state_directory :: string
  pf_garden_units :: "string list"

definition default_state_directory :: string where
  "default_state_directory = ''/run/sower-network''"

definition default_garden_units :: "string list" where
  "default_garden_units = [''sower-garden.service'']"

definition unit_byte :: "char \<Rightarrow> bool" where
  "unit_byte c = (is_alphanumeric c \<or> c \<in> {CHR ''_'', CHR ''.'', CHR ''@'', CHR '':'', CHR ''-'', char_backslash, CHR ''x''})"

definition valid_unit :: "string \<Rightarrow> bool" where
  "valid_unit u =
     (ends_with ''.service'' u \<and> length u \<le> 255 \<and> length ''.service'' < length u
      \<and> list_all unit_byte u)"

record policy =
  pool :: subnet
  dns :: ipv4
  protected :: "subnet list"
  state_directory :: string
  garden_units :: "string list"

definition private_cidrs :: "string list" where
  "private_cidrs = [''10.0.0.0/8'', ''172.16.0.0/12'', ''192.168.0.0/16'']"

text \<open>
  The closure of the RFC 1918 check: the parse of a constant cannot fail
  (\<open>expect("constant CIDR")\<close>; lemma \<open>private_cidrs_parse\<close>).
\<close>

definition private_pool :: "subnet \<Rightarrow> string \<Rightarrow> bool" where
  "private_pool p cidr =
     (case parse_subnet cidr of
        Inl _ \<Rightarrow> False
      | Inr s \<Rightarrow> contains s (sub_network p) \<and> sub_prefix s \<le> sub_prefix p)"

definition is_absolute :: "string \<Rightarrow> bool" where
  "is_absolute p = (case p of [] \<Rightarrow> False | c # _ \<Rightarrow> c = CHR ''/'')"

definition validate_policy :: "policy_file \<Rightarrow> policy result" where
  "validate_policy f =
     bind_r (ensure (pf_garden_units f \<noteq> [] \<and> list_all valid_unit (pf_garden_units f))
       ''garden_units must contain configured system service names'') (\<lambda>_.
     bind_r (parse_subnet (pf_address_pool f)) (\<lambda>pl.
     bind_r (ensure (16 \<le> sub_prefix pl \<and> sub_prefix pl \<le> 30)
       ''address pool must have prefix /16 through /30'') (\<lambda>_.
     bind_r (ensure (list_ex (private_pool pl) private_cidrs)
       ''address pool must be contained in an RFC1918 network'') (\<lambda>_.
     bind_r (collect_r parse_subnet SPECIAL) (\<lambda>special.
     bind_r (collect_r (\<lambda>cidr. with_context ''invalid protected destination'' (parse_subnet cidr))
       (pf_protected_destinations f)) (\<lambda>extra.
     let prot = special @ extra in
     bind_r (ensure (\<not> list_ex (\<lambda>s. contains s (pf_dns_resolver f)) prot)
       ''DNS resolver must be public and outside protected destinations'') (\<lambda>_.
     bind_r (ensure (is_absolute (pf_state_directory f)) ''state directory must be absolute'') (\<lambda>_.
     bind_r (ensure (''..'' \<notin> set (split_char CHR ''/'' (pf_state_directory f)))
       ''state directory must not contain parent traversal'') (\<lambda>_.
     Inr \<lparr>pool = pl, dns = pf_dns_resolver f, protected = prot,
          state_directory = pf_state_directory f, garden_units = pf_garden_units f\<rparr>)))))))))"

lemma private_cidrs_parse:
  "parse_subnet ''10.0.0.0/8'' = Inr \<lparr>sub_network = 167772160, sub_prefix = 8\<rparr>"
  "parse_subnet ''172.16.0.0/12'' = Inr \<lparr>sub_network = 2886729728, sub_prefix = 12\<rparr>"
  "parse_subnet ''192.168.0.0/16'' = Inr \<lparr>sub_network = 3232235520, sub_prefix = 16\<rparr>"
  by (simp_all add: subnet_eval)

definition special_subnets :: "subnet list" where
  "special_subnets = map (\<lambda>(n, p). \<lparr>sub_network = n, sub_prefix = p\<rparr>)
    [(0, 8), (167772160, 8), (1681915904, 10), (2130706432, 8), (2851995648, 16),
     (2886729728, 12), (3221225472, 24), (3221225984, 24), (3223307264, 24), (3224682752, 24),
     (3232706560, 24), (3227017984, 24), (3232235520, 16), (3323068416, 15), (3325256704, 24),
     (3405803776, 24), (3758096384, 4), (4026531840, 4)]"

lemma SPECIAL_parses: "collect_r parse_subnet SPECIAL = Inr special_subnets"
  unfolding SPECIAL_def special_subnets_def
  by (simp add: subnet_eval)

section \<open>Slots\<close>

text \<open>\<open>1 << (30 - prefix)\<close> on \<open>u32\<close>; the prefix of a validated pool is at least 16.\<close>

definition slots :: "policy \<Rightarrow> u32" where
  "slots p = push_bit (30 - sub_prefix (pool p)) 1"

text \<open>The gateway and the guest address of a slot, on \<open>u32\<close>.\<close>

definition addresses :: "policy \<Rightarrow> u32 \<Rightarrow> (ipv4 \<times> ipv4) result" where
  "addresses p slot =
     bind_r (ensure (slot < slots p) ''allocation outside address pool'') (\<lambda>_.
     let base = sub_network (pool p) + slot * 4 in Inr (base + 1, base + 2))"

section \<open>What a validated policy promises\<close>

text \<open>
  The well-formedness of a policy: what every component that holds one relies on.
\<close>

definition wf_policy :: "policy \<Rightarrow> bool" where
  "wf_policy p \<longleftrightarrow>
     garden_units p \<noteq> [] \<and> list_all valid_unit (garden_units p)
     \<and> wf_subnet (pool p) \<and> 16 \<le> sub_prefix (pool p) \<and> sub_prefix (pool p) \<le> 30
     \<and> list_ex (private_pool (pool p)) private_cidrs
     \<and> list_all wf_subnet (protected p) \<and> set special_subnets \<subseteq> set (protected p)
     \<and> \<not> list_ex (\<lambda>s. contains s (dns p)) (protected p)
     \<and> is_absolute (state_directory p) \<and> ''..'' \<notin> set (split_char CHR ''/'' (state_directory p))"

lemma collect_parse_wf:
  "collect_r (\<lambda>c. with_context m (parse_subnet c)) cs = Inr ss \<Longrightarrow> list_all wf_subnet ss"
  by (induction cs arbitrary: ss) (auto simp: result_simps parse_subnet_wf)

lemma special_subnets_wf: "list_all wf_subnet special_subnets"
  by (simp add: special_subnets_def wf_subnet_def netmask_aligned_iff)

lemma validate_policy_wf: "validate_policy f = Inr p \<Longrightarrow> wf_policy p"
  by (auto simp: validate_policy_def wf_policy_def result_simps Let_def parse_subnet_wf
      SPECIAL_parses special_subnets_wf collect_parse_wf list_all_append)

lemma private_pool_private:
  assumes "list_ex (private_pool t) private_cidrs" "wf_subnet t" "contains t a"
  shows "is_private a"
proof -
  obtain c where c: "c \<in> set private_cidrs" and "private_pool t c"
    using assms(1) by (auto simp: list_ex_iff)
  then obtain s where s: "parse_subnet c = Inr s"
    and inside: "contains s (sub_network t)" "sub_prefix s \<le> sub_prefix t"
    by (cases "parse_subnet c") (auto simp: private_pool_def)
  have "contains s a"
    using contains_trans [OF parse_subnet_wf [OF s] assms(2) inside assms(3)] .
  then have "unat (sub_network s) \<le> unat a \<and> unat a < unat (sub_network s) + 2 ^ (32 - sub_prefix s)"
    by (simp add: contains_iff_range [OF parse_subnet_wf [OF s]])
  with c s show ?thesis
    by (auto simp: private_cidrs_def private_cidrs_parse is_private_iff)
qed

lemma pool_private: "wf_policy p \<Longrightarrow> contains (pool p) a \<Longrightarrow> is_private a"
  using private_pool_private [of "pool p" a] by (simp add: wf_policy_def)

text \<open>The three RFC 1918 networks are special, so a private address is protected.\<close>

lemma private_is_special:
  assumes "is_private a" shows "\<exists>s \<in> set special_subnets. contains s a"
proof -
  let ?s = "\<lambda>n p. \<lparr>sub_network = n, sub_prefix = p\<rparr>"
  have in_s: "contains (?s n p) a \<longleftrightarrow> unat n \<le> unat a \<and> unat a < unat n + 2 ^ (32 - p)"
    if "(n, p) \<in> {(167772160, 8), (2886729728, 12), (3232235520, 16)}" for n p
    using that by (subst contains_iff_range) (auto simp: wf_subnet_def netmask_aligned_iff)
  have "contains (?s 167772160 8) a \<or> contains (?s 2886729728 12) a \<or> contains (?s 3232235520 16) a"
    using assms by (auto simp: is_private_iff in_s)
  then show ?thesis by (auto simp: special_subnets_def)
qed

lemma dns_public: "wf_policy p \<Longrightarrow> \<not> is_private (dns p)"
  using private_is_special [of "dns p"] by (auto simp: wf_policy_def list_ex_iff)

subsection \<open>Slots and addresses\<close>

lemma unat_slots: "wf_policy p \<Longrightarrow> unat (slots p) = 2 ^ (30 - sub_prefix (pool p))"
proof -
  assume "wf_policy p"
  have "(2 :: nat) ^ (30 - sub_prefix (pool p)) < 2 ^ 32"
    by (intro power_strict_increasing) auto
  moreover have "slots p = word_of_nat (2 ^ (30 - sub_prefix (pool p)))"
    by (simp add: slots_def push_bit_eq_mult)
  ultimately show ?thesis
    by (simp only: unat_of_nat len_num1 len_num0 len_bit0 mod_less) simp
qed

lemma slots_le: "wf_policy p \<Longrightarrow> unat (slots p) \<le> 16384"
proof -
  assume p: "wf_policy p"
  then have "(2 :: nat) ^ (30 - sub_prefix (pool p)) \<le> 2 ^ 14"
    by (intro power_increasing) (auto simp: wf_policy_def)
  with p show ?thesis by (simp add: unat_slots)
qed

text \<open>The base of a slot's block, without wrap-around.\<close>

lemma slot_base:
  assumes p: "wf_policy p" and slot: "slot < slots p"
  shows "unat (sub_network (pool p) + slot * 4) = unat (sub_network (pool p)) + 4 * unat slot"
    and "unat (sub_network (pool p)) + 4 * unat slot + 4
         \<le> unat (sub_network (pool p)) + 2 ^ (32 - sub_prefix (pool p))"
    and "unat (sub_network (pool p)) mod 4 = 0"
proof -
  let ?n = "unat (sub_network (pool p))" and ?k = "30 - sub_prefix (pool p)"
  have "sub_prefix (pool p) \<le> 30" using p by (simp add: wf_policy_def)
  then have "32 - sub_prefix (pool p) = 2 + ?k" by arith
  then have four: "(2 :: nat) ^ (32 - sub_prefix (pool p)) = 4 * 2 ^ ?k"
    by (simp add: power_add)
  have s: "unat slot < 2 ^ ?k"
    using slot unat_slots [OF p] by (simp add: word_less_nat_alt)
  then show bound: "?n + 4 * unat slot + 4 \<le> ?n + 2 ^ (32 - sub_prefix (pool p))"
    by (simp add: four)
  have top: "?n + 2 ^ (32 - sub_prefix (pool p)) \<le> 4294967296"
    using p wf_subnet_top [of "pool p"] by (simp add: wf_policy_def)
  show "unat (sub_network (pool p) + slot * 4) = ?n + 4 * unat slot"
    using bound top by (simp add: unat_word_ariths mult.commute)
  show "?n mod 4 = 0"
    using p wf_subnet_aligned [of "pool p"] four by (auto simp: wf_policy_def mod_eq_0_iff_dvd
        intro: dvd_trans [of 4 "4 * 2 ^ ?k"])
qed

lemma addresses_Inr:
  assumes p: "wf_policy p" and ok: "addresses p slot = Inr (g, a)"
  shows "unat g = unat (sub_network (pool p)) + 4 * unat slot + 1"
    and "unat a = unat g + 1" and "contains (pool p) g" and "contains (pool p) a"
    and "unat g mod 4 = 1"
proof -
  have slot: "slot < slots p" and g: "g = sub_network (pool p) + slot * 4 + 1"
    and a: "a = sub_network (pool p) + slot * 4 + 2"
    using ok by (auto simp: addresses_def result_simps Let_def)
  note base = slot_base [OF p slot]
  have top: "unat (sub_network (pool p)) + 2 ^ (32 - sub_prefix (pool p)) \<le> 4294967296"
    using p wf_subnet_top [of "pool p"] by (simp add: wf_policy_def)
  show g': "unat g = unat (sub_network (pool p)) + 4 * unat slot + 1"
    using base top unfolding g by (subst unat_word_ariths) (simp add: base(1))
  have a': "unat a = unat (sub_network (pool p)) + 4 * unat slot + 2"
    using base top unfolding a by (subst unat_word_ariths) (simp add: base(1))
  then show "unat a = unat g + 1" by (simp add: g')
  show "contains (pool p) g" "contains (pool p) a"
    using p base(2) g' a' by (simp_all add: wf_policy_def contains_iff_range)
  have "(unat (sub_network (pool p)) + 4 * unat slot + 1) mod 4 = (unat (sub_network (pool p)) mod 4 + 1) mod 4"
    by (simp add: mod_simps)
  then show "unat g mod 4 = 1" by (simp add: g' base(3))
qed

lemma gateway_low_bits: "unat g mod 4 = 1 \<Longrightarrow> g AND 3 = 1" for g :: u32
proof -
  assume mod: "unat g mod 4 = 1"
  have "unat (take_bit 2 g) = take_bit 2 (unat g)" by (rule unsigned_take_bit_eq)
  moreover have "take_bit 2 g = g AND 3" by (simp only: take_bit_eq_mask) (simp add: mask_numeral)
  moreover have "take_bit 2 (unat g) = unat g mod 4" by (simp add: take_bit_eq_mod)
  ultimately have "unat (g AND 3) = unat g mod 4" by metis
  with mod show ?thesis by (simp add: word_unat_eq_iff)
qed

section \<open>Properties\<close>

text \<open>Parsing the canonical text of a subnet that was accepted from any text gives the same
  subnet back: what the guard script prints (\<open>canonical\<close>) denotes exactly the network that the
  policy was validated with, so no accepted CIDR changes meaning on its way to the firewall.\<close>

theorem parse_subnet_canonical:
  assumes "parse_subnet v = Inr s"
  shows "parse_subnet (canonical s) = Inr s"
  using parse_canonical [OF parse_subnet_wf [OF assms]] .

theorem parse_subnet_canonical_witness:
  "parse_subnet ''10.254.0.0/+16'' = Inr \<lparr>sub_network = 184418304, sub_prefix = 16\<rparr>
   \<and> parse_subnet (canonical \<lparr>sub_network = 184418304, sub_prefix = 16\<rparr>)
       = Inr \<lparr>sub_network = 184418304, sub_prefix = 16\<rparr>"
proof -
  have "parse_subnet ''10.254.0.0/+16'' = Inr \<lparr>sub_network = 184418304, sub_prefix = 16\<rparr>"
    by (simp add: subnet_eval)
  then show ?thesis using parse_subnet_canonical by blast
qed

text \<open>A subnet accepted by the parser contains exactly the \<open>2 ^ (32 - prefix)\<close> addresses that
  start at its network address, for every prefix length from 0 (where the shift of the mask
  overflows and the code falls back to 0) to 32.\<close>

theorem parsed_subnet_contains:
  assumes "parse_subnet v = Inr s"
  shows "contains s a \<longleftrightarrow>
    unat (sub_network s) \<le> unat a \<and> unat a < unat (sub_network s) + 2 ^ (32 - sub_prefix s)"
  by (rule contains_iff_range [OF parse_subnet_wf [OF assms]])

theorem parsed_subnet_contains_witness:
  "parse_subnet ''0.0.0.0/0'' = Inr \<lparr>sub_network = 0, sub_prefix = 0\<rparr>
   \<and> contains \<lparr>sub_network = 0, sub_prefix = 0\<rparr> 4294967295"
proof -
  have p: "parse_subnet ''0.0.0.0/0'' = Inr \<lparr>sub_network = 0, sub_prefix = 0\<rparr>"
    by (simp add: subnet_eval)
  then show ?thesis using parsed_subnet_contains [OF p, of 4294967295] by simp
qed

text \<open>An example policy, the one of the sources' own tests; it is also the witness of the
  properties of the allocator.\<close>

definition example_file :: policy_file where
  "example_file = \<lparr>pf_address_pool = ''10.254.0.0/16'', pf_dns_resolver = 16843009,
     pf_protected_destinations = [''9.9.9.0/24''],
     pf_state_directory = default_state_directory, pf_garden_units = default_garden_units\<rparr>"

definition example_policy :: policy where
  "example_policy = \<lparr>pool = \<lparr>sub_network = 184418304, sub_prefix = 16\<rparr>, dns = 16843009,
     protected = special_subnets @ [\<lparr>sub_network = 151587072, sub_prefix = 24\<rparr>],
     state_directory = default_state_directory, garden_units = default_garden_units\<rparr>"

lemma validate_example: "validate_policy example_file = Inr example_policy"
proof -
  have u: "valid_unit ''sower-garden.service''"
    by (simp add: valid_unit_def ends_with_def strip_suffix_def unit_byte_def is_alphanumeric_def
        is_digit_def)
  have pool: "parse_subnet ''10.254.0.0/16'' = Inr \<lparr>sub_network = 184418304, sub_prefix = 16\<rparr>"
    and extra: "parse_subnet ''9.9.9.0/24'' = Inr \<lparr>sub_network = 151587072, sub_prefix = 24\<rparr>"
    by (simp_all add: subnet_eval)
  have priv: "list_ex (private_pool \<lparr>sub_network = 184418304, sub_prefix = 16\<rparr>) private_cidrs"
    by (simp add: private_cidrs_def private_pool_def private_cidrs_parse contains_eval)
  have dns: "\<not> list_ex (\<lambda>s. contains s 16843009)
      (special_subnets @ [\<lparr>sub_network = 151587072, sub_prefix = 24\<rparr>])"
    by (simp add: special_subnets_def contains_eval)
  show ?thesis
    using priv dns
    by (simp add: validate_policy_def example_file_def example_policy_def default_garden_units_def
        default_state_directory_def u pool extra SPECIAL_parses is_absolute_def)
qed

lemma wf_example: "wf_policy example_policy"
  by (rule validate_policy_wf [OF validate_example])

text \<open>C10: A policy file that passes validation yields a pool of private addresses only, at most
  16384 slots, valid unit names, and a DNS resolver that is outside every protected network, so
  it is neither private, nor an address of the pool.\<close>

theorem validated_policy_safe:
  assumes "validate_policy f = Inr p"
  shows "(contains (pool p) a \<longrightarrow> is_private a \<and> a \<noteq> dns p)
    \<and> (s \<in> set (protected p) \<longrightarrow> \<not> contains s (dns p))
    \<and> (u \<in> set (garden_units p) \<longrightarrow> valid_unit u)
    \<and> \<not> is_private (dns p) \<and> dns p = pf_dns_resolver f
    \<and> 1 \<le> unat (slots p) \<and> unat (slots p) \<le> 16384"
proof -
  have wf: "wf_policy p" by (rule validate_policy_wf [OF assms])
  have "dns p = pf_dns_resolver f"
    using assms by (auto simp: validate_policy_def result_simps Let_def)
  moreover have "s \<in> set (protected p) \<longrightarrow> \<not> contains s (dns p)"
    and "u \<in> set (garden_units p) \<longrightarrow> valid_unit u"
    using wf by (auto simp: wf_policy_def list_ex_iff list_all_iff)
  ultimately show ?thesis
    using dns_public [OF wf] pool_private [OF wf] unat_slots [OF wf] slots_le [OF wf] by auto
qed

theorem validated_policy_safe_witness:
  "validate_policy example_file = Inr example_policy \<and> is_private 184418305
   \<and> \<not> contains \<lparr>sub_network = 151587072, sub_prefix = 24\<rparr> (dns example_policy)
   \<and> unat (slots example_policy) \<le> 16384"
proof -
  have "contains (pool example_policy) 184418305"
    by (simp add: example_policy_def contains_eval)
  then show ?thesis
    using validate_example
      validated_policy_safe [OF validate_example, of 184418305 "\<lparr>sub_network = 151587072, sub_prefix = 24\<rparr>"]
    by (simp add: example_policy_def)
qed

text \<open>Under a validated policy every slot below the pool's size has a gateway and a guest
  address: the gateway is the first host of a /30 (so its low bits are 1) and the guest the
  second, both are private and inside the pool, and the computation on \<open>u32\<close> never wraps
  around.  A slot that is not below the size is refused.\<close>

theorem addresses_bounded:
  assumes "validate_policy f = Inr p"
  shows "addresses p slot =
      (if slot < slots p then Inr (sub_network (pool p) + slot * 4 + 1, sub_network (pool p) + slot * 4 + 2)
       else Inl (Msg ''allocation outside address pool''))
    \<and> (addresses p slot = Inr (g, a) \<longrightarrow>
         unat g = unat (sub_network (pool p)) + 4 * unat slot + 1 \<and> unat a = unat g + 1
         \<and> g AND 3 = 1 \<and> contains (pool p) g \<and> contains (pool p) a \<and> is_private g \<and> is_private a)"
proof -
  have wf: "wf_policy p" by (rule validate_policy_wf [OF assms])
  note gateway_low_bits
  moreover have "addresses p slot = Inr (g, a) \<longrightarrow>
      unat g = unat (sub_network (pool p)) + 4 * unat slot + 1 \<and> unat a = unat g + 1
      \<and> contains (pool p) g \<and> contains (pool p) a \<and> unat g mod 4 = 1"
    using addresses_Inr [OF wf] by blast
  moreover have "addresses p slot =
      (if slot < slots p then Inr (sub_network (pool p) + slot * 4 + 1, sub_network (pool p) + slot * 4 + 2)
       else Inl (Msg ''allocation outside address pool''))"
    by (simp add: addresses_def Let_def)
  ultimately show ?thesis using pool_private [OF wf] by blast
qed

theorem addresses_bounded_witness:
  "validate_policy example_file = Inr example_policy
   \<and> addresses example_policy 16383 = Inr (184483837, 184483838) \<and> is_private 184483838
   \<and> addresses example_policy 16384 = Inl (Msg ''allocation outside address pool'')"
proof -
  have s: "slots example_policy = 16384"
    by (simp add: slots_def example_policy_def push_bit_eq_mult)
  have a: "addresses example_policy 16383 = Inr (184483837, 184483838)"
    using addresses_bounded [OF validate_example, of 16383] s by (simp add: example_policy_def)
  then show ?thesis
    using validate_example addresses_bounded [OF validate_example, of 16383 184483837 184483838]
      addresses_bounded [OF validate_example, of 16384] s by simp
qed

text \<open>C11: Two different slots never share an address: the /30 blocks of their gateways are disjoint,
  so no two leases with different slots can be routed to each other's guest.\<close>

theorem slot_blocks_disjoint:
  assumes "validate_policy f = Inr p" "addresses p i = Inr (g, a)" "addresses p j = Inr (h, b)" "i \<noteq> j"
  shows "\<not> (contains \<lparr>sub_network = g - 1, sub_prefix = 30\<rparr> x
          \<and> contains \<lparr>sub_network = h - 1, sub_prefix = 30\<rparr> x)"
proof -
  have wf: "wf_policy p" by (rule validate_policy_wf [OF assms(1)])
  have block: "unat x - unat x mod 4 = unat k - 1"
    if "contains \<lparr>sub_network = k - 1, sub_prefix = 30\<rparr> x" "unat k mod 4 = 1" for k :: u32
  proof -
    have "1 \<le> k" using that(2) by (cases "k = 0") (auto simp: word_le_nat_alt unat_eq_zero
          intro: Suc_leI)
    then show ?thesis using that(1) by (simp add: contains_eval unat_sub)
  qed
  have "unat i \<noteq> unat j" using assms(4) by (simp add: word_unat_eq_iff)
  then have "unat g \<noteq> unat h"
    using addresses_Inr(1) [OF wf assms(2)] addresses_Inr(1) [OF wf assms(3)] by simp
  then show ?thesis
    using block [of g] block [of h] addresses_Inr(5) [OF wf assms(2)] addresses_Inr(5) [OF wf assms(3)]
      addresses_Inr(1) [OF wf assms(2)] addresses_Inr(1) [OF wf assms(3)] by fastforce
qed

theorem slot_blocks_disjoint_witness:
  "addresses example_policy 0 = Inr (184418305, 184418306)
   \<and> addresses example_policy 1 = Inr (184418309, 184418310)
   \<and> \<not> (contains \<lparr>sub_network = 184418305 - 1, sub_prefix = 30\<rparr> 184418306
        \<and> contains \<lparr>sub_network = 184418309 - 1, sub_prefix = 30\<rparr> 184418306)"
proof -
  have "slots example_policy = 16384"
    by (simp add: slots_def example_policy_def push_bit_eq_mult)
  then have "addresses example_policy 0 = Inr (184418305, 184418306)"
    and "addresses example_policy 1 = Inr (184418309, 184418310)"
    by (simp_all add: addresses_def example_policy_def)
  then show ?thesis
    using slot_blocks_disjoint [OF validate_example] by (metis zero_neq_one)
qed

end
