(* ===== verification/Lease.thy ===== *)
theory Lease
  imports NetworkPolicy
begin

text \<open>
  Leases and their owners, from \<open>src/src/commands/activator/network.rs\<close> (and the names and
  the MAC syntax of \<open>network_host.rs\<close>): the record that the activator journals for every
  network allocation, the validation every record read back from disk passes, the identity of
  the peer process that owns it, and how that identity is derived from \<open>/proc\<close>.
\<close>

section \<open>Names\<close>

definition MARKER :: string where "MARKER = ''sower-network''"
definition TAP_PREFIX :: string where "TAP_PREFIX = ''swnt''"

definition tap_name :: "u32 \<Rightarrow> string" where
  "tap_name slot = TAP_PREFIX @ hex_pad 4 (unat slot)"

definition valid_mac :: "string \<Rightarrow> bool" where
  "valid_mac m =
     (length m = 17 \<and> length (split_char CHR '':'' m) = 6
      \<and> list_all (\<lambda>b. length b = 2 \<and> list_all is_lower_hex b) (split_char CHR '':'' m))"

definition valid_token :: "string \<Rightarrow> bool" where
  "valid_token t = (length t = 32 \<and> list_all is_lower_hex t)"

section \<open>The journal record\<close>

datatype phase = Reserved | Allocated | Active | Revoked | Quarantined

record lease =
  l_lease :: string
  l_slot :: u32
  l_tap :: string
  l_mac :: string
  l_host_mac :: "string option"
  l_address :: ipv4
  l_gateway :: ipv4
  l_instance :: string
  l_owner_uid :: u32
  l_owner_pid :: int
  l_owner_starttime :: nat
  l_execution_id :: string
  l_phase :: phase

definition validate_execution :: "string \<Rightarrow> unit result" where
  "validate_execution e =
     ensure (e \<noteq> [] \<and> length e \<le> 256) ''execution_id must contain 1 through 256 bytes''"

definition validate_lease :: "lease \<Rightarrow> unit result" where
  "validate_lease l =
     bind_r (ensure (valid_token (l_lease l)) ''invalid journal lease token'') (\<lambda>_.
     bind_r (ensure (l_slot l < 16384 \<and> l_tap l = tap_name (l_slot l)) ''invalid journal TAP name'') (\<lambda>_.
     bind_r (ensure (valid_mac (l_mac l) \<and> starts_with ''02:'' (l_mac l)) ''invalid journal guest MAC'') (\<lambda>_.
     bind_r (ensure (case l_host_mac l of None \<Rightarrow> True | Some m \<Rightarrow> valid_mac m) ''invalid journal host MAC'') (\<lambda>_.
     bind_r (ensure (l_gateway l AND 3 = 1 \<and> l_address l = l_gateway l + 1) ''invalid journal /30 addresses'') (\<lambda>_.
     bind_r (ensure (is_private (l_address l) \<and> is_private (l_gateway l)) ''journal addresses must be RFC1918'') (\<lambda>_.
     bind_r (ensure (valid_unit (l_instance l)) ''invalid journal instance'') (\<lambda>_.
     bind_r (ensure (0 < l_owner_pid l \<and> 0 < l_owner_starttime l) ''invalid journal peer identity'') (\<lambda>_.
     validate_execution (l_execution_id l)))))))))"

definition wf_lease :: "lease \<Rightarrow> bool" where
  "wf_lease l \<longleftrightarrow>
     valid_token (l_lease l) \<and> l_slot l < 16384 \<and> l_tap l = tap_name (l_slot l)
     \<and> valid_mac (l_mac l) \<and> starts_with ''02:'' (l_mac l)
     \<and> (case l_host_mac l of None \<Rightarrow> True | Some m \<Rightarrow> valid_mac m)
     \<and> l_gateway l AND 3 = 1 \<and> l_address l = l_gateway l + 1
     \<and> is_private (l_address l) \<and> is_private (l_gateway l)
     \<and> valid_unit (l_instance l) \<and> 0 < l_owner_pid l \<and> 0 < l_owner_starttime l
     \<and> l_execution_id l \<noteq> [] \<and> length (l_execution_id l) \<le> 256"

lemma validate_lease_iff: "validate_lease l = Inr u \<longleftrightarrow> wf_lease l"
  by (auto simp: validate_lease_def wf_lease_def validate_execution_def result_simps)

text \<open>A phase change keeps a record valid, and so does a valid host MAC.\<close>

lemma wf_lease_phase [simp]: "wf_lease (l\<lparr>l_phase := ph\<rparr>) = wf_lease l"
  by (simp add: wf_lease_def)

lemma wf_lease_host_mac: "wf_lease l \<Longrightarrow> valid_mac m \<Longrightarrow> wf_lease (l\<lparr>l_host_mac := Some m\<rparr>)"
  by (auto simp: wf_lease_def)

lemma hex4_inj:
  assumes "tap_name s = tap_name t" shows "s = t"
  using assms by (simp add: tap_name_def hex_pad_inj word_unat_eq_iff)

subsection \<open>The tokens and MAC addresses that \<open>reserve\<close> generates\<close>

text \<open>Sixteen random bytes, two hexadecimal digits each; the MAC uses the first five.\<close>

definition token_of :: "nat list \<Rightarrow> string" where
  "token_of random = concat (map (hex_pad 2) random)"

definition mac_of :: "nat list \<Rightarrow> string" where
  "mac_of random = join_with '':'' (''02'' # map (hex_pad 2) (take 5 random))"

lemma valid_token_of:
  assumes "length random = 16" "\<forall>b \<in> set random. b < 256"
  shows "valid_token (token_of random)"
proof -
  have "length (concat (map (hex_pad 2) bs)) = 2 * length bs" if "\<forall>b \<in> set bs. b < 256" for bs
    using that by (induction bs) (auto simp: length_hex_pad_2)
  then show ?thesis
    using assms by (auto simp: valid_token_def token_of_def list_all_iff dest: hex_pad_digit)
qed

lemma colon_notin_hex_pad: "CHR '':'' \<notin> set (hex_pad w n)"
  using hex_pad_digit [of "CHR '':''" w n] by (auto simp: is_lower_hex_def is_digit_def)

lemma valid_mac_of:
  assumes "5 \<le> length random" "\<forall>b \<in> set random. b < 256"
  shows "valid_mac (mac_of random)" "starts_with ''02:'' (mac_of random)"
proof -
  obtain a b c d e rest where r: "random = a # b # c # d # e # rest"
    using assms(1) by (auto simp: numeral_eq_Suc Suc_le_length_iff)
  let ?ps = "[''02'', hex_pad 2 a, hex_pad 2 b, hex_pad 2 c, hex_pad 2 d, hex_pad 2 e]"
  have m: "mac_of random = join_with '':'' ?ps" by (simp add: mac_of_def r)
  have "split_char CHR '':'' (join_with '':'' ?ps) = ?ps"
    by (rule split_char_join) (auto simp: colon_notin_hex_pad)
  moreover have "list_all (\<lambda>b. length b = 2 \<and> list_all is_lower_hex b) ?ps"
    using assms(2) by (simp add: r length_hex_pad_2 hex_pad_digits is_lower_hex_def is_digit_def)
  moreover have "length (join_with '':'' ?ps) = 17"
    using assms(2) by (simp add: r length_hex_pad_2)
  ultimately show "valid_mac (mac_of random)"
    unfolding m valid_mac_def by simp
  show "starts_with ''02:'' (mac_of random)"
    unfolding m starts_with_iff by simp
qed

section \<open>Owners\<close>

record peer_credentials =
  peer_pid :: int
  peer_uid :: u32
  peer_gid :: u32

record owner =
  o_instance :: string
  o_peer :: peer_credentials
  o_starttime :: nat

definition require_owner :: "lease \<Rightarrow> owner \<Rightarrow> unit result" where
  "require_owner l own =
     ensure (l_instance l = o_instance own \<and> l_owner_uid l = peer_uid (o_peer own)
       \<and> l_owner_pid l = peer_pid (o_peer own) \<and> l_owner_starttime l = o_starttime own)
       ''lease belongs to another owner''"

text \<open>Field 22 of \<open>/proc/<pid>/stat\<close>, counted after the command name in parentheses.\<close>

definition parse_starttime :: "string \<Rightarrow> nat result" where
  "parse_starttime stat =
     bind_r (ok_or ''invalid process stat'' (rsplit_once CHR '')'' stat)) (\<lambda>(_, fields).
     let fs = split_whitespace fields in
     bind_r (ok_or ''missing process starttime'' (if 19 < length fs then Some (fs ! 19) else None)) (\<lambda>f.
     ok_or ''invalid process starttime'' (parse_uint (2 ^ 64) f)))"

text \<open>\<open>str::splitn(3, c)\<close>\<close>

definition splitn3 :: "char \<Rightarrow> string \<Rightarrow> string list" where
  "splitn3 c s =
     (case split_once c s of
        None \<Rightarrow> [s]
      | Some (a, r) \<Rightarrow> (case split_once c r of None \<Rightarrow> [a, r] | Some (b, q) \<Rightarrow> [a, b, q]))"

text \<open>
  The loop of \<open>cgroup_instance\<close> over the lines of \<open>/proc/<pid>/cgroup\<close>, with the unit found so
  far as its accumulator.
\<close>

definition system_slice_unit :: "string \<Rightarrow> string list \<Rightarrow> string option" where
  "system_slice_unit path units =
     (case split_char CHR ''/'' path of
        lead # sl # u # _ \<Rightarrow>
          if lead = [] \<and> sl = ''system.slice'' \<and> u \<in> set units then Some u else None
      | _ \<Rightarrow> None)"

fun cgroup_lines :: "string list \<Rightarrow> string list \<Rightarrow> string option \<Rightarrow> string option result" where
  "cgroup_lines units [] found = Inr found"
| "cgroup_lines units (line # rest) found =
     (case splitn3 CHR '':'' line of
        [hierarchy, controllers, path] \<Rightarrow>
          if hierarchy \<noteq> ''0'' \<or> controllers \<noteq> [] then cgroup_lines units rest found
          else (case system_slice_unit path units of
                  None \<Rightarrow> cgroup_lines units rest found
                | Some u \<Rightarrow> bind_r (ensure (found = None) ''ambiguous garden cgroup'')
                    (\<lambda>_. cgroup_lines units rest (Some u)))
      | _ \<Rightarrow> Inl (Msg ''invalid process cgroup''))"

definition cgroup_instance :: "string \<Rightarrow> string list \<Rightarrow> string result" where
  "cgroup_instance cgroup units =
     bind_r (cgroup_lines units (lines cgroup) None)
       (ok_or ''peer does not belong to a configured garden system service'')"

text \<open>
  The four reads of \<open>/proc\<close> that \<open>Owner::authenticate\<close> makes, in its order; the process may
  change between them, so the first and the last are separate values.
\<close>

record proc_reads =
  pr_stat_before :: "string result"
  pr_status :: "string result"
  pr_cgroup :: "string result"
  pr_stat_after :: "string result"

fun find_map :: "('a \<Rightarrow> 'b option) \<Rightarrow> 'a list \<Rightarrow> 'b option" where
  "find_map f [] = None"
| "find_map f (x # xs) = (case f x of None \<Rightarrow> find_map f xs | Some y \<Rightarrow> Some y)"

definition status_uid :: "string \<Rightarrow> u32 result" where
  "status_uid status =
     bind_r (ok_or ''missing process UID''
       (find_map (strip_prefix (''Uid:'' @ [CHR 0x09])) (lines status))) (\<lambda>rest.
     bind_r (ok_or ''missing process UID''
       (case split_whitespace rest of [] \<Rightarrow> None | f # _ \<Rightarrow> Some f)) (\<lambda>f.
     bind_r (ok_or ''invalid digit found in string'' (parse_uint (2 ^ 32) f)) (\<lambda>n.
     Inr (word_of_nat n))))"

definition authenticate :: "policy \<Rightarrow> peer_credentials \<Rightarrow> proc_reads \<Rightarrow> owner result" where
  "authenticate p peer r =
     bind_r (bind_r (pr_stat_before r) parse_starttime) (\<lambda>starttime.
     bind_r (pr_status r) (\<lambda>status.
     bind_r (status_uid status) (\<lambda>uid.
     bind_r (ensure (uid = peer_uid peer) ''peer process identity changed'') (\<lambda>_.
     bind_r (pr_cgroup r) (\<lambda>cgroup.
     bind_r (cgroup_instance cgroup (garden_units p)) (\<lambda>inst.
     bind_r (bind_r (pr_stat_after r) parse_starttime) (\<lambda>again.
     bind_r (ensure (again = starttime) ''peer process identity changed'') (\<lambda>_.
     Inr \<lparr>o_instance = inst, o_peer = peer, o_starttime = starttime\<rparr>))))))))"

section \<open>What an authenticated owner is\<close>

text \<open>The unit a single line of the cgroup file names, and the shape of such a line.\<close>

definition line_unit :: "string list \<Rightarrow> string \<Rightarrow> string option" where
  "line_unit units line =
     (case splitn3 CHR '':'' line of
        [hierarchy, controllers, path] \<Rightarrow>
          if hierarchy = ''0'' \<and> controllers = [] then system_slice_unit path units else None
      | _ \<Rightarrow> None)"

lemma splitn3_three: "splitn3 c s = [a, b, r] \<Longrightarrow> s = a @ c # b @ c # r"
  by (auto simp: splitn3_def split_once_Some_iff split: option.splits)

lemma split_char_Cons3:
  assumes "split_char c s = x # y # u # rest"
  shows "\<exists>t. s = x @ c # y @ c # u @ t \<and> (t = [] \<or> hd t = c)"
proof -
  have "s = join_with [c] (x # y # u # rest)" by (metis assms join_split_char)
  then show ?thesis by (cases rest) auto
qed

lemma line_unit_shape:
  assumes "line_unit units line = Some u"
  shows "u \<in> set units
    \<and> (\<exists>t. line = ''0::/system.slice/'' @ u @ t \<and> (t = [] \<or> hd t = CHR ''/''))"
proof -
  obtain path where three: "splitn3 CHR '':'' line = [''0'', [], path]"
    and unit: "system_slice_unit path units = Some u"
    using assms by (auto simp: line_unit_def split: list.splits if_splits)
  from unit obtain rest where parts: "split_char CHR ''/'' path = [] # ''system.slice'' # u # rest"
    and u: "u \<in> set units"
    by (auto simp: system_slice_unit_def split: list.splits if_splits)
  obtain t where "path = ''/system.slice/'' @ u @ t" and "t = [] \<or> hd t = CHR ''/''"
    using split_char_Cons3 [OF parts] by auto
  with splitn3_three [OF three] u show ?thesis by auto
qed

lemma cgroup_lines_units:
  assumes "cgroup_lines units ls found = Inr r"
  shows "case_option [] (\<lambda>u. [u]) r
    = case_option [] (\<lambda>u. [u]) found @ List.map_filter (line_unit units) ls"
  using assms
proof (induction units ls found rule: cgroup_lines.induct)
  case (1 units found)
  then show ?case by (simp add: List.map_filter_simps)
next
  case (2 units line rest found)
  obtain h c p where three: "splitn3 CHR '':'' line = [h, c, p]"
    using "2.prems" by (auto split: list.splits)
  show ?case
  proof (cases "h \<noteq> ''0'' \<or> c \<noteq> []")
    case True
    with "2.IH"(1) [OF three refl refl refl] "2.prems" three show ?thesis
      by (auto simp: List.map_filter_simps line_unit_def)
  next
    case False
    show ?thesis
    proof (cases "system_slice_unit p units")
      case None
      with False "2.IH"(2) [OF three refl refl refl] "2.prems" three show ?thesis
        by (auto simp: List.map_filter_simps line_unit_def)
    next
      case (Some u)
      with False "2.IH"(3) [OF three refl refl refl] "2.prems" three show ?thesis
        by (auto simp: List.map_filter_simps line_unit_def result_simps)
    qed
  qed
qed

lemma cgroup_instance_unit:
  assumes "cgroup_instance cgroup units = Inr u"
  shows "List.map_filter (line_unit units) (lines cgroup) = [u]"
  using assms cgroup_lines_units [of units "lines cgroup" None]
  by (auto simp: cgroup_instance_def result_simps)

text \<open>A list whose optional images collapse to a single value has exactly one such element.\<close>

lemma map_filter_single:
  assumes "List.map_filter f ls = [u]"
  shows "\<exists>xs y zs. ls = xs @ y # zs \<and> f y = Some u \<and> (\<forall>x \<in> set xs \<union> set zs. f x = None)"
  using assms
proof (induction ls)
  case Nil
  then show ?case by (simp add: List.map_filter_simps)
next
  case (Cons l ls)
  show ?case
  proof (cases "f l")
    case None
    with Cons obtain xs y zs where "ls = xs @ y # zs" "f y = Some u"
      "\<forall>x \<in> set xs \<union> set zs. f x = None"
      by (auto simp: List.map_filter_simps)
    with None show ?thesis by (intro exI [of _ "l # xs"]) auto
  next
    case (Some v)
    with Cons.prems have v: "v = u" and none: "List.map_filter f ls = []"
      by (auto simp: List.map_filter_simps)
    have "f x = None" if "x \<in> set ls" for x
      using none that by (induction ls) (auto simp: List.map_filter_simps split: option.splits)
    with Some v show ?thesis by (intro exI [of _ "[]"]) auto
  qed
qed

text \<open>A cgroup file is attributed to a garden unit only if exactly one of its lines names a
  configured unit, and that line is the unified-hierarchy line \<open>0::/system.slice/<unit>\<close>, either
  as a whole or continued below the unit by a slash.  A user session, another slice, a legacy
  controller hierarchy or a longer unit name that merely starts with a configured one is never
  accepted.\<close>

theorem cgroup_instance_sound:
  assumes "cgroup_instance cgroup units = Inr u"
  shows "u \<in> set units
    \<and> (\<exists>!i. i < length (lines cgroup) \<and> line_unit units (lines cgroup ! i) \<noteq> None)
    \<and> (\<exists>line \<in> set (lines cgroup). \<exists>t.
          line = ''0::/system.slice/'' @ u @ t \<and> (t = [] \<or> hd t = CHR ''/''))"
proof -
  obtain xs y zs where ls: "lines cgroup = xs @ y # zs" and y: "line_unit units y = Some u"
    and others: "\<forall>x \<in> set xs \<union> set zs. line_unit units x = None"
    using map_filter_single [OF cgroup_instance_unit [OF assms]] by blast
  have "i = length xs" if "i < length (lines cgroup)" "line_unit units (lines cgroup ! i) \<noteq> None" for i
  proof (rule ccontr)
    assume "i \<noteq> length xs"
    then have "lines cgroup ! i \<in> set xs \<union> set zs"
      using that(1) by (auto simp: ls nth_append nth_Cons split: nat.splits)
    with others have "line_unit units (lines cgroup ! i) = None" by (rule bspec)
    with that(2) show False by simp
  qed
  moreover have "length xs < length (lines cgroup)" "line_unit units (lines cgroup ! length xs) \<noteq> None"
    using y by (simp_all add: ls)
  ultimately have "\<exists>!i. i < length (lines cgroup) \<and> line_unit units (lines cgroup ! i) \<noteq> None"
    by blast
  moreover have "y \<in> set (lines cgroup)" by (simp add: ls)
  ultimately show ?thesis using line_unit_shape [OF y] by blast
qed

definition example_cgroup :: string where
  "example_cgroup = ''1:name=systemd:/'' @ [char_nl] @ ''0::/system.slice/sower-garden.service/vmm'' @ [char_nl]"

lemma example_cgroup_instance:
  "cgroup_instance example_cgroup [''sower-garden.service''] = Inr ''sower-garden.service''"
  by (simp add: cgroup_instance_def example_cgroup_def lines_def chop_cr_def splitn3_def
      system_slice_unit_def Let_def)

theorem cgroup_instance_sound_witness:
  "cgroup_instance example_cgroup [''sower-garden.service''] = Inr ''sower-garden.service''
   \<and> (\<exists>line \<in> set (lines example_cgroup). \<exists>t. line = ''0::/system.slice/'' @ ''sower-garden.service'' @ t)"
  using example_cgroup_instance cgroup_instance_sound [OF example_cgroup_instance] by blast


definition example_stat :: string where
  "example_stat = ''123 (so) me) S 1 1 1 0 -1 4194560 1 0 0 0 0 0 0 0 20 0 1 0 456 1 1''"

definition example_reads :: proc_reads where
  "example_reads = \<lparr>pr_stat_before = Inr example_stat,
     pr_status = Inr (''Name:'' @ [CHR 0x09] @ ''x'' @ [char_nl] @ ''Uid:'' @ [CHR 0x09] @ ''1000'' @ [CHR 0x09] @ ''0''),
     pr_cgroup = Inr example_cgroup, pr_stat_after = Inr example_stat\<rparr>"

definition example_peer :: peer_credentials where
  "example_peer = \<lparr>peer_pid = 123, peer_uid = 1000, peer_gid = 1000\<rparr>"

definition example_owner :: owner where
  "example_owner = \<lparr>o_instance = ''sower-garden.service'', o_peer = example_peer, o_starttime = 456\<rparr>"

lemma split_whitespace_Nil [text_simps]:
  "dropWhile is_whitespace s = [] \<Longrightarrow> split_whitespace s = []"
  by (subst split_whitespace.simps) simp

lemma split_whitespace_step [text_simps]:
  "dropWhile is_whitespace s = x # xs \<Longrightarrow>
     split_whitespace s = takeWhile (\<lambda>c. \<not> is_whitespace c) (x # xs)
       # split_whitespace (dropWhile (\<lambda>c. \<not> is_whitespace c) (x # xs))"
  by (subst split_whitespace.simps) simp

lemma example_starttime: "parse_starttime example_stat = Inr 456"
  by (simp add: parse_starttime_def example_stat_def rsplit_once_def text_simps is_whitespace_def
      parse_uint_def nat_of_digits_def digit_value_def is_digit_def Let_def)

lemma authenticate_example: "authenticate example_policy example_peer example_reads = Inr example_owner"
  by (simp add: authenticate_def example_reads_def example_starttime status_uid_def lines_def
      chop_cr_def Let_def text_simps is_whitespace_def parse_uint_def nat_of_digits_def
      digit_value_def is_digit_def example_peer_def example_cgroup_instance example_policy_def
      default_garden_units_def example_owner_def)


end
