(* ===== verification/Activation.thy ===== *)
theory Activation
  imports Protocol Effects Utf8 Numbers Lease "HOL-Library.Char_ord" "HOL-Library.List_Lexorder" "HOL-Library.Multiset"
begin

text \<open>
  \<open>src/src/commands/activator/\<close>: \<open>activate.rs\<close> (running the commands of an activation and
  streaming their output), \<open>services.rs\<close> (the profile of system services and its \<open>current\<close>
  link), \<open>peercred.rs\<close> (who may connect), \<open>log_tee.rs\<close> (log lines copied to the client) and the
  argument parsing of \<open>mod.rs\<close>.
\<close>

section \<open>Peer authorization\<close>

definition is_authorized :: "peer_credentials \<Rightarrow> u32 list \<Rightarrow> bool" where
  "is_authorized creds allowed = (peer_uid creds = 0 \<or> peer_gid creds \<in> set allowed)"

text \<open>
  The answer of \<open>getsockopt(SO_PEERGROUPS)\<close>: success or an error number, the length in bytes and
  the groups in the buffer.  The kernel is asked with the number of the call and the size
  of the buffer.
\<close>

record sockopt_reply =
  so_ok :: bool
  so_errno :: int
  so_length :: nat
  so_groups :: "u32 list"

fun peer_groups :: "(nat \<Rightarrow> nat \<Rightarrow> sockopt_reply) \<Rightarrow> u32 list \<Rightarrow> nat \<Rightarrow> nat \<Rightarrow> bool result" where
  "peer_groups query allowed 0 room = Inl (Msg ''kernel peer group snapshot changed unexpectedly'')"
| "peer_groups query allowed (Suc tries) room =
     (let r = query tries room; bytes = so_length r in
      bind_r (ensure (4 dvd bytes \<and> bytes \<le> 65536 * 4) ''invalid kernel peer group length'') (\<lambda>_.
      if so_ok r then
        bind_r (ensure (bytes \<le> room * 4) ''kernel peer group buffer overflow'') (\<lambda>_.
        Inr (list_ex (\<lambda>gid. gid \<in> set allowed) (take (bytes div 4) (so_groups r))))
      else if so_errno r \<noteq> 34 \<or> bytes \<le> room * 4 then
        Inl (Context ''getsockopt SO_PEERGROUPS'' (Msg ''os error''))
      else peer_groups query allowed tries (bytes div 4)))"

definition is_authorized_socket ::
  "(nat \<Rightarrow> nat \<Rightarrow> sockopt_reply) \<Rightarrow> peer_credentials \<Rightarrow> u32 list \<Rightarrow> bool result" where
  "is_authorized_socket query creds allowed =
     (if is_authorized creds allowed then Inr True else peer_groups query allowed 2 32)"

text \<open>\<open>parse_gids\<close> (\<open>mod.rs\<close>).\<close>

definition parse_gid :: "string \<Rightarrow> u32 result" where
  "parse_gid p = with_context (''invalid GID: '' @ p)
     (bind_r (ok_or ''invalid digit found in string'' (parse_uint (2 ^ 32) p)) (\<lambda>n. Inr (word_of_nat n)))"

definition parse_gids :: "string \<Rightarrow> u32 list result" where
  "parse_gids s = collect_r parse_gid (filter (\<lambda>p. p \<noteq> []) (map trim_text (split_char CHR '','' s)))"

section \<open>Log lines for the client\<close>

record visitor =
  vi_message :: string
  vi_fields :: string

definition record_str :: "visitor \<Rightarrow> string \<times> string \<Rightarrow> visitor" where
  "record_str v f = (if fst f = ''message'' then v\<lparr>vi_message := snd f\<rparr>
     else v\<lparr>vi_fields := vi_fields v @ '' '' @ fst f @ ''='' @ snd f\<rparr>)"

text \<open>
  \<open>on_event\<close>: nothing without a callback; an event of level \<open>ERROR\<close> is an error line.  The fields of an event
  are given with the text they are displayed as.
\<close>

datatype level = DEBUG | INFO | WARN | ERROR

definition on_event :: "bool \<Rightarrow> bool \<Rightarrow> string \<Rightarrow> (string \<times> string) list \<Rightarrow> (string \<times> bool) option" where
  "on_event callback_set level_error now fs =
     (if \<not> callback_set then None
      else (let v = foldl record_str \<lparr>vi_message = [], vi_fields = []\<rparr> fs in
        Some (now @ '' [activator] '' @ vi_message v @ vi_fields v, level_error)))"

section \<open>Running commands\<close>

text \<open>
  The commands, the clock, the random schedule of the two output pipes and the errors of file
  operations come from outside: \<open>env\<close> answers the \<open>n\<close>-th command, time stamp and file operation.
  \<open>cm_order\<close> says in which order the lines of the pipes arrive; \<open>temp_prefix\<close> is the path of the
  temporary directory, the program's name and the process id.  \<open>logs\<close> is the subscriber's filter for events of a
  module; \<open>debug_command\<close> prints a command, and \<open>field_name\<close> is how \<open>tracing\<close> spells a
  field, which matters for the raw identifier \<open>r#type\<close>.
\<close>

record command_run =
  cm_spawned :: bool
  cm_waited :: bool
  cm_stdout :: string
  cm_stderr :: string
  cm_order :: "bool list"
  cm_code :: "int option"

datatype tree = File | Unreadable | Dir "(string \<times> tree) list"

record env =
  run_command :: "nat \<Rightarrow> string list \<Rightarrow> command_run"
  now_at :: "nat \<Rightarrow> string"
  fs_fails :: "nat \<Rightarrow> bool"
  source_tree :: "string \<Rightarrow> tree"
  digest :: "string \<Rightarrow> nat list"
  temp_prefix :: string
  logs :: "string \<Rightarrow> level \<Rightarrow> bool"
  debug_command :: "string list \<Rightarrow> string"
  field_name :: "string \<Rightarrow> string"

text \<open>
  The state: the lines given to the callback so far, the commands that were run, the
  links \<open>current\<close> and \<open>current.new\<close> of the services directory, the temporary directories that exist, and
  the number of times the environment was asked.
\<close>

record activator =
  ac_lines :: "(string \<times> bool) list"
  ac_commands :: "string list list"
  ac_current :: "string option"
  ac_staged :: "string option"
  ac_temps :: "string list"
  ac_asked :: nat

type_synonym 'a activation = "(activator, 'a) act"

definition tick :: "nat activation" where
  "tick = (\<lambda>a. (Inr (ac_asked a), a\<lparr>ac_asked := Suc (ac_asked a)\<rparr>))"

definition callback :: "string \<Rightarrow> bool \<Rightarrow> unit activation" where
  "callback line is_error = (\<lambda>a. (Inr (), a\<lparr>ac_lines := ac_lines a @ [(line, is_error)]\<rparr>))"

definition rfc3339_now :: "env \<Rightarrow> string activation" where
  "rfc3339_now E = seq tick (\<lambda>n. ret (now_at E n))"

definition fs_op :: "env \<Rightarrow> string \<Rightarrow> (activator \<Rightarrow> activator) \<Rightarrow> unit activation" where
  "fs_op E msg f = seq tick (\<lambda>n a.
     if fs_fails E n then (Inl (Context msg (Msg ''os error'')), a) else (Inr (), f a))"

text \<open>A \<open>tracing\<close> event while the callback is in its slot.\<close>

definition emit :: "env \<Rightarrow> string \<Rightarrow> level \<Rightarrow> (string \<times> string) list \<Rightarrow> unit activation" where
  "emit E module lv fs =
     (if \<not> logs E module lv then ret ()
      else
        seq (rfc3339_now E) (\<lambda>now.
        case on_event True (lv = ERROR) now fs of
          None \<Rightarrow> ret ()
        | Some (line, is_error) \<Rightarrow> callback line is_error))"

text \<open>\<open>pump\<close>: the lines of one pipe up to the first that is not UTF-8.\<close>

definition pump :: "string \<Rightarrow> string list" where
  "pump s = takeWhile is_utf8 (lines s)"

fun interleave :: "bool list \<Rightarrow> 'a list \<Rightarrow> 'a list \<Rightarrow> 'a list" where
  "interleave bs [] ys = ys"
| "interleave bs xs [] = xs"
| "interleave [] (x # xs) ys = x # interleave [] xs ys"
| "interleave (True # bs) (x # xs) ys = x # interleave bs xs ys"
| "interleave (False # bs) xs (y # ys) = y # interleave bs xs ys"

definition arrivals :: "command_run \<Rightarrow> (string \<times> bool) list" where
  "arrivals r = interleave (cm_order r) (map (\<lambda>l. (l, False)) (pump (cm_stdout r)))
     (map (\<lambda>l. (l, True)) (pump (cm_stderr r)))"

fun forward_lines :: "env \<Rightarrow> (string \<times> bool) list \<Rightarrow> unit activation" where
  "forward_lines E [] = ret ()"
| "forward_lines E ((line, err) # rest) =
     seq (rfc3339_now E) (\<lambda>now.
     seq (callback (now @ '' '' @ line) err) (\<lambda>_.
     forward_lines E rest))"

definition log_command :: "string list \<Rightarrow> unit activation" where
  "log_command cmd = (\<lambda>a. (Inr (), a\<lparr>ac_commands := ac_commands a @ [cmd]\<rparr>))"

definition stream :: "env \<Rightarrow> string list \<Rightarrow> int activation" where
  "stream E cmd =
     seq (emit E ''activate'' DEBUG [(''message'', ''Running command''), (''cmd'', debug_command E cmd)]) (\<lambda>_.
     seq tick (\<lambda>n.
     seq (lift_r (with_context ''spawn child'' (ensure (cm_spawned (run_command E n cmd)) ''os error''))) (\<lambda>_.
     seq (log_command cmd) (\<lambda>_.
     seq (forward_lines E (arrivals (run_command E n cmd))) (\<lambda>_.
     seq (lift_r (with_context ''wait'' (ensure (cm_waited (run_command E n cmd)) ''os error''))) (\<lambda>_.
     ret (case cm_code (run_command E n cmd) of Some c \<Rightarrow> c | None \<Rightarrow> 1)))))))"

definition reboot_cmd :: "string list" where
  "reboot_cmd = [''systemctl'', ''reboot'']"

definition home_manager_cmd :: "string \<Rightarrow> string list" where
  "home_manager_cmd p = [p @ ''/activate'']"

definition nixos_profile_cmd :: "string \<Rightarrow> string list" where
  "nixos_profile_cmd p = [''nix-env'', ''--set'', ''--profile'', ''/nix/var/nix/profiles/system'', p]"

definition nixos_switch_cmd :: "string \<Rightarrow> string \<Rightarrow> string list" where
  "nixos_switch_cmd p mode = [p @ ''/bin/switch-to-configuration'', mode]"

section \<open>System services\<close>

definition STATE_DIR :: string where
  "STATE_DIR = ''/var/lib/sower-activator/services''"

definition hex_encode :: "nat list \<Rightarrow> string" where
  "hex_encode bytes = concat (map (hex_pad 2) bytes)"

definition hashed_text :: "string list \<Rightarrow> string" where
  "hashed_text paths = concat (map (\<lambda>p. p @ [char_nl]) (sort paths))"

definition content_hash :: "env \<Rightarrow> seed_ref list \<Rightarrow> string" where
  "content_hash E seeds = hex_encode (digest E (hashed_text (map sr_path seeds)))"

definition current_link :: string where
  "current_link = STATE_DIR @ ''/current''"

definition resolve_current :: "env \<Rightarrow> string option activation" where
  "resolve_current E =
     seq (fs_op E (''read current symlink '' @ current_link) id) (\<lambda>_.
     gets (\<lambda>a. map_option (\<lambda>t. if starts_with ''/'' t then t else STATE_DIR @ ''/'' @ t) (ac_current a)))"

definition units_of :: "string \<Rightarrow> string" where
  "units_of p = path_join (path_join p ''systemd'') ''system''"

text \<open>\<open>EmptyDir\<close>: a temporary directory that is removed when its guard is dropped, whether or not that works.\<close>

definition new_empty_dir :: "env \<Rightarrow> string activation" where
  "new_empty_dir E =
     seq (rfc3339_now E) (\<lambda>now.
     let dir = temp_prefix E @ map (\<lambda>c. if c = CHR '':'' then CHR ''-'' else c) now in
     seq (fs_op E (''create temp dir '' @ dir) (\<lambda>a. a\<lparr>ac_temps := ac_temps a @ [dir]\<rparr>)) (\<lambda>_.
     ret dir))"

definition drop_guard :: "env \<Rightarrow> string option \<Rightarrow> unit activation" where
  "drop_guard E guard =
     (case guard of
        None \<Rightarrow> ret ()
      | Some dir \<Rightarrow>
          seq (attempt (fs_op E ''remove temp dir'' (\<lambda>a. a\<lparr>ac_temps := removeAll dir (ac_temps a)\<rparr>))) (\<lambda>_.
          ret ()))"

definition old_units_path :: "env \<Rightarrow> string option \<Rightarrow> (string \<times> string option) activation" where
  "old_units_path E old =
     (case old of
        Some p \<Rightarrow> ret (units_of p, None)
      | None \<Rightarrow>
          seq (new_empty_dir E) (\<lambda>dir.
          seq (attempt (fs_op E (''create empty old units '' @ units_of dir) id)) (\<lambda>r.
          case r of
            Inl e \<Rightarrow> seq (drop_guard E (Some dir)) (\<lambda>_. lift_r (Inl e))
          | Inr _ \<Rightarrow> ret (units_of dir, Some dir))))"

text \<open>
  \<open>warn_collisions\<close>: a depth-first walk with an explicit stack.  A file whose path below the source
  was seen in an earlier seed is reported; an unreadable directory is skipped.
\<close>

fun push_entries :: "string list \<Rightarrow> (string \<times> tree) list \<Rightarrow> string list list \<times> (string list \<times> tree) list" where
  "push_entries at [] = ([], [])"
| "push_entries at ((name, t) # rest) =
     (let (fs, ds) = push_entries at rest in
      case t of File \<Rightarrow> ((at @ [name]) # fs, ds) | _ \<Rightarrow> (fs, (at @ [name], t) # ds))"

fun report :: "string list list \<Rightarrow> string list list \<Rightarrow> string list list \<times> string list list" where
  "report seen [] = ([], seen)"
| "report seen (f # fs) =
     (let (ws, seen') = report (if f \<in> set seen then seen else seen @ [f]) fs in
      (if f \<in> set seen then f # ws else ws, seen'))"

lemma push_entries_size:
  "sum_list (map (\<lambda>d. Suc (size (snd d))) (snd (push_entries at es))) \<le> size_list (size_prod (\<lambda>_. 0) size) es"
  by (induction es rule: push_entries.induct) (auto simp: Let_def split: prod.splits tree.splits)

function walk :: "(string list \<times> tree) list \<Rightarrow> string list list \<Rightarrow> string list list \<times> string list list" where
  "walk [] seen = ([], seen)"
| "walk ((at, Dir es) # stack) seen =
     (let (fs, ds) = push_entries at es;
          (ws, seen') = report seen fs;
          (ws', seen'') = walk (rev ds @ stack) seen'
      in (ws @ ws', seen''))"
| "walk ((at, File) # stack) seen = walk stack seen"
| "walk ((at, Unreadable) # stack) seen = walk stack seen"
  by pat_completeness auto
termination
proof (relation "measure (\<lambda>(stack, _). sum_list (map (\<lambda>d. Suc (size (snd d))) stack))", goal_cases)
  case (2 at es stack seen x fs ds y ws seen')
  have "sum_list (map (\<lambda>d. Suc (size (snd d))) ds) \<le> size_list (size_prod (\<lambda>_. 0) size) es"
    using push_entries_size [of at es] 2(1,2) by (metis snd_conv)
  then show ?case by (simp add: rev_map [symmetric] sum_list_rev)
qed auto

fun warn_each :: "env \<Rightarrow> string \<Rightarrow> string list list \<Rightarrow> unit activation" where
  "warn_each E seed [] = ret ()"
| "warn_each E seed (f # fs) =
     seq (rfc3339_now E) (\<lambda>now.
     seq (callback (now @ '' [activator] WARN unit collision: seed='' @ seed @ '' file='' @ join_with ''/'' f) False) (\<lambda>_.
     seq (emit E ''services'' WARN [(''message'', ''unit collision''), (''seed'', seed), (''file'', join_with ''/'' f)]) (\<lambda>_.
     warn_each E seed fs)))"

definition warn_collisions :: "env \<Rightarrow> string \<Rightarrow> string \<Rightarrow> string list list \<Rightarrow> string list list activation" where
  "warn_collisions E seed source seen =
     (let (ws, seen') = walk [([], source_tree E source)] seen in
      seq (warn_each E seed ws) (\<lambda>_. ret seen'))"

definition seed_source :: "string \<Rightarrow> string" where
  "seed_source p = path_join (path_join p ''.sower'') ''systemd''"

fun copy_seeds_from :: "env \<Rightarrow> seed_ref list \<Rightarrow> string \<Rightarrow> string list list \<Rightarrow> unit activation" where
  "copy_seeds_from E [] profile seen = ret ()"
| "copy_seeds_from E (seed # seeds) profile seen =
     (let source = seed_source (sr_path seed) in
      seq (warn_collisions E (sr_name seed) source seen) (\<lambda>seen'.
      seq (stream E [''cp'', ''--recursive'', ''--no-clobber'', source @ ''/'', profile]) (\<lambda>exit.
      seq (check (exit = 0) (''cp failed for seed '' @ sr_name seed @ '' with exit '' @ show_int exit)) (\<lambda>_.
      copy_seeds_from E seeds profile seen'))))"

definition copy_seeds :: "env \<Rightarrow> seed_ref list \<Rightarrow> string \<Rightarrow> unit activation" where
  "copy_seeds E seeds profile = copy_seeds_from E seeds profile []"

definition sd_switch_cmd :: "string \<Rightarrow> string \<Rightarrow> string list" where
  "sd_switch_cmd old_units new_units =
     [''sd-switch'', ''--verbose'', ''--system'', ''--old-units'', old_units, ''--new-units'', new_units]"

text \<open>The link is replaced by renaming a new one over it; an error of the first removal is ignored.\<close>

definition staged_link :: string where
  "staged_link = STATE_DIR @ ''/current.new''"

definition update_current :: "env \<Rightarrow> string \<Rightarrow> unit activation" where
  "update_current E target =
     seq (fs_op E (''create state dir '' @ STATE_DIR) id) (\<lambda>_.
     seq (attempt (fs_op E ''remove'' (\<lambda>a. a\<lparr>ac_staged := None\<rparr>))) (\<lambda>_.
     seq (gets (\<lambda>a. ac_staged a = None)) (\<lambda>free.
     seq (lift_r (with_context (''symlink '' @ staged_link @ '' -> '' @ target) (ensure free ''os error''))) (\<lambda>_.
     seq (fs_op E (''symlink '' @ staged_link @ '' -> '' @ target) (\<lambda>a. a\<lparr>ac_staged := Some target\<rparr>)) (\<lambda>_.
     fs_op E (''rename '' @ staged_link @ '' -> '' @ current_link)
       (\<lambda>a. a\<lparr>ac_current := ac_staged a, ac_staged := None\<rparr>))))))"

text \<open>The end of \<open>run\<close>; \<open>guarded\<close> drops the guard on every way out of it.\<close>

definition guarded :: "'a activation \<Rightarrow> unit activation \<Rightarrow> 'a activation" where
  "guarded m release_guard = seq (attempt m) (\<lambda>r. seq release_guard (\<lambda>_. lift_r r))"

definition switch_units :: "env \<Rightarrow> string \<Rightarrow> string \<Rightarrow> string \<Rightarrow> int activation" where
  "switch_units E old_units new_units profile =
     seq (stream E (sd_switch_cmd old_units new_units)) (\<lambda>exit.
     if exit \<noteq> 0 then ret exit
     else
       seq (update_current E profile) (\<lambda>_.
       ret 0))"

definition already_activated :: "env \<Rightarrow> string \<Rightarrow> int activation" where
  "already_activated E hash =
     seq (emit E ''services'' INFO [(''message'', ''Services already activated''), (''hash'', hash)]) (\<lambda>_.
     seq (rfc3339_now E) (\<lambda>now.
     seq (callback (now @ '' services already activated (hash='' @ hash @ '')'') False) (\<lambda>_.
     ret 0)))"

definition switch_profile :: "env \<Rightarrow> seed_ref list \<Rightarrow> string \<Rightarrow> string option \<Rightarrow> int activation" where
  "switch_profile E seeds profile old =
     seq (fs_op E (''create profile dir '' @ units_of profile) id) (\<lambda>_.
     seq (copy_seeds E seeds profile) (\<lambda>_.
     seq (old_units_path E old) (\<lambda>(old_units, guard).
     guarded (switch_units E old_units (units_of profile) profile) (drop_guard E guard))))"

definition services_run :: "env \<Rightarrow> seed_ref list \<Rightarrow> int activation" where
  "services_run E seeds =
     (let hash = content_hash E seeds; profile = STATE_DIR @ ''/'' @ hash in
      seq (resolve_current E) (\<lambda>old.
      if (case old of None \<Rightarrow> False | Some p \<Rightarrow> same_path p profile) then already_activated E hash
      else switch_profile E seeds profile old))"

section \<open>Dispatch\<close>

definition activate_run :: "env \<Rightarrow> request \<Rightarrow> int activation" where
  "activate_run E req =
     (if rq_kind req = ''reboot'' then stream E reboot_cmd
      else if rq_kind req = ''home-manager'' then stream E (home_manager_cmd (rq_path req))
      else if rq_kind req = ''nixos'' then
        seq (stream E (nixos_profile_cmd (rq_path req))) (\<lambda>exit.
        if exit \<noteq> 0 then ret exit
        else stream E (nixos_switch_cmd (rq_path req) (rq_mode req)))
      else if rq_kind req = ''services'' then services_run E (rq_seeds req)
      else lift_r (Inl (Msg (''unsupported seed type: '' @ rq_kind req))))"

section \<open>Properties\<close>

subsection \<open>Who may connect\<close>

lemma peer_groups_sound:
  assumes "peer_groups query allowed tries room = Inr True"
  shows "\<exists>i < tries. \<exists>r. \<exists>gid \<in> set (so_groups (query i r)). so_ok (query i r) \<and> gid \<in> set allowed"
  using assms
proof (induction tries arbitrary: room)
  case 0
  then show ?case by simp
next
  case (Suc tries)
  show ?case
  proof (cases "so_ok (query tries room)")
    case True
    with Suc.prems have "list_ex (\<lambda>gid. gid \<in> set allowed) (take (so_length (query tries room) div 4) (so_groups (query tries room)))"
      by (auto simp: Let_def result_simps)
    then show ?thesis using True by (auto simp: list_ex_iff dest!: in_set_takeD)
  next
    case False
    with Suc.prems have "peer_groups query allowed tries (so_length (query tries room) div 4) = Inr True"
      by (auto simp: Let_def result_simps split: if_splits)
    from Suc.IH [OF this] show ?thesis by (meson less_SucI)
  qed
qed

text \<open>A connection is authorized for network leases only if the kernel vouches for it: the peer is
  root, its primary group is allowed, or one of the groups in one successful answer of the kernel
  about this socket (at most two are asked for) is allowed.\<close>

theorem authorized_socket_sound:
  assumes "is_authorized_socket query creds allowed = Inr True"
  shows "peer_uid creds = 0 \<or> peer_gid creds \<in> set allowed
    \<or> (\<exists>i < 2. \<exists>room. so_ok (query i room) \<and> set (so_groups (query i room)) \<inter> set allowed \<noteq> {})"
proof (cases "is_authorized creds allowed")
  case True
  then show ?thesis by (auto simp: is_authorized_def)
next
  case False
  with assms have "peer_groups query allowed 2 32 = Inr True" by (simp add: is_authorized_socket_def)
  from peer_groups_sound [OF this] show ?thesis by blast
qed

definition two_snapshots :: "nat \<Rightarrow> nat \<Rightarrow> sockopt_reply" where
  "two_snapshots tries room =
     (if room < 40 then \<lparr>so_ok = False, so_errno = 34, so_length = 160, so_groups = []\<rparr>
      else \<lparr>so_ok = True, so_errno = 0, so_length = 8, so_groups = [7, 993]\<rparr>)"

theorem authorized_socket_sound_witness:
  "is_authorized_socket two_snapshots \<lparr>peer_pid = 9, peer_uid = 1000, peer_gid = 100\<rparr> [993] = Inr True
   \<and> (\<exists>i < 2. \<exists>room. so_ok (two_snapshots i room) \<and> set (so_groups (two_snapshots i room)) \<inter> set [993 :: u32] \<noteq> {})"
proof -
  have ok: "is_authorized_socket two_snapshots \<lparr>peer_pid = 9, peer_uid = 1000, peer_gid = 100\<rparr> [993] = Inr True"
    by (simp add: is_authorized_socket_def is_authorized_def two_snapshots_def numeral_2_eq_2 Let_def)
  show ?thesis using ok authorized_socket_sound [OF ok] by auto
qed

lemma trim_digits: "list_all is_digit s \<Longrightarrow> trim_text s = s"
  by (rule trim_text_id) (auto simp: list_all_iff is_digit_def)

text \<open>The list of group ids on the command line is read back exactly: for every list of 32-bit ids,
  \<open>parse_gids\<close> of their decimal spelling joined by commas gives the list.\<close>

theorem parse_gids_roundtrip:
  "parse_gids (join_with '','' (map (\<lambda>g. show_nat (unat g)) gids)) = Inr gids"
proof (cases "gids = []")
  case True
  then show ?thesis by (simp add: parse_gids_def)
next
  case False
  let ?ps = "map (\<lambda>g. show_nat (unat g)) gids"
  have comma: "CHR '','' \<notin> set (show_nat n)" for n
    using show_nat_digit [of "CHR '',''" n] by (auto simp: is_digit_def)
  have "split_char CHR '','' (join_with [CHR '',''] ?ps) = ?ps"
    by (rule split_char_join) (use False comma in auto)
  moreover have "map trim_text ?ps = ?ps" by (simp add: trim_digits [OF show_nat_digits] comp_def)
  moreover have "filter (\<lambda>p. p \<noteq> []) ?ps = ?ps" by (simp add: filter_id_conv)
  moreover have "parse_gid (show_nat (unat g)) = Inr g" for g :: u32
  proof -
    have "unat g < 2 ^ 32" using unsigned_less [of g, where ?'a = nat] by simp
    then show ?thesis by (simp add: parse_gid_def)
  qed
  then have "collect_r parse_gid ?ps = Inr gids" by (induction gids) simp_all
  ultimately show ?thesis by (simp only: parse_gids_def list.map_comp [symmetric])
qed

subsection \<open>Output order\<close>

lemma interleave_filter:
  "(\<And>x. x \<in> set xs \<Longrightarrow> P x) \<Longrightarrow> (\<And>y. y \<in> set ys \<Longrightarrow> \<not> P y) \<Longrightarrow>
    filter P (interleave bs xs ys) = xs \<and> filter (\<lambda>z. \<not> P z) (interleave bs xs ys) = ys"
proof (induction bs xs ys rule: interleave.induct)
  case (1 bs ys)
  then show ?case by (auto simp: filter_id_conv filter_empty_conv)
next
  case (2 bs v va)
  then show ?case by (auto simp: filter_id_conv filter_empty_conv)
qed auto

text \<open>Streaming a command's output neither loses, invents nor reorders lines: whatever the arrival
  order of the two pipes, the lines forwarded as output are the lines of standard output in
  order, and those forwarded as errors the lines of standard error in order.\<close>

theorem arrivals_per_pipe:
  "map fst (filter (\<lambda>x. \<not> snd x) (arrivals r)) = pump (cm_stdout r)
   \<and> map fst (filter snd (arrivals r)) = pump (cm_stderr r)"
proof -
  let ?out = "map (\<lambda>l. (l, False)) (pump (cm_stdout r))" and ?err = "map (\<lambda>l. (l, True)) (pump (cm_stderr r))"
  have "filter (\<lambda>x. \<not> snd x) (arrivals r) = ?out \<and> filter (\<lambda>x. \<not> \<not> snd x) (arrivals r) = ?err"
    unfolding arrivals_def by (rule interleave_filter) auto
  then show ?thesis by (simp add: comp_def)
qed

subsection \<open>The content hash\<close>

lemma join_lines_inj:
  fixes c :: char
  assumes "concat (map (\<lambda>p. p @ [c]) ps) = concat (map (\<lambda>p. p @ [c]) qs)"
    "\<And>p. p \<in> set ps \<union> set qs \<Longrightarrow> c \<notin> set p"
  shows "ps = qs"
  using assms
proof (induction ps arbitrary: qs)
  case Nil
  then show ?case by (cases qs) auto
next
  case (Cons p ps)
  then obtain q qs' where qs: "qs = q # qs'" by (cases qs) auto
  let ?f = "\<lambda>ps. concat (map (\<lambda>p. p @ [c]) ps)"
  have eq: "p @ c # ?f ps = q @ c # ?f qs'" using Cons.prems(1) qs by simp
  have "c \<notin> set p" "c \<notin> set q" using Cons.prems(2) qs by auto
  then have "split_once c (p @ c # ?f ps) = Some (p, ?f ps)" "split_once c (q @ c # ?f qs') = Some (q, ?f qs')"
    by (auto intro!: split_once_append)
  then have "(p, ?f ps) = (q, ?f qs')" unfolding eq by simp
  then have "p = q" "?f ps = ?f qs'" by simp_all
  then show ?case using Cons.IH [of qs'] Cons.prems(2) qs by auto
qed

text \<open>The text whose digest names a services profile identifies the seeds' store paths up to order:
  two lists of paths (which hold no line feed) give the same text exactly when they are
  permutations of each other, so reordering the request cannot cause a second activation and two
  different sets of seeds are never confused before hashing.\<close>

theorem hashed_text_identifies:
  assumes "\<forall>p \<in> set ps \<union> set qs. char_nl \<notin> set p"
  shows "hashed_text ps = hashed_text qs \<longleftrightarrow> mset ps = mset qs"
proof
  assume "hashed_text ps = hashed_text qs"
  then have "sort ps = sort qs"
    unfolding hashed_text_def by (rule join_lines_inj) (use assms in auto)
  then show "mset ps = mset qs" by (metis mset_sort)
next
  assume "mset ps = mset qs"
  then have "sort ps = sort qs" by (metis mset_sort properties_for_sort sorted_sort)
  then show "hashed_text ps = hashed_text qs" by (simp add: hashed_text_def)
qed

theorem hashed_text_identifies_witness:
  "char_nl \<notin> set ''/nix/store/b'' \<and> hashed_text [''/nix/store/b'', ''/nix/store/a''] = hashed_text [''/nix/store/a'', ''/nix/store/b'']"
  using hashed_text_identifies [of "[''/nix/store/b'', ''/nix/store/a'']" "[''/nix/store/a'', ''/nix/store/b'']"]
  by auto

subsection \<open>Collisions\<close>

text \<open>The files of a directory, as paths below it; an unreadable directory shows none.\<close>

fun files_in :: "string list \<Rightarrow> tree \<Rightarrow> string list list" and entry_files :: "string list \<Rightarrow> (string \<times> tree) list \<Rightarrow> string list list" where
  "files_in at (Dir es) = entry_files at es"
| "files_in at Unreadable = []"
| "files_in at File = []"
| "entry_files at [] = []"
| "entry_files at ((name, t) # rest) =
     (case t of File \<Rightarrow> [at @ [name]] | _ \<Rightarrow> files_in (at @ [name]) t) @ entry_files at rest"

abbreviation stack_files :: "(string list \<times> tree) list \<Rightarrow> string list list" where
  "stack_files stack \<equiv> concat (map (\<lambda>(at, t). files_in at t) stack)"

lemma push_entries_files:
  "push_entries at es = (fs, ds) \<Longrightarrow> mset (entry_files at es) = mset (fs @ stack_files ds)"
  by (induction es arbitrary: fs ds rule: push_entries.induct)
    (auto simp: Let_def split: prod.splits tree.splits)

lemma stack_files_rev: "mset (stack_files (rev ds @ stack)) = mset (stack_files ds) + mset (stack_files stack)"
  by (induction ds) auto

lemma report_seen: "distinct fs \<Longrightarrow> report seen fs = (filter (\<lambda>f. f \<in> set seen) fs, seen @ filter (\<lambda>f. f \<notin> set seen) fs)"
proof (induction seen fs rule: report.induct)
  case (2 seen f fs)
  have "f \<notin> set fs" "distinct fs" using 2(2) by auto
  then show ?case using 2(1) by (cases "f \<in> set seen") (auto intro: filter_cong)
qed simp

lemma walk_files:
  "distinct (stack_files stack) \<Longrightarrow> walk stack seen = (ws, seen') \<Longrightarrow>
     set seen' = set seen \<union> set (stack_files stack) \<and> mset ws = filter_mset (\<lambda>f. f \<in> set seen) (mset (stack_files stack))"
proof (induction stack seen arbitrary: ws seen' rule: walk.induct)
  case (2 at es stack seen)
  obtain fs ds where p: "push_entries at es = (fs, ds)" by fastforce
  have m: "mset (stack_files ((at, Dir es) # stack)) = mset fs + mset (stack_files (rev ds @ stack))"
    unfolding stack_files_rev using push_entries_files [OF p] by simp
  then have d: "distinct (fs @ stack_files (rev ds @ stack))"
    using 2(2) by (metis mset_append mset_eq_imp_distinct_iff)
  let ?seen1 = "seen @ filter (\<lambda>f. f \<notin> set seen) fs"
  have r: "report seen fs = (filter (\<lambda>f. f \<in> set seen) fs, ?seen1)" using d by (simp add: report_seen)
  obtain ws2 where w: "walk (rev ds @ stack) ?seen1 = (ws2, seen')" and ws: "ws = filter (\<lambda>f. f \<in> set seen) fs @ ws2"
    using 2(3) by (auto simp: p r Let_def split: prod.splits)
  have IH: "set seen' = set ?seen1 \<union> set (stack_files (rev ds @ stack))"
    "mset ws2 = filter_mset (\<lambda>f. f \<in> set ?seen1) (mset (stack_files (rev ds @ stack)))"
    using 2(1) [OF p [symmetric] refl r [symmetric] refl _ w] d by simp_all
  have "set (stack_files ((at, Dir es) # stack)) = set fs \<union> set (stack_files (rev ds @ stack))"
    using m by (metis set_mset_mset set_mset_union)
  moreover have "filter_mset (\<lambda>f. f \<in> set ?seen1) (mset (stack_files (rev ds @ stack)))
      = filter_mset (\<lambda>f. f \<in> set seen) (mset (stack_files (rev ds @ stack)))"
  proof (rule filter_mset_cong [OF refl])
    have "set fs \<inter> set (stack_files (rev ds @ stack)) = {}" using d by (simp only: distinct_append)
    then show "(f \<in> set ?seen1) = (f \<in> set seen)" if "f \<in># mset (stack_files (rev ds @ stack))" for f
      using that by (simp only: set_mset_mset) (simp only: set_append set_filter, blast)
  qed
  ultimately show ?case using IH ws m by auto
qed auto

text \<open>The collision warnings are exact: for a source tree whose file paths are distinct (as they are in
  a directory), the walk warns once about every file that an earlier seed already had and
  about no other file, and afterwards remembers exactly the files seen so far.\<close>

theorem walk_reports_collisions:
  assumes "distinct (files_in [] t)" "walk [([], t)] seen = (ws, seen')"
  shows "mset ws = filter_mset (\<lambda>f. f \<in> set seen) (mset (files_in [] t)) \<and> set seen' = set seen \<union> set (files_in [] t)"
  using walk_files [of "[([], t)]" seen ws seen'] assms by simp

theorem walk_reports_collisions_witness:
  "let t = Dir [(''a'', Dir [(''x'', File)]), (''b'', File)] in
     distinct (files_in [] t) \<and> walk [([], t)] [[''b'']] = ([[''b'']], [[''b''], [''a'', ''x'']])
     \<and> mset [[''b'']] = filter_mset (\<lambda>f. f \<in> set [[''b'']]) (mset (files_in [] t))"
proof -
  let ?t = "Dir [(''a'', Dir [(''x'', File)]), (''b'', File)]"
  have w: "walk [([], ?t)] [[''b'']] = ([[''b'']], [[''b''], [''a'', ''x'']])" by simp
  have d: "distinct (files_in [] ?t)" by simp
  show ?thesis using w d walk_reports_collisions [OF d w] by (simp only: Let_def)
qed

subsection \<open>The link of the active profile\<close>

text \<open>A step that asking for the time, calling the callback and running a command of \<open>C\<close> make.\<close>

locale activation_step = step_preorder R for R :: "activator \<Rightarrow> activator \<Rightarrow> bool" +
  fixes C :: "string list set"
  assumes tick_moves: "moves R tick"
    and callback_moves: "moves R (callback line is_error)"
    and command_moves: "cmd \<in> C \<Longrightarrow> moves R (log_command cmd)"
begin

lemma now_moves: "moves R (rfc3339_now E)"
  unfolding rfc3339_now_def by (intro moves_rules tick_moves)

lemma emit_moves: "moves R (emit E module lv fs)"
  unfolding emit_def by (intro moves_rules now_moves) (auto intro!: moves_rules callback_moves split: prod.split)

lemma fs_moves: "(\<And>a. R a (f a)) \<Longrightarrow> moves R (fs_op E msg f)"
  unfolding fs_op_def by (intro seq_moves tick_moves) (auto simp: moves_def intro: step_refl)

lemma forward_moves: "moves R (forward_lines E ls)"
proof (induction E ls rule: forward_lines.induct)
  case (1 E)
  then show ?case unfolding forward_lines.simps by (rule ret_moves)
next
  case (2 E line err rest)
  then show ?case unfolding forward_lines.simps by (intro moves_rules now_moves callback_moves)
qed

lemma stream_moves: "cmd \<in> C \<Longrightarrow> moves R (stream E cmd)"
  unfolding stream_def by (intro moves_rules emit_moves tick_moves command_moves forward_moves)

lemma warn_moves: "moves R (warn_each E seed fs)"
proof (induction E seed fs rule: warn_each.induct)
  case (1 E seed)
  then show ?case unfolding warn_each.simps by (rule ret_moves)
next
  case (2 E seed f fs)
  then show ?case unfolding warn_each.simps by (intro moves_rules now_moves callback_moves emit_moves)
qed

lemma copy_moves:
  assumes "\<And>s. s \<in> set seeds \<Longrightarrow> [''cp'', ''--recursive'', ''--no-clobber'', seed_source (sr_path s) @ ''/'', profile] \<in> C"
  shows "moves R (copy_seeds_from E seeds profile seen)"
  using assms
proof (induction E seeds profile seen rule: copy_seeds_from.induct)
  case (1 E profile seen)
  then show ?case unfolding copy_seeds_from.simps by (intro ret_moves)
next
  case (2 E seed seeds profile seen)
  have "moves R (warn_collisions E n src known)" for n src known
    unfolding warn_collisions_def Let_def
    by (cases "walk [([], source_tree E src)] known") (auto intro!: moves_rules warn_moves)
  then show ?case
    using 2 unfolding copy_seeds_from.simps Let_def by (intro moves_rules stream_moves) auto
qed

lemma drop_moves: "(\<And>a dir. R a (a\<lparr>ac_temps := removeAll dir (ac_temps a)\<rparr>)) \<Longrightarrow> moves R (drop_guard E guard)"
  unfolding drop_guard_def by (intro moves_rules fs_moves)

lemma guarded_moves: "moves R m \<Longrightarrow> moves R g \<Longrightarrow> moves R (guarded m g)"
  unfolding guarded_def by (intro moves_rules)

lemma old_units_moves:
  assumes "\<And>a ts. R a (a\<lparr>ac_temps := ts\<rparr>)"
  shows "moves R (old_units_path E old)"
  unfolding old_units_path_def new_empty_dir_def Let_def
  by (intro moves_rules now_moves fs_moves drop_moves assms) (simp add: step_refl)

end

definition link_kept :: "activator \<Rightarrow> activator \<Rightarrow> bool" where
  "link_kept a b \<longleftrightarrow> ac_current b = ac_current a \<and> (\<exists>new. ac_commands b = ac_commands a @ new)"

interpretation link_kept: activation_step link_kept UNIV
  by unfold_locales (auto simp: link_kept_def moves_def tick_def callback_def log_command_def)

definition same_commands :: "activator \<Rightarrow> activator \<Rightarrow> bool" where
  "same_commands a b \<longleftrightarrow> ac_commands b = ac_commands a \<and> ac_current b = ac_current a"

interpretation same_commands: activation_step same_commands "{}"
  by unfold_locales (auto simp: same_commands_def moves_def tick_def callback_def)

lemma moves_snd: "moves R m \<Longrightarrow> m a = (r, b) \<Longrightarrow> R a b"
  by (metis moves_def snd_conv)

lemma stream_logs:
  assumes "stream E cmd a = (Inr c, b)"
  shows "ac_commands b = ac_commands a @ [cmd] \<and> ac_current b = ac_current a"
proof -
  from assms obtain n a0 a1 a2 fs where e: "emit E ''activate'' DEBUG fs a = (Inr (), a0)"
    and t: "tick a0 = (Inr n, a1)" and l: "log_command cmd a1 = (Inr (), a2)"
    and f: "forward_lines E (arrivals (run_command E n cmd)) a2 = (Inr (), b)"
    unfolding stream_def seq_eq_Inr by auto
  have "same_commands a a0" by (rule moves_snd [OF same_commands.emit_moves e])
  moreover have "same_commands a2 b" by (rule moves_snd [OF same_commands.forward_moves f])
  ultimately show ?thesis using t l by (auto simp: same_commands_def tick_def log_command_def)
qed

lemma update_current_atomic:
  assumes "update_current E t a = (r, b)"
  shows "ac_commands b = ac_commands a \<and> (ac_current b = ac_current a \<or> ac_current b = Some t \<and> r = Inr ())
    \<and> (r = Inr () \<longrightarrow> ac_current b = Some t)"
  using assms
  by (auto simp: update_current_def fs_op_def tick_def seq_def ensure_def split: if_splits)

definition resolved :: "string option \<Rightarrow> string option" where
  "resolved = map_option (\<lambda>t. if starts_with ''/'' t then t else STATE_DIR @ ''/'' @ t)"

text \<open>What a request for the profile \<open>p\<close> that began in \<open>a\<close> may end with.\<close>

definition settled :: "string \<Rightarrow> activator \<Rightarrow> int result \<Rightarrow> activator \<Rightarrow> bool" where
  "settled p a r b \<longleftrightarrow>
     (ac_current b = ac_current a
      \<or> (ac_current b = Some p \<and> r = Inr 0 \<and> (\<exists>old new. ac_commands b = ac_commands a @ new @ [sd_switch_cmd old (units_of p)])))
     \<and> (r = Inr 0 \<longrightarrow> (\<exists>q. resolved (ac_current b) = Some q \<and> same_path q p))"

lemma settled_same: "settled p a r u \<Longrightarrow> same_commands u v \<Longrightarrow> settled p a r v"
  by (simp add: settled_def same_commands_def)

lemma settled_error: "link_kept a v \<Longrightarrow> settled p a (Inl e) v"
  by (simp add: settled_def link_kept_def)

lemma link_kept_same: "same_commands u v \<Longrightarrow> link_kept u v"
  by (simp add: same_commands_def link_kept_def)

lemma guarded_triple:
  assumes "triple P m Q F" "\<And>x. triple (Q x) g (\<lambda>_. Q x) (\<lambda>_. False)" "triple F g (\<lambda>_. F) (\<lambda>_. False)"
  shows "triple P (guarded m g) Q F"
proof -
  have "triple P (attempt m) (\<lambda>r. case r of Inl e \<Rightarrow> F | Inr x \<Rightarrow> Q x) (\<lambda>_. False)"
    using assms(1) by (fastforce simp: triple_def attempt_def split: prod.splits sum.splits)
  then have "triple P (attempt m) (\<lambda>r. case r of Inl e \<Rightarrow> F | Inr x \<Rightarrow> Q x) F"
    by (rule triple_weaken) auto
  then show ?thesis
    unfolding guarded_def
  proof (rule triple_seq)
    fix r
    show "triple (case r of Inl e \<Rightarrow> F | Inr x \<Rightarrow> Q x) (seq g (\<lambda>_. lift_r r)) Q F"
    proof (cases r)
      case (Inl e)
      then show ?thesis using assms(3) by (fastforce simp: triple_def seq_def split: prod.splits sum.splits)
    next
      case (Inr x)
      then show ?thesis using assms(2) [of x] by (fastforce simp: triple_def seq_def split: prod.splits sum.splits)
    qed
  qed
qed

lemma drop_triple:
  assumes "\<And>u v. I u \<Longrightarrow> same_commands u v \<Longrightarrow> I v"
  shows "triple I (drop_guard E guard) (\<lambda>_. I) (\<lambda>_. False)"
  unfolding triple_def
proof (intro allI impI)
  fix a assume "I a"
  have "same_commands a (snd (drop_guard E guard a))"
    using same_commands.drop_moves [of E guard] by (simp add: moves_def same_commands_def)
  then have "I (snd (drop_guard E guard a))" using assms \<open>I a\<close> by blast
  moreover have "fst (drop_guard E guard a) = Inr ()"
    by (cases guard) (simp_all add: drop_guard_def seq_def attempt_def split: prod.split)
  ultimately show "case drop_guard E guard a of (Inl e, b) \<Rightarrow> False | (Inr x, b) \<Rightarrow> I b"
    by (cases "drop_guard E guard a") simp
qed

lemma switch_settled:
  assumes p: "starts_with ''/'' p"
  shows "triple (link_kept a) (switch_units E old (units_of p) p) (\<lambda>x. settled p a (Inr x)) (\<lambda>v. \<exists>e. settled p a (Inl e) v)"
  unfolding triple_def switch_units_def
proof (intro allI impI)
  fix u assume u: "link_kept a u"
  obtain q v where s: "stream E (sd_switch_cmd old (units_of p)) u = (q, v)" by fastforce
  have "link_kept u v" by (rule moves_snd [OF link_kept.stream_moves s]) simp
  then have v: "link_kept a v" by (rule link_kept.step_trans [OF u])
  show "case seq (stream E (sd_switch_cmd old (units_of p))) (\<lambda>exit.
      if exit \<noteq> 0 then ret exit else seq (update_current E p) (\<lambda>_. ret 0)) u of
    (Inl e, w) \<Rightarrow> \<exists>e. settled p a (Inl e) w | (Inr x, w) \<Rightarrow> settled p a (Inr x) w"
  proof (cases q)
    case (Inl e)
    then show ?thesis using s v settled_error by (auto simp: seq_def)
  next
    case (Inr c)
    note log = stream_logs [OF s [unfolded Inr]]
    obtain new where new: "ac_commands u = ac_commands a @ new" using u by (auto simp: link_kept_def)
    show ?thesis
    proof (cases "c = 0")
      case False
      then show ?thesis using s Inr v by (simp add: seq_def link_kept_def settled_def)
    next
      case True
      obtain q2 w where up: "update_current E p v = (q2, w)" by fastforce
      have "ac_current u = ac_current a" using u by (simp add: link_kept_def)
      moreover have "\<exists>old new. ac_commands w = ac_commands a @ new @ [sd_switch_cmd old (units_of p)]"
        using update_current_atomic [OF up] log new by auto
      ultimately show ?thesis
        using update_current_atomic [OF up] log s Inr True p up
        by (cases q2) (auto simp: seq_def settled_def resolved_def)
    qed
  qed
qed

lemma kept_settles:
  assumes "moves link_kept m"
  shows "triple (link_kept a) m (\<lambda>_. link_kept a) (\<lambda>v. \<exists>e. settled p a (Inl e) v)"
  by (rule triple_weaken [OF link_kept.triple_moves [OF assms link_kept.step_trans]]) (use settled_error in auto)

lemma already_settled:
  assumes "resolved (ac_current a) = Some q" "same_path q p"
  shows "triple (link_kept a) (already_activated E hash) (\<lambda>x. settled p a (Inr x)) (\<lambda>v. \<exists>e. settled p a (Inl e) v)"
proof -
  have "triple (link_kept a) (ret 0) (\<lambda>x. settled p a (Inr x)) (\<lambda>v. \<exists>e. settled p a (Inl e) v)"
    using assms by (auto simp: triple_def settled_def link_kept_def)
  then show ?thesis
    unfolding already_activated_def
    by (intro triple_seq [OF kept_settles] link_kept.emit_moves link_kept.now_moves link_kept.callback_moves)
qed

lemma switch_profile_settled:
  assumes "starts_with ''/'' p"
  shows "triple (link_kept a) (switch_profile E seeds p old) (\<lambda>x. settled p a (Inr x)) (\<lambda>v. \<exists>e. settled p a (Inl e) v)"
  unfolding switch_profile_def copy_seeds_def
proof (rule triple_seq [OF kept_settles [OF link_kept.fs_moves]], simp add: link_kept.step_refl,
    rule triple_seq [OF kept_settles [OF link_kept.copy_moves]], simp,
    rule triple_seq [OF kept_settles [OF link_kept.old_units_moves]], simp add: link_kept_def)
  have "triple (link_kept a) (guarded (switch_units E old_units (units_of p) p) (drop_guard E g))
      (\<lambda>x. settled p a (Inr x)) (\<lambda>v. \<exists>e. settled p a (Inl e) v)" for old_units g
    by (rule guarded_triple [OF switch_settled [OF assms] drop_triple drop_triple]) (use settled_same in blast)+
  then show "triple (link_kept a) (case x of (old_units, g) \<Rightarrow>
      guarded (switch_units E old_units (units_of p) p) (drop_guard E g)) (\<lambda>x. settled p a (Inr x))
      (\<lambda>v. \<exists>e. settled p a (Inl e) v)" for x
    by (cases x) simp
qed

lemma services_settled:
  fixes E :: env and seeds :: "seed_ref list"
  defines "p \<equiv> STATE_DIR @ ''/'' @ content_hash E seeds"
  shows "triple (link_kept a) (services_run E seeds) (\<lambda>x. settled p a (Inr x)) (\<lambda>v. \<exists>e. settled p a (Inl e) v)"
proof -
  let ?E = "\<lambda>v. \<exists>e. settled p a (Inl e) v"
  have abs: "starts_with ''/'' p" by (simp add: p_def STATE_DIR_def starts_with_iff)
  have current: "triple (link_kept a) (resolve_current E) (\<lambda>old v. link_kept a v \<and> old = resolved (ac_current a)) ?E"
    by (auto simp: triple_def resolve_current_def resolved_def fs_op_def tick_def seq_def link_kept_def settled_def)
  have k: "triple (\<lambda>v. link_kept a v \<and> old = resolved (ac_current a))
      (if (case old of None \<Rightarrow> False | Some q \<Rightarrow> same_path q p) then already_activated E (content_hash E seeds)
       else switch_profile E seeds p old) (\<lambda>x. settled p a (Inr x)) ?E" for old
  proof (cases "old = resolved (ac_current a) \<and> (case old of None \<Rightarrow> False | Some q \<Rightarrow> same_path q p)")
    case True
    then obtain q where "resolved (ac_current a) = Some q" "same_path q p" by (auto split: option.splits)
    from already_settled [OF this] True show ?thesis by (auto intro: triple_pre)
  next
    case False
    then show ?thesis using switch_profile_settled [OF abs, of a E seeds old] by (auto simp: triple_def)
  qed
  show ?thesis
    unfolding services_run_def Let_def p_def [symmetric] by (rule triple_seq [OF current k])
qed


definition quiet_env :: env where
  "quiet_env = \<lparr>run_command = (\<lambda>_ _. \<lparr>cm_spawned = True, cm_waited = True, cm_stdout = [], cm_stderr = [], cm_order = [], cm_code = Some 0\<rparr>),
     now_at = (\<lambda>_. ''now''), fs_fails = (\<lambda>_. False), source_tree = (\<lambda>_. Unreadable), digest = (\<lambda>_. [171]),
     temp_prefix = ''/tmp/empty-'', logs = (\<lambda>_ _. False), debug_command = (\<lambda>_. []), field_name = id\<rparr>"

definition fresh_activator :: activator where
  "fresh_activator = \<lparr>ac_lines = [], ac_commands = [], ac_current = None, ac_staged = None, ac_temps = [], ac_asked = 0\<rparr>"

lemma quiet_stream:
  "stream quiet_env cmd a = (Inr 0, a\<lparr>ac_asked := Suc (ac_asked a), ac_commands := ac_commands a @ [cmd]\<rparr>)"
  by (simp add: stream_def emit_def quiet_env_def tick_def log_command_def seq_def arrivals_def pump_def lines_def)

lemma quiet_fs: "fs_op quiet_env m f a = (Inr (), f (a\<lparr>ac_asked := Suc (ac_asked a)\<rparr>))"
  by (simp add: fs_op_def tick_def seq_def quiet_env_def)

lemma quiet_now: "rfc3339_now quiet_env a = (Inr ''now'', a\<lparr>ac_asked := Suc (ac_asked a)\<rparr>)"
  by (simp add: rfc3339_now_def tick_def seq_def quiet_env_def)


end
