(* ===== verification/Json.thy ===== *)
theory Json
  imports Prelude
begin

text \<open>
  \<open>serde_json::Value\<close> and the accessors the sources apply to it.  Parsing and printing of JSON
  text is not under \<open>src/\<close>; where the sources parse, the parser is an argument of the model.
\<close>

datatype json =
    JNull
  | JBool bool
  | JNum int
  | JStr string
  | JArr "json list"
  | JObj "(string \<times> json) list"

text \<open>\<open>value["key"]\<close>: \<open>Null\<close> for a missing key and for a value that is not an object.\<close>

fun j_index :: "json \<Rightarrow> string \<Rightarrow> json" where
  "j_index (JObj kvs) k = (case map_of kvs k of None \<Rightarrow> JNull | Some v \<Rightarrow> v)"
| "j_index _ k = JNull"

text \<open>\<open>Value::get\<close>: an option instead of \<open>Null\<close>.\<close>

fun j_get :: "json \<Rightarrow> string \<Rightarrow> json option" where
  "j_get (JObj kvs) k = map_of kvs k"
| "j_get _ k = None"

fun as_str :: "json \<Rightarrow> string option" where
  "as_str (JStr s) = Some s"
| "as_str _ = None"

fun as_array :: "json \<Rightarrow> json list option" where
  "as_array (JArr xs) = Some xs"
| "as_array _ = None"

fun as_object :: "json \<Rightarrow> (string \<times> json) list option" where
  "as_object (JObj kvs) = Some kvs"
| "as_object _ = None"

lemma as_str_Some_iff: "as_str v = Some s \<longleftrightarrow> v = JStr s"
  by (cases v) auto

lemma as_array_Some_iff: "as_array v = Some xs \<longleftrightarrow> v = JArr xs"
  by (cases v) auto

text \<open>
  What serde's derived deserialization takes for a struct: an object, or a sequence of the fields in their order.  In a
  sequence the fields after the \<open>required\<close> ones may be missing when they have a default.
\<close>

definition struct_value :: "string list \<Rightarrow> nat \<Rightarrow> json \<Rightarrow> json" where
  "struct_value names required v =
     (case v of
        JArr xs \<Rightarrow> if required \<le> length xs \<and> length xs \<le> length names then JObj (zip names xs) else JNull
      | _ \<Rightarrow> v)"

text \<open>And for a variant without data: its name, alone or as the key of \<open>null\<close>.\<close>

definition variant_name :: "json \<Rightarrow> string option" where
  "variant_name v = (case v of JStr s \<Rightarrow> Some s | JObj [(s, JNull)] \<Rightarrow> Some s | _ \<Rightarrow> None)"

lemma struct_value_simps [simp]:
  "struct_value names n (JObj kvs) = JObj kvs" "struct_value names n (JStr s) = JStr s" "struct_value names n JNull = JNull"
  by (simp_all add: struct_value_def)

lemma variant_name_simps [simp]: "variant_name (JStr s) = Some s"
  by (simp add: variant_name_def)

end
