(* ===== verification/World.thy ===== *)
theory World
  imports Effects Json Utf8 Lease
begin

text \<open>
  The world the network commands of the activator act on: the journal of the state directory,
  the host (interfaces, firewall, connection tracking), which is reached through the external
  programs \<open>ip\<close>, \<open>nft\<close>, \<open>udevadm\<close> and \<open>conntrack\<close> only, and the process that runs.  The
  external programs are not part of the sources: they are the argument \<open>tools\<close>, functions on an
  arbitrary type of host states; it also holds the library functions the commands use
  (\<open>serde_json\<close>'s parser and printer, \<open>sha2\<close>).  Every effect consumes one entry of a script of outcomes, so
  that any operating-system call can fail and the process can be killed at any point.
\<close>

text \<open>The output of a finished program; \<open>t_stdin_ok\<close> says whether it took all of its input.\<close>

record tool_output =
  t_success :: bool
  t_stdout :: string
  t_stderr :: string
  t_stdin_ok :: bool

record 'h tools =
  run_tool :: "string \<Rightarrow> string list \<Rightarrow> 'h \<Rightarrow> tool_output \<times> 'h"
  run_nft :: "string \<Rightarrow> 'h \<Rightarrow> tool_output \<times> 'h"
  parse_json :: "string \<Rightarrow> json result"
  print_json :: "json \<Rightarrow> string"
  sha256 :: "string \<Rightarrow> 8 word list"

datatype outcome = Works | Fails | Dies

datatype host_call = Call string "string list" | Nft string

text \<open>
  A path is the list of its components; the root directory is the component \<open>/\<close>, as in
  \<open>std::path::Components\<close>.  A symbolic link carries whether its target exists.  What a regular file
  holds is known as far as the code parses it; \<open>Garbage\<close> is any other content, for instance that
  of a file which is only partly written.
\<close>

type_synonym path = "string list"

datatype file_kind = Regular | Directory | Symlink bool | Special

record metadata =
  md_kind :: file_kind
  md_uid :: u32
  md_mode :: u32

datatype file_content = Garbage | LeaseRecord lease | PolicyRecord policy_file

record fs_file =
  fi_meta :: metadata
  fi_content :: file_content

text \<open>
  \<open>w_files\<close> holds the regular files the commands read or write, in directory order, \<open>w_lstat\<close> what
  \<open>lstat\<close> says of every other path, \<open>w_busy\<close> the lock files another process holds, \<open>w_cur\<close> is the
  lease a function holds as \<open>&mut Lease\<close>, \<open>w_log\<close> the programs that were run, \<open>w_stat\<close> the content of
  \<open>/proc/<pid>/stat\<close>, \<open>w_urandom\<close> the bytes \<open>/dev/urandom\<close> yields and \<open>w_drawn\<close> how many were read.
\<close>

record 'h world =
  w_files :: "(path \<times> fs_file) list"
  w_lstat :: "path \<Rightarrow> metadata result"
  w_busy :: "path list"
  w_host :: 'h
  w_cur :: lease
  w_log :: "host_call list"
  w_script :: "outcome list"
  w_dead :: bool
  w_stat :: "int \<Rightarrow> string result"
  w_urandom :: "nat \<Rightarrow> 8 word"
  w_drawn :: nat

type_synonym ('h, 'a) io = "('h world, 'a) act"

definition killed :: error where "killed = Msg ''killed''"
definition os_error :: error where "os_error = Msg ''os error''"

text \<open>
  A system call with an effect: nothing happens once the process is dead; otherwise the next
  outcome decides between the effect, an error without effect, and the end of the process.
\<close>

definition syscall :: "('h, 'a) io \<Rightarrow> ('h, 'a) io" where
  "syscall eff = (\<lambda>w.
     if w_dead w then (Inl killed, w)
     else (case w_script w of
        [] \<Rightarrow> eff w
      | Works # rest \<Rightarrow> eff (w\<lparr>w_script := rest\<rparr>)
      | Fails # rest \<Rightarrow> (Inl os_error, w\<lparr>w_script := rest\<rparr>)
      | Dies # rest \<Rightarrow> (Inl killed, w\<lparr>w_script := rest, w_dead := True\<rparr>)))"

lemma keeps_syscall:
  assumes "keeps I eff" "\<And>w os. I w \<Longrightarrow> I (w\<lparr>w_script := os\<rparr>)"
    "\<And>w os. I w \<Longrightarrow> I (w\<lparr>w_script := os, w_dead := True\<rparr>)"
  shows "keeps I (syscall eff)"
  using assms by (auto simp: keeps_def syscall_def split: list.splits outcome.splits)

lemma syscall_Inr:
  "syscall eff w = (Inr x, w') \<Longrightarrow> \<exists>os. \<not> w_dead w \<and> eff (w\<lparr>w_script := os\<rparr>) = (Inr x, w')"
proof -
  assume a: "syscall eff w = (Inr x, w')"
  then have alive: "\<not> w_dead w" by (auto simp: syscall_def split: if_splits)
  show ?thesis
  proof (cases "w_script w")
    case Nil
    then have "w\<lparr>w_script := w_script w\<rparr> = w" by simp
    moreover have "eff w = (Inr x, w')" using a alive Nil by (simp add: syscall_def)
    ultimately show ?thesis using alive by (intro exI [of _ "w_script w"]) simp
  next
    case (Cons oc rest)
    with a alive show ?thesis
      by (intro exI [of _ rest]) (cases oc; simp add: syscall_def)
  qed
qed

text \<open>The local variable a function holds as \<open>&mut Lease\<close>; assigning it is no system call.\<close>

definition set_cur :: "lease \<Rightarrow> ('h, unit) io" where
  "set_cur l = (\<lambda>w. (Inr (), w\<lparr>w_cur := l\<rparr>))"

abbreviation cur :: "('h, lease) io" where "cur \<equiv> gets w_cur"

text \<open>\<open>command(program, args)\<close>: run to completion, an unsuccessful status is an error.\<close>

definition tool_result :: "string \<Rightarrow> tool_output \<Rightarrow> string result" where
  "tool_result program out =
     bind_r (ensure (t_success out)
       (program @ '' failed: '' @ trim_text (t_stderr out))) (\<lambda>_.
     with_context (program @ '' emitted non-UTF8 output'')
       (if is_utf8 (t_stdout out) then Inr (t_stdout out) else Inl (Msg ''invalid utf-8 sequence'')))"

definition command :: "'h tools \<Rightarrow> string \<Rightarrow> string list \<Rightarrow> ('h, string) io" where
  "command T program args =
     seq (ctx (''run '' @ program) (syscall (\<lambda>w.
       case run_tool T program args (w_host w) of
         (out, h) \<Rightarrow> (Inr out, w\<lparr>w_host := h, w_log := w_log w @ [Call program args]\<rparr>))))
     (\<lambda>out. lift_r (tool_result program out))"

text \<open>\<open>nft(script)\<close>: the script is written to the program's standard input.\<close>

definition nft :: "'h tools \<Rightarrow> string \<Rightarrow> ('h, unit) io" where
  "nft T script =
     seq (ctx ''run nft'' (syscall (\<lambda>w.
       case run_nft T script (w_host w) of
         (out, h) \<Rightarrow> (Inr out, w\<lparr>w_host := h, w_log := w_log w @ [Nft script]\<rparr>))))
     (\<lambda>out. seq (ctx ''wait for nft'' (syscall (ret ())))
     (\<lambda>_. seq (ctx ''write nft transaction'' (lift_r (if t_stdin_ok out then Inr () else Inl os_error)))
     (\<lambda>_. check (t_success out) (''nft failed: '' @ trim_text (t_stderr out)))))"

end
