(* ===== verification/NetworkHost.thy ===== *)
theory NetworkHost
  imports World
begin

text \<open>
  \<open>src/src/commands/activator/network_host.rs\<close>: the host side of a lease.  The firewall
  scripts, the ownership checks that keep the activator from touching what it did not create, and
  the command sequences that create and remove a TAP interface.
\<close>

section \<open>Tables and their ownership\<close>

definition inet_table :: "lease \<Rightarrow> string" where
  "inet_table l = ''sower_network_'' @ l_lease l"

definition netdev_table :: "lease \<Rightarrow> string" where
  "netdev_table l = ''sower_netdev_'' @ l_lease l"

definition names_table :: "string \<Rightarrow> string \<Rightarrow> json \<Rightarrow> bool" where
  "names_table family name entry =
     (j_index (j_index entry ''table'') ''family'' = JStr family
      \<and> j_index (j_index entry ''table'') ''name'' = JStr name)"

definition owned_table :: "string \<Rightarrow> string \<Rightarrow> json \<Rightarrow> bool" where
  "owned_table family name entry =
     (names_table family name entry \<and> j_index (j_index entry ''table'') ''comment'' = JStr MARKER)"

definition table_exists :: "'h tools \<Rightarrow> string \<Rightarrow> string \<Rightarrow> ('h, bool) io" where
  "table_exists T family name =
     seq (command T ''nft'' [''--json'', ''list'', ''tables'']) (\<lambda>out.
     seq (lift_r (parse_json T out)) (\<lambda>tables.
     seq (lift_r (ok_or ''nft table listing'' (as_array (j_index tables ''nftables'')))) (\<lambda>entries.
     if \<not> list_ex (names_table family name) entries then ret False
     else
       seq (command T ''nft'' [''--json'', ''list'', ''table'', family, name]) (\<lambda>out2.
       seq (lift_r (parse_json T out2)) (\<lambda>table.
       seq (lift_r (ok_or ''nft table details'' (as_array (j_index table ''nftables'')))) (\<lambda>details.
       seq (check (list_ex (owned_table family name) details)
         (''refusing to change unowned nft table '' @ family @ '' '' @ name)) (\<lambda>_.
       ret True)))))))"

section \<open>The guard\<close>

text \<open>
  A rule is the text of its match, a space and its verdict; a chain has a head (hook, priority,
  policy) and its rules in order.  \<open>guard_script\<close> prints the table; the line feeds and the
  spaces are those of the code's string literals.
\<close>

type_synonym rule = "string \<times> string"

definition quoted :: "string \<Rightarrow> string" where
  "quoted s = [char_dquote] @ s @ [char_dquote]"

definition show_rule :: "rule \<Rightarrow> string" where
  "show_rule r = fst r @ '' '' @ snd r @ '';''"

definition original_denials :: "rule list" where
  "original_denials =
     [(''iifname @taps meta nfproto ipv6'', ''drop''),
      (''iifname @taps fib daddr type local'', ''drop''),
      (''iifname @taps ip daddr @blocked'', ''drop'')]"

definition original_accepts :: "policy \<Rightarrow> lease \<Rightarrow> rule list" where
  "original_accepts p l =
     (if l_phase l = Active then
       [(''iifname '' @ quoted (l_tap l) @ '' ip saddr '' @ show_ipv4 (l_address l)
           @ '' ip daddr '' @ show_ipv4 (dns p) @ '' udp dport 53'', ''accept''),
        (''iifname '' @ quoted (l_tap l) @ '' ip saddr '' @ show_ipv4 (l_address l)
           @ '' ip daddr '' @ show_ipv4 (dns p) @ '' tcp dport 53'', ''accept''),
        (''iifname '' @ quoted (l_tap l) @ '' ip saddr '' @ show_ipv4 (l_address l)
           @ '' tcp dport { 80, 443 }'', ''accept'')]
      else [])"

definition original_rules :: "policy \<Rightarrow> lease \<Rightarrow> rule list" where
  "original_rules p l = original_denials @ original_accepts p l @ [(''iifname @taps'', ''drop'')]"

definition forward_denials :: "rule list" where
  "forward_denials =
     [(''iifname @taps oifname @taps'', ''drop''),
      (''iifname @taps meta nfproto ipv6'', ''drop''),
      (''oifname @taps meta nfproto ipv6'', ''drop''),
      (''iifname @taps fib daddr type local'', ''drop''),
      (''iifname @taps ip daddr @blocked'', ''drop''),
      (''oifname @taps ip saddr @blocked'', ''drop'')]"

definition forward_accepts :: "policy \<Rightarrow> lease \<Rightarrow> rule list" where
  "forward_accepts p l =
     (if l_phase l = Active then
       [(''iifname '' @ quoted (l_tap l) @ '' ip saddr '' @ show_ipv4 (l_address l)
           @ '' ip daddr '' @ show_ipv4 (dns p) @ '' udp dport 53 ct state { new, established }'', ''accept''),
        (''iifname '' @ quoted (l_tap l) @ '' ip saddr '' @ show_ipv4 (l_address l)
           @ '' ip daddr '' @ show_ipv4 (dns p) @ '' tcp dport 53 ct state { new, established }'', ''accept''),
        (''iifname '' @ quoted (l_tap l) @ '' ip saddr '' @ show_ipv4 (l_address l)
           @ '' tcp dport { 80, 443 } ct state { new, established }'', ''accept''),
        (''oifname '' @ quoted (l_tap l) @ '' ip daddr '' @ show_ipv4 (l_address l)
           @ '' ct state established ct status snat'', ''accept'')]
      else [])"

definition forward_finals :: "rule list" where
  "forward_finals = [(''iifname @taps'', ''drop''), (''oifname @taps'', ''drop'')]"

definition forward_rules :: "policy \<Rightarrow> lease \<Rightarrow> rule list" where
  "forward_rules p l = forward_denials @ forward_accepts p l @ forward_finals"

definition input_rules :: "rule list" where
  "input_rules = [(''iifname @taps'', ''drop'')]"

definition output_rules :: "rule list" where
  "output_rules = [(''oifname @taps'', ''drop'')]"

definition nat_rules :: "lease \<Rightarrow> rule list" where
  "nat_rules l =
     (if l_phase l = Active then
       [(''iifname '' @ quoted (l_tap l) @ '' ip saddr '' @ show_ipv4 (l_address l), ''masquerade'')]
      else [])"

text \<open>The first rule of a group is indented by one space, each rule is on a line of its own.\<close>

definition rule_lines :: "rule list \<Rightarrow> string" where
  "rule_lines rs = concat (map (\<lambda>r. show_rule r @ [char_nl]) rs)"

definition indented :: "rule list \<Rightarrow> string" where
  "indented rs = (if rs = [] then [] else '' '' @ rule_lines rs)"

definition guard_script :: "policy \<Rightarrow> lease \<Rightarrow> bool \<Rightarrow> string" where
  "guard_script p l exists =
     (if exists then ''delete table inet '' @ inet_table l @ [char_nl] else [])
     @ ''table inet '' @ inet_table l @ '' {'' @ [char_nl]
     @ '' comment '' @ quoted MARKER @ '';'' @ [char_nl]
     @ ''set taps { type ifname; elements = { '' @ quoted (l_tap l) @ '' }; }'' @ [char_nl]
     @ '' set blocked { type ipv4_addr; flags interval; auto-merge; elements = { ''
     @ join_with '', '' (map canonical (protected p)) @ '' }; }'' @ [char_nl]
     @ '' chain original { type filter hook prerouting priority -310; policy accept;'' @ [char_nl]
     @ rule_lines original_denials
     @ indented (original_accepts p l)
     @ indented [(''iifname @taps'', ''drop'')] @ '' }'' @ [char_nl]
     @ '' chain input { type filter hook input priority -50; policy accept; ''
     @ concat (map show_rule input_rules) @ '' }'' @ [char_nl]
     @ ''chain output { type filter hook output priority -50; policy accept; ''
     @ concat (map show_rule output_rules) @ '' }'' @ [char_nl]
     @ ''chain forward { type filter hook forward priority -50; policy accept;'' @ [char_nl]
     @ rule_lines forward_denials
     @ indented (forward_accepts p l)
     @ '' '' @ join_with '' '' (map show_rule forward_finals) @ [char_nl] @ '' }'' @ [char_nl]
     @ '' chain nat { type nat hook postrouting priority srcnat; policy accept;'' @ [char_nl]
     @ indented (nat_rules l)
     @ '' }'' @ [char_nl] @ ''}'' @ [char_nl]"

definition install_guard :: "'h tools \<Rightarrow> policy \<Rightarrow> lease list \<Rightarrow> ('h, unit) io" where
  "install_guard T p leases =
     (case leases of
        [] \<Rightarrow> lift_r (Inl (Msg ''guard requires one execution lease''))
      | l # rest \<Rightarrow>
          seq (check (rest = []) ''guard can only change one execution'') (\<lambda>_.
          seq (check (valid_token (l_lease l)) ''invalid execution lease token'') (\<lambda>_.
          seq (table_exists T ''inet'' (inet_table l)) (\<lambda>exists.
          nft T (guard_script p l exists)))))"

section \<open>Routes\<close>

definition route_subnet :: "string \<Rightarrow> subnet result" where
  "route_subnet d =
     (if CHR ''/'' \<in> set d then parse_subnet d
      else bind_r (ok_or ''invalid IPv4 address syntax'' (parse_ipv4 d)) (\<lambda>a.
        Inr \<lparr>sub_network = a, sub_prefix = 32\<rparr>))"

definition route_clear :: "ipv4 \<Rightarrow> subnet \<Rightarrow> bool" where
  "route_clear network s =
     (sub_prefix s = 0
      \<or> (\<not> contains s network \<and> \<not> (network \<le> sub_network s \<and> sub_network s < network + 4)))"

fun check_routes_from :: "ipv4 \<Rightarrow> json list \<Rightarrow> unit result" where
  "check_routes_from network [] = Inr ()"
| "check_routes_from network (route # routes) =
     bind_r (ok_or ''route lacks destination'' (as_str (j_index route ''dst''))) (\<lambda>destination.
     if destination = ''default'' then check_routes_from network routes
     else
       bind_r (route_subnet destination) (\<lambda>s.
       bind_r (ensure (route_clear network s)
         (''execution subnet '' @ show_ipv4 network @ ''/30 overlaps existing host route '' @ destination)) (\<lambda>_.
       check_routes_from network routes)))"

definition block_network :: "ipv4 \<Rightarrow> ipv4" where
  "block_network gateway = gateway AND NOT 3"

definition check_routes :: "ipv4 \<Rightarrow> json list \<Rightarrow> unit result" where
  "check_routes gateway routes = check_routes_from (block_network gateway) routes"

definition require_available_subnet :: "'h tools \<Rightarrow> ipv4 \<Rightarrow> ('h, unit) io" where
  "require_available_subnet T gateway =
     seq (command T ''ip'' [''--json'', ''-family'', ''inet'', ''route'', ''show'', ''table'', ''all'']) (\<lambda>out.
     seq (lift_r (bind_r (parse_json T out) (\<lambda>v. ok_or ''invalid type: expected a sequence'' (as_array v)))) (\<lambda>routes.
     lift_r (check_routes gateway routes)))"

section \<open>Interfaces\<close>

definition links :: "'h tools \<Rightarrow> ('h, json list) io" where
  "links T =
     seq (command T ''ip'' [''--json'', ''link'', ''show'']) (\<lambda>out.
     lift_r (with_context ''parse interface listing''
       (bind_r (parse_json T out) (\<lambda>v. ok_or ''invalid type: expected a sequence'' (as_array v)))))"

definition alias_of :: "lease \<Rightarrow> string" where
  "alias_of l = MARKER @ '':'' @ l_lease l"

definition owned_link :: "lease \<Rightarrow> json list \<Rightarrow> json option result" where
  "owned_link l ls =
     (case find (\<lambda>link. j_index link ''ifname'' = JStr (l_tap l)) ls of
        None \<Rightarrow> Inr None
      | Some link \<Rightarrow>
          bind_r (ensure (j_index link ''ifalias'' = JStr (alias_of l))
            (''refusing to change unowned interface '' @ l_tap l)) (\<lambda>_.
          Inr (Some link)))"

definition name_taken :: "string \<Rightarrow> json list \<Rightarrow> bool" where
  "name_taken tap ls = list_ex (\<lambda>link. j_index link ''ifname'' = JStr tap) ls"

text \<open>\<open>create_tap(&mut lease)\<close> acts on the lease in \<open>w_cur\<close>, whose host MAC it sets.\<close>

definition create_tap :: "'h tools \<Rightarrow> ('h, unit) io" where
  "create_tap T =
     seq cur (\<lambda>l.
     seq (links T) (\<lambda>ls.
     seq (check (\<not> name_taken (l_tap l) ls) ''interface name is already occupied'') (\<lambda>_.
     seq (command T ''ip'' [''tuntap'', ''add'', ''dev'', l_tap l, ''mode'', ''tap'', ''user'',
            show_nat (unat (l_owner_uid l)), ''vnet_hdr'']) (\<lambda>_.
     seq (command T ''ip'' [''link'', ''set'', ''dev'', l_tap l, ''alias'', alias_of l]) (\<lambda>_.
     seq (command T ''udevadm'' [''wait'', ''--initialized=true'', ''--timeout=3'',
            ''/sys/class/net/'' @ l_tap l]) (\<lambda>_.
     seq (links T) (\<lambda>ls2.
     seq (lift_r (owned_link l ls2)) (\<lambda>found.
     seq (lift_r (ok_or ''created TAP disappeared'' found)) (\<lambda>link.
     seq (lift_r (ok_or ''TAP lacks Ethernet address'' (as_str (j_index link ''address'')))) (\<lambda>mac.
     seq (check (valid_mac mac) ''TAP has an invalid Ethernet address'') (\<lambda>_.
     seq (set_cur (l\<lparr>l_host_mac := Some mac\<rparr>)) (\<lambda>_.
     seq (command T ''ip'' [''address'', ''add'', show_ipv4 (l_gateway l) @ ''/30'', ''dev'', l_tap l]) (\<lambda>_.
     ret ())))))))))))))"

section \<open>The ingress filter\<close>

definition ingress_script :: "lease \<Rightarrow> string \<Rightarrow> bool \<Rightarrow> string" where
  "ingress_script l host_mac exists =
     (if exists then ''delete table netdev '' @ netdev_table l @ [char_nl] else [])
     @ ''table netdev '' @ netdev_table l @ '' {'' @ [char_nl]
     @ '' comment '' @ quoted MARKER @ '';'' @ [char_nl]
     @ ''chain ingress { type filter hook ingress device '' @ quoted (l_tap l)
     @ '' priority -500; policy drop;'' @ [char_nl]
     @ ''ether saddr '' @ l_mac l @ '' ether daddr '' @ host_mac @ '' ether type ip ip saddr ''
     @ show_ipv4 (l_address l) @ '' accept;'' @ [char_nl]
     @ ''ether saddr '' @ l_mac l @ '' ether daddr { ff:ff:ff:ff:ff:ff, '' @ host_mac
     @ '' } ether type arp arp operation request arp saddr ether '' @ l_mac l
     @ '' arp saddr ip '' @ show_ipv4 (l_address l)
     @ '' arp daddr ether 00:00:00:00:00:00 arp daddr ip '' @ show_ipv4 (l_gateway l)
     @ '' accept;'' @ [char_nl]
     @ ''ether saddr '' @ l_mac l @ '' ether daddr '' @ host_mac
     @ '' ether type arp arp operation reply arp saddr ether '' @ l_mac l
     @ '' arp saddr ip '' @ show_ipv4 (l_address l) @ '' arp daddr ether '' @ host_mac
     @ '' arp daddr ip '' @ show_ipv4 (l_gateway l) @ '' accept;'' @ [char_nl]
     @ ''}'' @ [char_nl] @ ''}'' @ [char_nl]"

definition install_ingress :: "'h tools \<Rightarrow> lease \<Rightarrow> ('h, unit) io" where
  "install_ingress T l =
     seq (table_exists T ''netdev'' (netdev_table l)) (\<lambda>exists.
     seq (lift_r (ok_or ''missing TAP MAC'' (l_host_mac l))) (\<lambda>host_mac.
     nft T (ingress_script l host_mac exists)))"

section \<open>Up, down and removal\<close>

definition set_up :: "'h tools \<Rightarrow> lease \<Rightarrow> ('h, unit) io" where
  "set_up T l =
     seq (links T) (\<lambda>ls.
     seq (lift_r (owned_link l ls)) (\<lambda>found.
     seq (lift_r (ok_or ''TAP disappeared'' found)) (\<lambda>_.
     seq (command T ''ip'' [''link'', ''set'', ''dev'', l_tap l, ''up'']) (\<lambda>_. ret ()))))"

definition set_down :: "'h tools \<Rightarrow> lease \<Rightarrow> ('h, unit) io" where
  "set_down T l =
     seq (links T) (\<lambda>ls.
     seq (lift_r (owned_link l ls)) (\<lambda>found.
     if found = None then ret ()
     else seq (command T ''ip'' [''link'', ''set'', ''dev'', l_tap l, ''down'']) (\<lambda>_. ret ())))"

definition conntrack_selectors :: "string list" where
  "conntrack_selectors = [''--orig-src'', ''--orig-dst'', ''--reply-src'', ''--reply-dst'']"

definition purge_selector :: "'h tools \<Rightarrow> string \<Rightarrow> string \<Rightarrow> ('h, unit) io" where
  "purge_selector T address selector =
     seq (command T ''conntrack'' [''--dump'', ''--family'', ''ipv4'', selector, address]) (\<lambda>before.
     seq (if trim_text before \<noteq> []
          then seq (command T ''conntrack'' [''--delete'', ''--family'', ''ipv4'', selector, address])
                 (\<lambda>_. ret ())
          else ret ()) (\<lambda>_.
     seq (command T ''conntrack'' [''--dump'', ''--family'', ''ipv4'', selector, address]) (\<lambda>after.
     check (trim_text after = []) (''stale conntrack entries for '' @ address))))"

definition purge_connections :: "'h tools \<Rightarrow> lease \<Rightarrow> ('h, unit) io" where
  "purge_connections T l = each (purge_selector T (show_ipv4 (l_address l))) conntrack_selectors"

definition deletion :: "'h tools \<Rightarrow> string \<Rightarrow> string \<Rightarrow> ('h, string) io" where
  "deletion T family table =
     seq (table_exists T family table) (\<lambda>exists.
     ret (if exists then ''delete table '' @ family @ '' '' @ table @ [char_nl] else []))"

definition remove_resources :: "'h tools \<Rightarrow> lease \<Rightarrow> ('h, unit) io" where
  "remove_resources T l =
     seq (set_down T l) (\<lambda>_.
     seq (links T) (\<lambda>ls.
     seq (lift_r (owned_link l ls)) (\<lambda>found.
     seq (if found = None then ret ()
          else
            seq (command T ''ip'' [''tuntap'', ''del'', ''dev'', l_tap l, ''mode'', ''tap'']) (\<lambda>_.
            seq (links T) (\<lambda>ls2.
            seq (lift_r (owned_link l ls2)) (\<lambda>found2.
            check (found2 = None) ''TAP remains attached; allocation quarantined'')))) (\<lambda>_.
     seq (purge_connections T l) (\<lambda>_.
     seq (deletion T ''inet'' (inet_table l)) (\<lambda>d1.
     seq (deletion T ''netdev'' (netdev_table l)) (\<lambda>d2.
     if d1 @ d2 = [] then ret () else nft T (d1 @ d2))))))))"

section \<open>What the guard lets through\<close>

text \<open>
  A chain tries its rules in order and the first rule whose match holds decides; if none does,
  the chain's policy decides.  What a match expression means for a packet is nftables' business:
  it is the argument \<open>m\<close>, an arbitrary predicate on the text of the match.
\<close>

fun chain_verdict :: "(string \<Rightarrow> bool) \<Rightarrow> string \<Rightarrow> rule list \<Rightarrow> string" where
  "chain_verdict m pol [] = pol"
| "chain_verdict m pol (r # rs) = (if m (fst r) then snd r else chain_verdict m pol rs)"

lemma chain_verdict_append:
  "chain_verdict m pol (rs @ ss) =
     (if list_ex (\<lambda>r. m (fst r)) rs then chain_verdict m pol rs else chain_verdict m pol ss)"
  by (induction rs) auto

lemma chain_verdict_same:
  "list_ex (\<lambda>r. m (fst r)) rs \<Longrightarrow> (\<And>r. r \<in> set rs \<Longrightarrow> snd r = v) \<Longrightarrow> chain_verdict m pol rs = v"
  by (induction rs) auto

definition some_match :: "(string \<Rightarrow> bool) \<Rightarrow> rule list \<Rightarrow> bool" where
  "some_match m rs = list_ex (\<lambda>r. m (fst r)) rs"

lemma deny_accept_deny:
  assumes "\<And>r. r \<in> set ds \<Longrightarrow> snd r = ''drop''" "\<And>r. r \<in> set as \<Longrightarrow> snd r = ''accept''"
    "\<And>r. r \<in> set fs \<Longrightarrow> snd r = ''drop''" "some_match m fs"
  shows "chain_verdict m pol (ds @ as @ fs)
    = (if \<not> some_match m ds \<and> some_match m as then ''accept'' else ''drop'')"
  using assms chain_verdict_same [of m ds "''drop''"] chain_verdict_same [of m as "''accept''"]
    chain_verdict_same [of m fs "''drop''"]
  by (auto simp: chain_verdict_append some_match_def)


definition example_lease :: lease where
  "example_lease = \<lparr>l_lease = replicate 32 CHR ''a'', l_slot = 0, l_tap = ''swnt0000'',
     l_mac = ''02:00:00:00:00:01'', l_host_mac = Some ''02:00:00:00:00:02'',
     l_address = 184418306, l_gateway = 184418305, l_instance = ''sower-garden.service'',
     l_owner_uid = 1000, l_owner_pid = 123, l_owner_starttime = 456,
     l_execution_id = ''opaque/../execution'', l_phase = Active\<rparr>"

lemma tap_name_0: "tap_name 0 = ''swnt0000''"
  by (simp add: tap_name_def TAP_PREFIX_def hex_pad_def show_hex.simps [of 0] hex_char_def Let_def) code_simp

lemma wf_example_lease: "wf_lease example_lease"
proof -
  have "valid_unit ''sower-garden.service''"
    using wf_example by (simp add: wf_policy_def example_policy_def default_garden_units_def)
  then show ?thesis
    by (simp add: wf_lease_def example_lease_def valid_token_def is_lower_hex_def is_digit_def
        tap_name_0 valid_mac_def starts_with_def is_private_iff list_all_iff)
qed

definition http_packet :: "string \<Rightarrow> bool" where
  "http_packet t = (t \<in> {''iifname @taps'', fst (original_accepts example_policy example_lease ! 2)})"


section \<open>No field of a lease can add to the script\<close>

definition structural :: "char \<Rightarrow> bool" where
  "structural c = (c \<in> {char_nl, char_dquote, CHR '';'', CHR ''{'', CHR ''}'', CHR '' '', CHR '',''})"

lemma structural_not_hex: "structural c \<Longrightarrow> \<not> is_lower_hex c"
  by (auto simp: structural_def is_lower_hex_def is_digit_def)

lemma count_list_notin: "c \<notin> set s \<Longrightarrow> count_list s c = 0"
  by (rule count_notin)

lemma count_hex: "structural c \<Longrightarrow> list_all is_lower_hex s \<Longrightarrow> count_list s c = 0"
  by (rule count_list_notin) (auto simp: list_all_iff dest: structural_not_hex)

lemma count_show_ipv4: "structural c \<Longrightarrow> count_list (show_ipv4 a) c = 0"
proof -
  assume c: "structural c"
  have "c \<notin> set (show_nat n)" for n
    using show_nat_digit [of c n] structural_not_hex [OF c] by (auto simp: is_lower_hex_def)
  moreover have "c \<noteq> CHR ''.''" using c by (auto simp: structural_def)
  moreover obtain w x y z where "octets a = [w, x, y, z]" using octets_four by blast
  ultimately show ?thesis by (simp add: show_ipv4_def count_list_notin)
qed

lemma count_tap:
  assumes "structural c" "wf_lease l" shows "count_list (l_tap l) c = 0"
proof -
  have "c \<notin> set (hex_pad 4 (unat (l_slot l)))"
    using hex_pad_digit structural_not_hex [OF assms(1)] by blast
  moreover have "c \<notin> set TAP_PREFIX" using assms(1) by (auto simp: structural_def TAP_PREFIX_def)
  ultimately show ?thesis using assms(2)
    by (simp add: wf_lease_def tap_name_def count_list_notin)
qed

lemma valid_mac_count:
  assumes "structural c" "valid_mac m" shows "count_list m c = 0"
proof (rule count_list_notin)
  have "set m \<subseteq> insert CHR '':'' (\<Union>p \<in> set (split_char CHR '':'' m). set p)"
  proof (induction m)
    case Nil
    then show ?case by simp
  next
    case (Cons x m)
    then show ?case by (cases "split_char CHR '':'' m") auto
  qed
  moreover have "c \<notin> set p" if "p \<in> set (split_char CHR '':'' m)" for p
    using assms that structural_not_hex by (auto simp: valid_mac_def list_all_iff)
  moreover have "c \<noteq> CHR '':''" using assms(1) by (auto simp: structural_def)
  ultimately show "c \<notin> set m" by auto
qed

lemma count_token: "structural c \<Longrightarrow> wf_lease l \<Longrightarrow> count_list (l_lease l) c = 0"
  by (simp add: wf_lease_def valid_token_def count_hex)

lemmas lease_counts = count_tap count_token count_show_ipv4 valid_mac_count



section \<open>A route check that succeeds leaves no overlap\<close>

lemma unat_block: "unat (block_network gateway) = unat gateway - unat gateway mod 4" for gateway :: u32
proof -
  have "NOT (3 :: u32) = push_bit 2 (- 1)" by code_simp
  then have "block_network gateway = push_bit 2 (drop_bit 2 gateway)"
    by (simp only: block_network_def and_high_mask)
  then show ?thesis using unat_high_part [of 2 gateway] by simp
qed

lemma wf_block: "wf_subnet \<lparr>sub_network = block_network gateway, sub_prefix = 30\<rparr>"
proof -
  have "(unat gateway - unat gateway mod 4) mod 4 = 0" by (simp add: minus_mod_eq_mult_div)
  then show ?thesis by (simp add: wf_subnet_def netmask_aligned_iff unat_block)
qed

lemma route_subnet_wf: "route_subnet d = Inr s \<Longrightarrow> wf_subnet s"
  by (auto simp: route_subnet_def result_simps wf_subnet_def netmask_aligned_iff
      split: if_splits dest: parse_subnet_wf)

text \<open>A route at least as wide as the block meets it only if it contains the block's first address.\<close>

lemma wide_route_meets:
  assumes s: "wf_subnet s" and p: "sub_prefix s \<le> 30"
    and a: "contains \<lparr>sub_network = block_network gateway, sub_prefix = 30\<rparr> a" and sa: "contains s a"
  shows "contains s (block_network gateway)"
proof -
  have "32 - sub_prefix s = 2 + (30 - sub_prefix s)" using p by arith
  then have size: "(2 :: nat) ^ (32 - sub_prefix s) = 4 * 2 ^ (30 - sub_prefix s)" by (simp add: power_add)
  have "unat a div 4 = unat (block_network gateway) div 4" using a by (simp add: contains_div [OF wf_block])
  then have "unat (block_network gateway) div 2 ^ (32 - sub_prefix s) = unat a div 2 ^ (32 - sub_prefix s)"
    by (simp add: size div_mult2_eq)
  then show ?thesis using sa s by (simp add: contains_div)
qed

text \<open>A smaller route that meets the block begins inside it.\<close>

lemma aligned_le:
  assumes "m dvd x" "m dvd y" "y < x + m"
  shows "y \<le> (x :: nat)"
proof -
  obtain i j where "x = m * i" "y = m * j" using assms by (auto simp: dvd_def)
  then have "m * j < m * Suc i" using assms(3) by simp
  then have "j \<le> i" by (simp only: nat_mult_less_cancel_disj less_Suc_eq_le)
  then show ?thesis using \<open>x = m * i\<close> \<open>y = m * j\<close> by simp
qed

lemma narrow_route_starts:
  assumes s: "wf_subnet s" and p: "30 < sub_prefix s"
    and a: "contains \<lparr>sub_network = block_network gateway, sub_prefix = 30\<rparr> a" and sa: "contains s a"
  shows "unat (block_network gateway) \<le> unat (sub_network s) \<and> unat (sub_network s) < unat (block_network gateway) + 4"
proof -
  let ?n = "unat (block_network gateway)" and ?m = "2 ^ (32 - sub_prefix s) :: nat"
  have range: "?n \<le> unat a" "unat a < ?n + 4"
    using a contains_iff_range [OF wf_block [of gateway]] by simp_all
  have bounds: "unat (sub_network s) \<le> unat a" "unat a < unat (sub_network s) + ?m"
    using sa by (simp_all add: contains_iff_range [OF s])
  have "?m dvd 4" using p s by (cases "sub_prefix s = 31") (auto simp: wf_subnet_def)
  moreover have "4 dvd ?n" using wf_subnet_aligned [OF wf_block [of gateway]] by simp
  ultimately have "?m dvd ?n" by (rule dvd_trans)
  then have "?n \<le> unat (sub_network s)"
    by (rule aligned_le [OF wf_subnet_aligned [OF s]]) (use bounds range in simp)
  then show ?thesis using bounds range by simp
qed

lemma route_clear_disjoint:
  assumes s: "wf_subnet s" and clear: "route_clear (block_network gateway) s" and p: "sub_prefix s \<noteq> 0"
    and top: "unat (block_network gateway) + 4 < 2 ^ 32"
    and a: "contains \<lparr>sub_network = block_network gateway, sub_prefix = 30\<rparr> a"
  shows "\<not> contains s a"
proof
  assume sa: "contains s a"
  show False
  proof (cases "sub_prefix s \<le> 30")
    case True
    then show False using wide_route_meets [OF s True a sa] clear p by (simp add: route_clear_def)
  next
    case False
    have "unat (block_network gateway + 4) = unat (block_network gateway) + 4" using top by (simp add: unat_word_ariths)
    then show False using narrow_route_starts [OF s _ a sa] False clear p
      by (simp add: route_clear_def word_le_nat_alt word_less_nat_alt)
  qed
qed

text \<open>C9: When the route check passes, the execution's /30 overlaps no route of the host other than
  a default route: no address of the block belongs to the destination of any listed route, so
  bringing the interface up cannot take over traffic that was routed before.\<close>

theorem check_routes_disjoint:
  assumes "check_routes gateway routes = Inr ()" "route \<in> set routes"
    "j_index route ''dst'' = JStr d" "d \<noteq> ''default''" "route_subnet d = Inr s" "sub_prefix s \<noteq> 0"
    "is_private gateway"
  shows "\<not> (contains \<lparr>sub_network = block_network gateway, sub_prefix = 30\<rparr> a \<and> contains s a)"
proof -
  have "route_clear (block_network gateway) s"
    using assms(1-5) unfolding check_routes_def
    by (induction routes) (auto simp: result_simps split: if_splits)
  moreover have "unat (block_network gateway) + 4 < 2 ^ 32"
    using assms(7) by (auto simp: unat_block is_private_iff)
  ultimately show ?thesis
    using route_clear_disjoint [OF route_subnet_wf [OF assms(5)] _ assms(6)] by blast
qed

theorem check_routes_disjoint_witness:
  "check_routes 184418305 [JObj [(''dst'', JStr ''default'')], JObj [(''dst'', JStr ''10.254.0.4/30'')]] = Inr ()
   \<and> \<not> (contains \<lparr>sub_network = block_network 184418305, sub_prefix = 30\<rparr> 184418306
        \<and> contains \<lparr>sub_network = 184418308, sub_prefix = 30\<rparr> 184418306)"
proof -
  have s: "route_subnet ''10.254.0.4/30'' = Inr \<lparr>sub_network = 184418308, sub_prefix = 30\<rparr>"
    by (simp add: route_subnet_def subnet_eval)
  have n: "block_network 184418305 = 184418304"
    by (simp add: word_unat_eq_iff unat_block)
  have ok: "check_routes 184418305 [JObj [(''dst'', JStr ''default'')], JObj [(''dst'', JStr ''10.254.0.4/30'')]] = Inr ()"
    by (simp add: check_routes_def s n route_clear_def contains_eval)
  show ?thesis
    using ok check_routes_disjoint [OF ok _ _ _ s, of "JObj [(''dst'', JStr ''10.254.0.4/30'')]"]
    by (simp add: is_private_iff)
qed

end
