(* ===== verification/Interfaces.thy ===== *)
theory Interfaces
  imports Effects
begin

text \<open>
  The contracts between components, as locales.  Each is interpreted on the model's own
  definitions in the theory of the component that provides the operations.
\<close>

section \<open>A store of records that changes one record at a time\<close>

text \<open>
  \<open>view\<close> is what a reader of the store sees, \<open>put\<close> stores a record under its key and \<open>remove\<close> deletes
  it.  Both may fail; then the change has happened completely or not at all.
\<close>

locale record_store =
  fixes view :: "'w \<Rightarrow> 'k \<Rightarrow> 'c option" and key :: "'r \<Rightarrow> 'k" and enc :: "'r \<Rightarrow> 'c"
    and admissible :: "'r \<Rightarrow> bool" and put remove :: "'r \<Rightarrow> ('w, unit) act"
  assumes put_atomic: "admissible r \<Longrightarrow>
      view (snd (put r w)) = view w \<or> view (snd (put r w)) = (view w)(key r \<mapsto> enc r)"
    and put_ok: "admissible r \<Longrightarrow> put r w = (Inr u, w') \<Longrightarrow> view w' = (view w)(key r \<mapsto> enc r)"
    and remove_atomic: "admissible r \<Longrightarrow>
      view (snd (remove r w)) = view w \<or> view (snd (remove r w)) = (view w)(key r := None)"
    and remove_ok: "admissible r \<Longrightarrow> remove r w = (Inr u, w') \<Longrightarrow> view w' = (view w)(key r := None)"
begin

lemma put_other: "admissible r \<Longrightarrow> k \<noteq> key r \<Longrightarrow> view (snd (put r w)) k = view w k"
  using put_atomic [of r w] by auto

lemma put_get: "admissible r \<Longrightarrow> put r w = (Inr u, w') \<Longrightarrow> view w' (key r) = Some (enc r)"
  using put_ok [of r w u w'] by simp

lemma remove_get: "admissible r \<Longrightarrow> remove r w = (Inr u, w') \<Longrightarrow> view w' (key r) = None"
  using remove_ok [of r w u w'] by simp

lemma put_all:
  assumes "admissible r" "\<And>k c. view w k = Some c \<Longrightarrow> I k c" "I (key r) (enc r)"
    "view (snd (put r w)) k = Some c"
  shows "I k c"
  using put_atomic [OF assms(1), of w] assms(2-) by (auto split: if_splits)

lemma put_unique:
  assumes "admissible r"
    and "\<And>k l c d. view w k = Some c \<Longrightarrow> view w l = Some d \<Longrightarrow> same c d \<Longrightarrow> k = l"
    and "\<And>k c. view w k = Some c \<Longrightarrow> same c (enc r) \<or> same (enc r) c \<Longrightarrow> k = key r"
    and "view (snd (put r w)) k = Some c" "view (snd (put r w)) l = Some d" "same c d"
  shows "k = l"
  using put_atomic [OF assms(1), of w] assms(2-) by (auto split: if_splits)

lemma remove_sub:
  "admissible r \<Longrightarrow> view (snd (remove r w)) k = Some c \<Longrightarrow> view w k = Some c"
  using remove_atomic [of r w] by (auto split: if_splits)

end

section \<open>A consumer of a byte stream\<close>

text \<open>
  \<open>push\<close> gives a consumer some more bytes; it may act on the world, fail, and keep what it cannot decide
  yet.  In the states a client reaches (\<open>ok\<close>) it may not matter where the stream is cut.
\<close>

fun feed :: "('b list \<Rightarrow> 'd \<Rightarrow> ('w, 'd) act) \<Rightarrow> 'b list list \<Rightarrow> 'd \<Rightarrow> ('w, 'd) act" where
  "feed push [] d = ret d"
| "feed push (c # cs) d = seq (push c d) (feed push cs)"

locale chunk_consumer =
  fixes push :: "'b list \<Rightarrow> 'd \<Rightarrow> ('w, 'd) act" and ok :: "'d \<Rightarrow> bool"
  assumes push_Nil: "ok d \<Longrightarrow> push [] d = ret d"
    and push_append: "ok d \<Longrightarrow> push (xs @ ys) d = seq (push xs d) (push ys)"
    and push_keeps: "ok d \<Longrightarrow> push xs d w = (Inr d', w') \<Longrightarrow> ok d'"
begin

lemma feed_concat: "ok d \<Longrightarrow> feed push cs d = push (concat cs) d"
proof (induction cs arbitrary: d)
  case Nil
  then show ?case by (simp add: push_Nil)
next
  case (Cons c cs)
  have "seq (push c d) (feed push cs) w = seq (push c d) (push (concat cs)) w" for w
  proof (cases "push c d w")
    case (Pair r w')
    then show ?thesis using Cons.IH push_keeps [OF Cons.prems] by (cases r) (simp_all add: seq_def)
  qed
  then show ?case using push_append [OF Cons.prems] by (simp add: fun_eq_iff)
qed

lemma feed_same: "ok d \<Longrightarrow> concat cs = concat ds \<Longrightarrow> feed push cs d = feed push ds d"
  by (simp add: feed_concat)

lemma feed_keeps: "ok d \<Longrightarrow> feed push cs d w = (Inr d', w') \<Longrightarrow> ok d'"
  using push_keeps by (simp add: feed_concat)

end

section \<open>A monitor of a trace\<close>

text \<open>
  A monitor reads the events of a run one after another and refuses what must not happen; it takes no
  notice of the events in \<open>ignored\<close>.
\<close>

fun watch :: "('s \<Rightarrow> 'e \<Rightarrow> 's option) \<Rightarrow> 's \<Rightarrow> 'e list \<Rightarrow> 's option" where
  "watch step s [] = Some s"
| "watch step s (e # es) = Option.bind (step s e) (\<lambda>s. watch step s es)"

locale monitor =
  fixes step :: "'s \<Rightarrow> 'e \<Rightarrow> 's option" and ignored :: "'e set"
  assumes ignores: "e \<in> ignored \<Longrightarrow> step s e = Some s"
begin

lemma watch_append: "watch step s (xs @ ys) = Option.bind (watch step s xs) (\<lambda>s. watch step s ys)"
proof (induction xs arbitrary: s)
  case (Cons e xs)
  then show ?case by (cases "step s e") simp_all
qed simp

lemma watch_ignored: "set es \<subseteq> ignored \<Longrightarrow> watch step s es = Some s"
  by (induction es) (simp_all add: ignores)

lemma watch_more: "set es \<subseteq> ignored \<Longrightarrow> watch step s (xs @ es) = watch step s xs"
  by (cases "watch step s xs") (simp_all add: watch_append watch_ignored)

lemma watch_snoc: "watch step s (xs @ [e]) = Option.bind (watch step s xs) (\<lambda>s. step s e)"
  by (cases "watch step s xs") (simp_all add: watch_append split: bind_splits)

end

section \<open>Settings in layers\<close>

text \<open>
  Settings that are merged over each other: in \<open>merge a b\<close> a setting of \<open>b\<close> hides the one of \<open>a\<close>, and a
  setting that \<open>b\<close> does not have stays.
\<close>

locale layered =
  fixes get :: "'c \<Rightarrow> 'v option" and merge :: "'c \<Rightarrow> 'c \<Rightarrow> 'c"
  assumes get_merge: "get (merge a b) = (case get b of None \<Rightarrow> get a | Some v \<Rightarrow> Some v)"
begin

lemma get_foldl: "get (foldl merge a cs) = (case filter (\<lambda>c. get c \<noteq> None) (rev cs) of [] \<Rightarrow> get a | c # _ \<Rightarrow> get c)"
proof (induction cs arbitrary: a)
  case (Cons c cs)
  then show ?case by (cases "filter (\<lambda>c. get c \<noteq> None) (rev cs)") (auto simp: get_merge split: option.split)
qed simp

text \<open>The last layer that has the setting decides.\<close>

lemma last_layer_wins:
  assumes "get c = Some v" "\<forall>d \<in> set ds. get d = None"
  shows "get (foldl merge a (cs @ c # ds)) = Some v"
proof -
  have "filter (\<lambda>c. get c \<noteq> None) (rev ds) = []" using assms(2) by (simp add: filter_empty_conv)
  then show ?thesis unfolding get_foldl using assms(1) by simp
qed

lemma no_layer: "\<forall>d \<in> set cs. get d = None \<Longrightarrow> get (foldl merge a cs) = get a"
proof -
  assume "\<forall>d \<in> set cs. get d = None"
  then have "filter (\<lambda>c. get c \<noteq> None) (rev cs) = []" by (simp add: filter_empty_conv)
  then show ?thesis unfolding get_foldl by simp
qed

end

end
