(* ===== verification/NetworkStore.thy ===== *)
theory NetworkStore
  imports NetworkHost Interfaces
begin

text \<open>
  \<open>src/src/commands/activator/network.rs\<close>: the journal of leases under the state directory, and
  the operations on it (\<open>reserve\<close>, \<open>provision\<close>, \<open>revoke\<close>, \<open>release\<close>, \<open>operate\<close>, \<open>cleanup\<close>).  Saving a
  record is the sequence of system calls the code makes, any of which can fail or be the last
  one the process makes.  The theorems say what holds of the journal and of the host whatever
  the outcomes are.
\<close>

section \<open>Paths\<close>

definition absolute_path :: "path \<Rightarrow> bool" where
  "absolute_path p = (p \<noteq> [] \<and> hd p = ''/'')"

definition ancestors :: "path \<Rightarrow> path list" where
  "ancestors p = rev (filter (\<lambda>q. q \<noteq> []) (prefixes p))"

definition lstat :: "'h world \<Rightarrow> path \<Rightarrow> metadata result" where
  "lstat w p = (case map_of (w_files w) p of Some f \<Rightarrow> Inr (fi_meta f) | None \<Rightarrow> w_lstat w p)"

definition path_exists :: "'h world \<Rightarrow> path \<Rightarrow> bool" where
  "path_exists w p = (case lstat w p of Inr m \<Rightarrow> md_kind m \<noteq> Symlink False | Inl _ \<Rightarrow> False)"

definition protected_entry :: "metadata \<Rightarrow> bool" where
  "protected_entry m =
     ((case md_kind m of Symlink _ \<Rightarrow> False | _ \<Rightarrow> True) \<and> md_uid m = 0
      \<and> (md_mode m AND 0x12 = 0 \<or> (md_kind m = Directory \<and> md_mode m AND 0x200 \<noteq> 0)))"

fun secure_each :: "(path \<Rightarrow> metadata result) \<Rightarrow> path list \<Rightarrow> unit result" where
  "secure_each ls [] = Inr ()"
| "secure_each ls (a # rest) =
     bind_r (with_context (''inspect '' @ join_with ''/'' a) (ls a)) (\<lambda>m.
     bind_r (ensure (protected_entry m)
       (join_with ''/'' a @ '' must be root-owned, non-symlink and protected against entry replacement'')) (\<lambda>_.
     secure_each ls rest))"

definition secure_path :: "(path \<Rightarrow> metadata result) \<Rightarrow> path \<Rightarrow> unit result" where
  "secure_path ls p =
     bind_r (ensure (absolute_path p) ''path must be absolute'') (\<lambda>_. secure_each ls (ancestors p))"

definition secure :: "path \<Rightarrow> ('h, unit) io" where
  "secure p = (\<lambda>w. (secure_path (lstat w) p, w))"

definition open_secure :: "path \<Rightarrow> ('h, file_content) io" where
  "open_secure p =
     seq (secure p) (\<lambda>_.
     seq (syscall (\<lambda>w. case map_of (w_files w) p of
            Some f \<Rightarrow> if (case md_kind (fi_meta f) of Symlink _ \<Rightarrow> True | _ \<Rightarrow> False)
                      then (Inl os_error, w) else (Inr f, w)
          | None \<Rightarrow> (Inl os_error, w))) (\<lambda>f.
     seq (check (md_kind (fi_meta f) = Regular \<and> md_uid (fi_meta f) = 0 \<and> md_mode (fi_meta f) AND 0x12 = 0)
       (''untrusted regular file '' @ join_with ''/'' p)) (\<lambda>_.
     ret (fi_content f))))"

definition private_directory :: metadata where
  "private_directory = \<lparr>md_kind = Directory, md_uid = 0, md_mode = 0x1C0\<rparr>"

definition private_file :: metadata where
  "private_file = \<lparr>md_kind = Regular, md_uid = 0, md_mode = 0x180\<rparr>"

text \<open>\<open>DirBuilder::recursive(true)\<close>: missing directories are created from the root downwards.\<close>

definition make_directories :: "path \<Rightarrow> ('h, unit) io" where
  "make_directories p = (\<lambda>w.
     let missing = filter (\<lambda>q. \<not> path_exists w q) (ancestors p);
         present = filter (path_exists w) (ancestors p) in
     if list_all (\<lambda>q. case lstat w q of Inr m \<Rightarrow> md_kind m \<in> {Directory, Symlink True} | Inl _ \<Rightarrow> False) present
     then (Inr (), w\<lparr>w_lstat := (\<lambda>q. if q \<in> set missing then Inr private_directory else w_lstat w q)\<rparr>)
     else (Inl os_error, w))"

definition create_private_directory :: "path \<Rightarrow> ('h, unit) io" where
  "create_private_directory p =
     seq (gets (\<lambda>w. find (path_exists w) (ancestors p))) (\<lambda>found.
     seq (lift_r (ok_or ''directory has no existing ancestor'' found)) (\<lambda>ancestor.
     seq (secure ancestor) (\<lambda>_.
     seq (syscall (make_directories p)) (\<lambda>_.
     seq (secure p) (\<lambda>_.
     seq (\<lambda>w. (lstat w p, w)) (\<lambda>m.
     check (md_kind m = Directory \<and> md_mode m AND 0x3F = 0)
       ''state directory must be private (0700)''))))))"

section \<open>Locks\<close>

text \<open>
  \<open>flock\<close> returns \<open>False\<close> when another process holds the lock and the call does not block; a call
  that blocks returns once the other process has let go of it.
\<close>

definition flock :: "path \<Rightarrow> bool \<Rightarrow> ('h, bool) io" where
  "flock p nonblocking = syscall (\<lambda>w.
     if p \<in> set (w_busy w) then
       (if nonblocking then (Inr False, w) else (Inr True, w\<lparr>w_busy := removeAll p (w_busy w)\<rparr>))
     else (Inr True, w))"

definition open_lock :: "path \<Rightarrow> ('h, metadata) io" where
  "open_lock p = syscall (\<lambda>w.
     case lstat w p of
       Inr m \<Rightarrow> (case md_kind m of Symlink _ \<Rightarrow> (Inl os_error, w) | _ \<Rightarrow> (Inr m, w))
     | Inl _ \<Rightarrow> (Inr private_file, w\<lparr>w_lstat := (w_lstat w)(p := Inr private_file)\<rparr>))"

definition lock_file :: "path \<Rightarrow> bool \<Rightarrow> ('h, bool) io" where
  "lock_file p nonblocking =
     seq (open_lock p) (\<lambda>m.
     seq (check (md_kind m = Regular \<and> md_uid m = 0 \<and> md_mode m AND 0x3F = 0) ''untrusted lock file'') (\<lambda>_.
     flock p nonblocking))"

section \<open>The store\<close>

record store =
  st_policy :: policy
  st_instance :: string
  st_directory :: path

definition store_policy :: "bool \<Rightarrow> path \<Rightarrow> ('h, policy) io" where
  "store_policy root path =
     seq (check root ''network operations require root'') (\<lambda>_.
     seq (open_secure path) (\<lambda>c.
     lift_r (case c of PolicyRecord f \<Rightarrow> validate_policy f | _ \<Rightarrow> Inl (Msg ''invalid policy file''))))"

definition state_path :: "policy \<Rightarrow> path" where
  "state_path p = components (state_directory p)"

definition store_open :: "policy \<Rightarrow> string \<Rightarrow> ('h, store) io" where
  "store_open p inst =
     seq (check (inst \<in> set (garden_units p)) ''instance is not a configured garden service'') (\<lambda>_.
     seq (create_private_directory (state_path p)) (\<lambda>_.
     seq (create_private_directory (state_path p @ [inst])) (\<lambda>_.
     ret \<lparr>st_policy = p, st_instance = inst, st_directory = state_path p @ [inst]\<rparr>)))"

definition ownership_directory :: path where
  "ownership_directory = [''/'', ''run'', ''sower-network-ownership'']"

definition global_lock :: "('h, unit) io" where
  "global_lock =
     seq (create_private_directory ownership_directory) (\<lambda>_.
     seq (lock_file (ownership_directory @ [''namespace.lock'']) False) (\<lambda>got.
     check got ''allocation lock unavailable''))"

definition lock_bucket :: "8 word list \<Rightarrow> 16 word" where
  "lock_bucket hash = (word_cat (hash ! 0) (hash ! 1) :: 16 word) AND 0x3fff"

definition execution_lock :: "'h tools \<Rightarrow> store \<Rightarrow> string \<Rightarrow> bool \<Rightarrow> ('h, bool) io" where
  "execution_lock T S execution nonblocking =
     lock_file (st_directory S @ [''execution-'' @ hex_pad 4 (unat (lock_bucket (sha256 T execution))) @ ''.lock''])
       nonblocking"

section \<open>Reading the journal\<close>

definition extension :: "string \<Rightarrow> string option" where
  "extension name = (case rsplit_once CHR ''.'' name of
     Some (stem, e) \<Rightarrow> if stem = [] then None else Some e | None \<Rightarrow> None)"

definition file_stem :: "string \<Rightarrow> string" where
  "file_stem name = (case rsplit_once CHR ''.'' name of
     Some (stem, e) \<Rightarrow> if stem = [] then name else stem | None \<Rightarrow> name)"

definition as_lease :: "file_content \<Rightarrow> lease result" where
  "as_lease c = (case c of LeaseRecord l \<Rightarrow> Inr l | _ \<Rightarrow> Inl (Msg ''invalid lease record''))"

definition read_directory :: "path \<Rightarrow> ('h, string list) io" where
  "read_directory d = syscall (\<lambda>w.
     (Inr (map last (filter (\<lambda>p. p \<noteq> [] \<and> butlast p = d) (map fst (w_files w)))), w))"

fun read_entries :: "path \<Rightarrow> string list \<Rightarrow> ('h, lease list) io" where
  "read_entries d [] = ret []"
| "read_entries d (name # names) =
     (if extension name \<noteq> Some ''json'' then read_entries d names
      else
        seq (open_secure (d @ [name])) (\<lambda>c.
        seq (lift_r (with_context ''read allocation journal'' (as_lease c))) (\<lambda>l.
        seq (lift_r (validate_lease l)) (\<lambda>_.
        seq (check (file_stem name = l_lease l \<and> last d = l_instance l)
          ''journal filename or instance mismatch'') (\<lambda>_.
        seq (read_entries d names) (\<lambda>ls.
        ret (l # ls)))))))"

definition records_in :: "path \<Rightarrow> ('h, lease list) io" where
  "records_in d =
     seq (gets (\<lambda>w. path_exists w d)) (\<lambda>exists.
     if \<not> exists then ret []
     else
       seq (secure d) (\<lambda>_.
       seq (read_directory d) (\<lambda>names.
       read_entries d names)))"

fun records_of :: "path \<Rightarrow> string list \<Rightarrow> ('h, lease list) io" where
  "records_of d [] = ret []"
| "records_of d (unit # units) =
     seq (records_in (d @ [unit])) (\<lambda>ls.
     seq (records_of d units) (\<lambda>rest.
     ret (ls @ rest)))"

definition all_records :: "store \<Rightarrow> ('h, lease list) io" where
  "all_records S =
     seq (records_of (state_path (st_policy S)) (garden_units (st_policy S))) (\<lambda>ls.
     seq (check (distinct (map l_slot ls)) ''duplicate journal allocation slot'') (\<lambda>_.
     ret ls))"

definition json_path :: "store \<Rightarrow> string \<Rightarrow> path" where
  "json_path S token = st_directory S @ [token @ ''.json'']"

definition temp_path :: "store \<Rightarrow> string \<Rightarrow> path" where
  "temp_path S token = st_directory S @ [token @ ''.tmp'']"

definition load :: "store \<Rightarrow> string \<Rightarrow> ('h, lease option) io" where
  "load S token =
     seq (check (valid_token token) ''invalid lease token'') (\<lambda>_.
     seq (gets (\<lambda>w. path_exists w (json_path S token))) (\<lambda>exists.
     if \<not> exists then ret None
     else
       seq (open_secure (json_path S token)) (\<lambda>c.
       seq (lift_r (as_lease c)) (\<lambda>l.
       seq (lift_r (validate_lease l)) (\<lambda>_.
       seq (check (l_lease l = token \<and> l_instance l = st_instance S) ''journal ownership mismatch'') (\<lambda>_.
       ret (Some l)))))))"

section \<open>Writing the journal\<close>

definition open_truncated :: "path \<Rightarrow> ('h, unit) io" where
  "open_truncated p = (\<lambda>w.
     if \<not> path_exists w (butlast p) then (Inl os_error, w) else
     case lstat w p of
       Inr m \<Rightarrow> (if md_kind m = Regular
                 then (Inr (), w\<lparr>w_files := AList.update p \<lparr>fi_meta = m, fi_content = Garbage\<rparr> (w_files w)\<rparr>)
                 else (Inl os_error, w))
     | Inl _ \<Rightarrow> (Inr (), w\<lparr>w_files := AList.update p \<lparr>fi_meta = private_file, fi_content = Garbage\<rparr> (w_files w)\<rparr>))"

definition write_lease :: "path \<Rightarrow> lease \<Rightarrow> ('h, unit) io" where
  "write_lease p l = (\<lambda>w.
     case map_of (w_files w) p of
       Some f \<Rightarrow> (Inr (), w\<lparr>w_files := AList.update p (f\<lparr>fi_content := LeaseRecord l\<rparr>) (w_files w)\<rparr>)
     | None \<Rightarrow> (Inl os_error, w))"

definition rename_file :: "path \<Rightarrow> path \<Rightarrow> ('h, unit) io" where
  "rename_file p q = (\<lambda>w.
     case map_of (w_files w) p of
       Some f \<Rightarrow> (Inr (), w\<lparr>w_files := AList.update q f (AList.delete p (w_files w))\<rparr>)
     | None \<Rightarrow> (Inl os_error, w))"

definition remove_file :: "path \<Rightarrow> ('h, unit) io" where
  "remove_file p = (\<lambda>w.
     case map_of (w_files w) p of
       Some f \<Rightarrow> (Inr (), w\<lparr>w_files := AList.delete p (w_files w)\<rparr>)
     | None \<Rightarrow> (Inl os_error, w))"

definition save :: "store \<Rightarrow> lease \<Rightarrow> ('h, unit) io" where
  "save S l =
     seq (syscall (open_truncated (temp_path S (l_lease l)))) (\<lambda>_.
     seq (syscall (write_lease (temp_path S (l_lease l)) l)) (\<lambda>_.
     seq (syscall (ret ())) (\<lambda>_.
     seq (syscall (ret ())) (\<lambda>_.
     seq (syscall (rename_file (temp_path S (l_lease l)) (json_path S (l_lease l)))) (\<lambda>_.
     seq (syscall (ret ())) (\<lambda>_.
     syscall (ret ())))))))"

definition lease_output :: "policy \<Rightarrow> lease \<Rightarrow> json" where
  "lease_output p l = JObj
     [(''lease'', JStr (l_lease l)), (''tap'', JStr (l_tap l)), (''mac'', JStr (l_mac l)),
      (''address'', JStr (show_ipv4 (l_address l) @ ''/30'')), (''gateway'', JStr (show_ipv4 (l_gateway l))),
      (''dns'', JStr (show_ipv4 (dns p)))]"

section \<open>Operations\<close>

definition process_starttime :: "int \<Rightarrow> ('h, nat) io" where
  "process_starttime pid = (\<lambda>w. (bind_r (w_stat w pid) parse_starttime, w))"

definition draw16 :: "('h, 8 word list) io" where
  "draw16 = syscall (\<lambda>w. (Inr (map (\<lambda>i. w_urandom w (w_drawn w + i)) [0..<16]), w\<lparr>w_drawn := w_drawn w + 16\<rparr>))"

definition free_slot :: "policy \<Rightarrow> lease list \<Rightarrow> nat option" where
  "free_slot p ls = find (\<lambda>n. word_of_nat n \<notin> l_slot ` set ls) [0..<unat (slots p)]"

definition new_lease :: "store \<Rightarrow> owner \<Rightarrow> string \<Rightarrow> u32 \<Rightarrow> ipv4 \<Rightarrow> ipv4 \<Rightarrow> 8 word list \<Rightarrow> lease" where
  "new_lease S own execution slot gateway address random =
     \<lparr>l_lease = token_of (map unat random), l_slot = slot, l_tap = tap_name slot,
      l_mac = mac_of (map unat random), l_host_mac = None, l_address = address, l_gateway = gateway,
      l_instance = st_instance S, l_owner_uid = peer_uid (o_peer own), l_owner_pid = peer_pid (o_peer own),
      l_owner_starttime = o_starttime own, l_execution_id = execution, l_phase = Reserved\<rparr>"

definition reserve :: "store \<Rightarrow> owner \<Rightarrow> string \<Rightarrow> ('h, lease) io" where
  "reserve S own execution =
     seq global_lock (\<lambda>_.
     seq (attempt (process_starttime (peer_pid (o_peer own)))) (\<lambda>start.
     seq (check (start = Inr (o_starttime own)) ''garden owner exited before allocation'') (\<lambda>_.
     seq (all_records S) (\<lambda>ls.
     seq (check (\<not> list_ex (\<lambda>l. l_instance l = st_instance S \<and> l_execution_id l = execution) ls)
       ''execution already has an allocation'') (\<lambda>_.
     seq (lift_r (ok_or ''network address pool exhausted (including quarantined allocations)''
       (free_slot (st_policy S) ls))) (\<lambda>slot.
     seq (lift_r (addresses (st_policy S) (word_of_nat slot))) (\<lambda>(gateway, address).
     seq draw16 (\<lambda>random.
     seq (check (\<not> list_ex (\<lambda>l. l_lease l = token_of (map unat random)) ls) ''lease identifier collision'') (\<lambda>_.
     seq (ret (new_lease S own execution (word_of_nat slot) gateway address random)) (\<lambda>l.
     seq (save S l) (\<lambda>_.
     ret l)))))))))))"

text \<open>\<open>revoke\<close> and \<open>release\<close> act on the lease in \<open>w_cur\<close>.\<close>

definition revoke :: "'h tools \<Rightarrow> store \<Rightarrow> ('h, unit) io" where
  "revoke T S =
     seq cur (\<lambda>l.
     if l_phase l = Reserved then ret ()
     else
       seq (set_cur (l\<lparr>l_phase := Revoked\<rparr>)) (\<lambda>_.
       seq (attempt (save S (l\<lparr>l_phase := Revoked\<rparr>))) (\<lambda>saved.
       seq (attempt (set_down T (l\<lparr>l_phase := Revoked\<rparr>))) (\<lambda>down.
       seq (attempt (install_guard T (st_policy S) [l\<lparr>l_phase := Revoked\<rparr>])) (\<lambda>guard.
       seq (lift_r saved) (\<lambda>_.
       seq (lift_r down) (\<lambda>_.
       lift_r guard)))))))"

definition unlink_lease :: "store \<Rightarrow> string \<Rightarrow> ('h, unit) io" where
  "unlink_lease S token =
     seq global_lock (\<lambda>_.
     seq (syscall (remove_file (json_path S token))) (\<lambda>_.
     seq (gets (\<lambda>w. path_exists w (temp_path S token))) (\<lambda>exists.
     seq (if exists then syscall (remove_file (temp_path S token)) else ret ()) (\<lambda>_.
     seq (syscall (ret ())) (\<lambda>_.
     syscall (ret ()))))))"

definition release :: "'h tools \<Rightarrow> store \<Rightarrow> ('h, unit) io" where
  "release T S =
     seq cur (\<lambda>l.
     seq (check (l_phase l = Reserved \<or> l_phase l = Revoked) ''lease must be revoked before release'') (\<lambda>_.
     seq (if l_phase l = Reserved then ret (Inr ()) else attempt (remove_resources T l)) (\<lambda>removed.
     case removed of
       Inl e \<Rightarrow>
         seq (set_cur (l\<lparr>l_phase := Quarantined\<rparr>)) (\<lambda>_.
         seq (save S (l\<lparr>l_phase := Quarantined\<rparr>)) (\<lambda>_.
         lift_r (Inl e)))
     | Inr _ \<Rightarrow> unlink_lease S (l_lease l))))"

definition prepare_host :: "'h tools \<Rightarrow> store \<Rightarrow> ('h, unit) io" where
  "prepare_host T S =
     seq cur (\<lambda>l.
     seq (require_available_subnet T (l_gateway l)) (\<lambda>_.
     seq (links T) (\<lambda>ls.
     seq (check (\<not> name_taken (l_tap l) ls) ''interface name is already occupied'') (\<lambda>_.
     seq (set_cur (l\<lparr>l_phase := Allocated\<rparr>)) (\<lambda>_.
     seq (save S (l\<lparr>l_phase := Allocated\<rparr>)) (\<lambda>_.
     seq (install_guard T (st_policy S) [l\<lparr>l_phase := Allocated\<rparr>]) (\<lambda>_.
     seq (purge_connections T (l\<lparr>l_phase := Allocated\<rparr>)) (\<lambda>_.
     seq (create_tap T) (\<lambda>_.
     seq cur (\<lambda>l2.
     seq (save S l2) (\<lambda>_.
     seq (install_ingress T l2) (\<lambda>_.
     seq (set_cur (l2\<lparr>l_phase := Active\<rparr>)) (\<lambda>_.
     seq (save S (l2\<lparr>l_phase := Active\<rparr>)) (\<lambda>_.
     seq (install_guard T (st_policy S) [l2\<lparr>l_phase := Active\<rparr>]) (\<lambda>_.
     set_up T (l2\<lparr>l_phase := Active\<rparr>))))))))))))))))"

definition revoke_and_release :: "'h tools \<Rightarrow> store \<Rightarrow> ('h, unit) io" where
  "revoke_and_release T S = seq (revoke T S) (\<lambda>_. release T S)"

definition provision_end :: "'h tools \<Rightarrow> store \<Rightarrow> unit result \<Rightarrow> ('h, string) io" where
  "provision_end T S outcome =
     (case outcome of
        Inl e \<Rightarrow>
          seq (attempt (revoke_and_release T S)) (\<lambda>_.
          lift_r (Inl (Context ''network provisioning failed'' e)))
      | Inr _ \<Rightarrow> seq cur (\<lambda>l. ret (print_json T (lease_output (st_policy S) l))))"

definition provision :: "'h tools \<Rightarrow> store \<Rightarrow> owner \<Rightarrow> string \<Rightarrow> ('h, string) io" where
  "provision T S own execution =
     seq (lift_r (validate_execution execution)) (\<lambda>_.
     seq (execution_lock T S execution False) (\<lambda>got.
     seq (check got ''execution lock unavailable'') (\<lambda>_.
     seq global_lock (\<lambda>_.
     seq (records_in (st_directory S)) (\<lambda>ls.
     case find (\<lambda>l. l_execution_id l = execution) ls of
       Some l \<Rightarrow>
         seq (lift_r (require_owner l own)) (\<lambda>_.
         seq (check (l_phase l = Active) ''execution has an incomplete allocation; cleanup required'') (\<lambda>_.
         ret (print_json T (lease_output (st_policy S) l))))
     | None \<Rightarrow>
         seq (reserve S own execution) (\<lambda>l.
         seq (set_cur l) (\<lambda>_.
         seq (attempt (prepare_host T S)) (provision_end T S))))))))"

definition take_down :: "'h tools \<Rightarrow> store \<Rightarrow> bool \<Rightarrow> lease \<Rightarrow> ('h, unit) io" where
  "take_down T S rel l =
     seq (set_cur l) (\<lambda>_.
     if rel then
       seq (check (l_phase l \<in> {Reserved, Revoked, Quarantined}) ''lease must be revoked before release'') (\<lambda>_.
       revoke_and_release T S)
     else revoke T S)"

definition operate_again :: "'h tools \<Rightarrow> store \<Rightarrow> owner \<Rightarrow> string \<Rightarrow> bool \<Rightarrow> ('h, unit) io" where
  "operate_again T S own token rel =
     seq global_lock (\<lambda>_.
     seq (load S token) (\<lambda>again.
     case again of
       None \<Rightarrow> ret ()
     | Some l \<Rightarrow> seq (lift_r (require_owner l own)) (\<lambda>_. take_down T S rel l)))"

definition operate :: "'h tools \<Rightarrow> store \<Rightarrow> owner \<Rightarrow> string \<Rightarrow> bool \<Rightarrow> ('h, unit) io" where
  "operate T S own token rel =
     seq global_lock (\<lambda>_.
     seq (load S token) (\<lambda>found.
     case found of
       None \<Rightarrow> ret ()
     | Some l \<Rightarrow>
         seq (lift_r (require_owner l own)) (\<lambda>_.
         seq (execution_lock T S (l_execution_id l) False) (\<lambda>got.
         seq (check got ''execution lock unavailable'') (\<lambda>_.
         operate_again T S own token rel)))))"

definition cleanup_found :: "'h tools \<Rightarrow> store \<Rightarrow> bool \<Rightarrow> lease \<Rightarrow> ('h, string list) io" where
  "cleanup_found T S root_hook l =
     seq (attempt (process_starttime (l_owner_pid l))) (\<lambda>start.
     if \<not> root_hook \<and> l_phase l = Active \<and> start = Inr (l_owner_starttime l) then ret []
     else
       seq (set_cur l) (\<lambda>_.
       seq (attempt (revoke_and_release T S)) (\<lambda>outcome.
       ret (case outcome of Inl e \<Rightarrow> [l_lease l @ '': '' @ error_chain e] | Inr _ \<Rightarrow> []))))"

definition cleanup_one :: "'h tools \<Rightarrow> store \<Rightarrow> bool \<Rightarrow> lease \<Rightarrow> ('h, string list) io" where
  "cleanup_one T S root_hook old =
     seq (execution_lock T S (l_execution_id old) True) (\<lambda>got.
     if \<not> got then ret (if root_hook then [l_lease old @ '': operation is active''] else [])
     else
       seq global_lock (\<lambda>_.
       seq (load S (l_lease old)) (\<lambda>found.
       case found of None \<Rightarrow> ret [] | Some l \<Rightarrow> cleanup_found T S root_hook l)))"

fun cleanup_each :: "'h tools \<Rightarrow> store \<Rightarrow> bool \<Rightarrow> lease list \<Rightarrow> ('h, string list) io" where
  "cleanup_each T S root_hook [] = ret []"
| "cleanup_each T S root_hook (l # ls) =
     seq (cleanup_one T S root_hook l) (\<lambda>f.
     seq (cleanup_each T S root_hook ls) (\<lambda>fs.
     ret (f @ fs)))"

definition store_cleanup :: "'h tools \<Rightarrow> store \<Rightarrow> bool \<Rightarrow> ('h, unit) io" where
  "store_cleanup T S root_hook =
     seq global_lock (\<lambda>_.
     seq (records_in (st_directory S)) (\<lambda>ls.
     seq (cleanup_each T S root_hook ls) (\<lambda>failures.
     check (failures = []) (''network cleanup incomplete: '' @ join_with ''; '' failures))))"

section \<open>The journal as a map\<close>

definition json_file :: "path \<Rightarrow> bool" where
  "json_file p = (p \<noteq> [] \<and> extension (last p) = Some ''json'')"

definition journal :: "'h world \<Rightarrow> path \<Rightarrow> file_content option" where
  "journal w p = (if json_file p then map_option fi_content (map_of (w_files w) p) else None)"

definition in_state :: "policy \<Rightarrow> path \<Rightarrow> bool" where
  "in_state P p = (\<exists>u \<in> set (garden_units P). \<exists>name. p = state_path P @ [u, name])"

definition leases :: "policy \<Rightarrow> 'h world \<Rightarrow> path \<Rightarrow> lease option" where
  "leases P w p = (if in_state P p then
     (case journal w p of Some (LeaseRecord l) \<Rightarrow> Some l | _ \<Rightarrow> None) else None)"

definition lease_path :: "policy \<Rightarrow> lease \<Rightarrow> path" where
  "lease_path P l = state_path P @ [l_instance l, l_lease l @ ''.json'']"

definition directories_exist :: "policy \<Rightarrow> 'h world \<Rightarrow> bool" where
  "directories_exist P w = (\<forall>u \<in> set (garden_units P). \<forall>name.
     map_of (w_files w) (state_path P @ [u, name]) \<noteq> None \<longrightarrow> path_exists w (state_path P @ [u]))"

definition journal_ok :: "policy \<Rightarrow> 'h world \<Rightarrow> bool" where
  "journal_ok P w \<longleftrightarrow>
     (\<forall>p c. in_state P p \<longrightarrow> journal w p = Some c \<longrightarrow>
        (\<exists>l. c = LeaseRecord l \<and> wf_lease l \<and> p = lease_path P l))
     \<and> (\<forall>p q l m. leases P w p = Some l \<longrightarrow> leases P w q = Some m \<longrightarrow> l_slot l = l_slot m \<longrightarrow> p = q)
     \<and> directories_exist P w"

definition wf_store :: "store \<Rightarrow> bool" where
  "wf_store S \<longleftrightarrow> wf_policy (st_policy S) \<and> st_instance S \<in> set (garden_units (st_policy S))
     \<and> st_directory S = state_path (st_policy S) @ [st_instance S]"

lemma extension_json: "t \<noteq> [] \<Longrightarrow> extension (t @ ''.json'') = Some ''json''"
proof -
  assume "t \<noteq> []"
  moreover have "rsplit_once CHR ''.'' (t @ ''.json'') = Some (t, ''json'')"
    by (simp add: rsplit_once_Some_iff)
  ultimately show ?thesis by (simp add: extension_def)
qed

lemma extension_tmp: "extension (t @ ''.tmp'') \<noteq> Some ''json''"
proof -
  have "rsplit_once CHR ''.'' (t @ ''.tmp'') = Some (t, ''tmp'')"
    by (simp add: rsplit_once_Some_iff)
  then show ?thesis by (simp add: extension_def)
qed

lemma extension_stem: "extension name = Some e \<Longrightarrow> name = file_stem name @ CHR ''.'' # e"
  by (cases "rsplit_once CHR ''.'' name")
    (auto simp: extension_def file_stem_def rsplit_once_Some_iff split: if_splits)

lemma temp_not_json [simp]: "\<not> json_file (temp_path S t)"
  by (simp add: json_file_def temp_path_def extension_tmp)

lemma valid_token_not_Nil: "valid_token t \<Longrightarrow> t \<noteq> []"
  by (auto simp: valid_token_def)

lemma json_is_json: "valid_token t \<Longrightarrow> json_file (json_path S t)"
  by (simp add: json_file_def json_path_def extension_json valid_token_not_Nil)

lemma json_in_state: "wf_store S \<Longrightarrow> in_state (st_policy S) (json_path S t)"
  by (auto simp: wf_store_def in_state_def json_path_def)

lemma lease_path_json:
  "wf_store S \<Longrightarrow> l_instance l = st_instance S \<Longrightarrow> lease_path (st_policy S) l = json_path S (l_lease l)"
  by (simp add: wf_store_def lease_path_def json_path_def)

lemma leases_journal:
  "leases P w p = Some l \<longleftrightarrow> in_state P p \<and> journal w p = Some (LeaseRecord l)"
  by (auto simp: leases_def split: option.splits file_content.splits)

lemma leases_ok:
  "journal_ok P w \<Longrightarrow> leases P w p = Some l \<Longrightarrow> wf_lease l \<and> p = lease_path P l \<and> in_state P p"
  unfolding journal_ok_def leases_journal by blast

section \<open>Steps that leave the journal alone\<close>

text \<open>
  \<open>has\<close> tells which interfaces exist on the host.  A step that stays in \<open>quiet P has X\<close> changes no
  journal file, removes none of the instance directories and creates no interface outside \<open>X\<close>.
\<close>

definition quiet :: "policy \<Rightarrow> ('h \<Rightarrow> string \<Rightarrow> bool) \<Rightarrow> string set \<Rightarrow> 'h world \<Rightarrow> 'h world \<Rightarrow> bool" where
  "quiet P has X w w' \<longleftrightarrow>
     journal w' = journal w \<and> w_cur w' = w_cur w \<and> w_stat w' = w_stat w
     \<and> (directories_exist P w \<longrightarrow> directories_exist P w')
     \<and> (\<forall>n. has (w_host w') n \<longrightarrow> has (w_host w) n \<or> n \<in> X)"

interpretation quiet: step_preorder "quiet P has X" for P has X
  by unfold_locales (auto simp: quiet_def)

lemma syscall_moves:
  assumes "moves R eff" "\<And>w os d. R w (w\<lparr>w_script := os, w_dead := d\<rparr>)" "\<And>u v w. R u v \<Longrightarrow> R v w \<Longrightarrow> R u w"
  shows "moves R (syscall eff)"
  unfolding moves_def
proof
  fix w :: "'a world"
  have s: "R w (w\<lparr>w_script := os\<rparr>)" for os using assms(2) [of w "w_dead w" os] by simp
  have e: "R v (snd (eff v))" for v using assms(1) by (simp add: moves_def)
  have r: "R w w" using assms(2) [of w "w_dead w" "w_script w"] by simp
  show "R w (snd (syscall eff w))"
    using r e assms(2) [of w True] assms(3) [OF s e] s
    by (auto simp: syscall_def split: list.splits outcome.splits)
qed

lemma lstat_script [simp]: "lstat (w\<lparr>w_script := os, w_dead := d\<rparr>) = lstat w"
  "lstat (w\<lparr>w_script := os\<rparr>) = lstat w"
  by (simp_all add: lstat_def fun_eq_iff split: option.split)

lemma path_exists_script [simp]: "path_exists (w\<lparr>w_script := os, w_dead := d\<rparr>) = path_exists w"
  "path_exists (w\<lparr>w_script := os\<rparr>) = path_exists w"
  by (simp_all add: path_exists_def fun_eq_iff)

lemma quiet_syscall: "moves (quiet P has X) eff \<Longrightarrow> moves (quiet P has X) (syscall eff)"
  by (erule syscall_moves) (auto simp: quiet_def journal_def directories_exist_def fun_eq_iff)

lemma lstat_host [simp]: "lstat (w\<lparr>w_host := h, w_log := g\<rparr>) = lstat w"
  by (simp add: lstat_def fun_eq_iff split: option.split)

lemma path_exists_host [simp]: "path_exists (w\<lparr>w_host := h, w_log := g\<rparr>) = path_exists w"
  by (simp add: path_exists_def fun_eq_iff)

text \<open>What the proofs need of \<open>ip\<close>, \<open>udevadm\<close>, \<open>conntrack\<close> and \<open>nft\<close>: only \<open>ip tuntap add dev n\<close>
  creates an interface \<open>n\<close>, and a successful \<open>ip --json link show\<close> lists every interface.\<close>

definition links_args :: "string list" where
  "links_args = [''--json'', ''link'', ''show'']"

definition host_laws :: "'h tools \<Rightarrow> ('h \<Rightarrow> string \<Rightarrow> bool) \<Rightarrow> bool" where
  "host_laws T has \<longleftrightarrow>
     (\<forall>prog args h n. has (snd (run_tool T prog args h)) n \<longrightarrow>
        has h n \<or> (prog = ''ip'' \<and> take 4 args = [''tuntap'', ''add'', ''dev'', n]))
     \<and> (\<forall>script h n. has (snd (run_nft T script h)) n \<longrightarrow> has h n)
     \<and> (\<forall>h ls n. t_success (fst (run_tool T ''ip'' links_args h)) \<longrightarrow>
          parse_json T (t_stdout (fst (run_tool T ''ip'' links_args h))) = Inr (JArr ls) \<longrightarrow>
          has (snd (run_tool T ''ip'' links_args h)) n \<longrightarrow> name_taken n ls)"

lemma quiet_command:
  assumes "host_laws T has" "prog = ''ip'' \<Longrightarrow> take 2 args = [''tuntap'', ''add''] \<Longrightarrow> 3 < length args \<and> args ! 3 \<in> X"
  shows "moves (quiet P has X) (command T prog args)"
proof -
  have "take 4 args = [''tuntap'', ''add'', ''dev'', n] \<Longrightarrow> take 2 args = [''tuntap'', ''add''] \<and> args ! 3 = n" for n
    by (cases args; cases "tl args"; cases "tl (tl args)"; cases "tl (tl (tl args))") auto
  with assms have "has (snd (run_tool T prog args h)) n \<Longrightarrow> has h n \<or> n \<in> X" for h n
    unfolding host_laws_def by blast
  then show ?thesis
    unfolding command_def
    by (intro quiet.moves_rules quiet_syscall)
      (auto simp: moves_def quiet_def journal_def directories_exist_def fun_eq_iff split: prod.splits)
qed

lemma quiet_nft:
  assumes "host_laws T has" shows "moves (quiet P has X) (nft T script)"
proof -
  have "has (snd (run_nft T script h)) n \<Longrightarrow> has h n" for h n
    using assms unfolding host_laws_def by blast
  then show ?thesis
    unfolding nft_def
    by (intro quiet.moves_rules quiet_syscall)
      (auto simp: moves_def quiet_def journal_def directories_exist_def fun_eq_iff split: prod.splits)
qed

lemmas host_defs = table_exists_def install_guard_def require_available_subnet_def links_def
  install_ingress_def set_up_def set_down_def purge_selector_def purge_connections_def deletion_def
  remove_resources_def

lemmas quiet_rules = quiet.moves_rules quiet_syscall quiet_nft

lemma quiet_host_calls:
  assumes "host_laws T has"
  shows "moves (quiet P has X) (table_exists T f n)" "moves (quiet P has X) (links T)"
    "moves (quiet P has X) (set_down T l)" "moves (quiet P has X) (set_up T l)"
    "moves (quiet P has X) (install_ingress T l)" "moves (quiet P has X) (purge_connections T l)"
    "moves (quiet P has X) (require_available_subnet T g)" "moves (quiet P has X) (deletion T f n)"
  using assms by (auto simp: host_defs intro!: quiet_rules quiet_command)

lemma quiet_install_guard: "host_laws T has \<Longrightarrow> moves (quiet P has X) (install_guard T p ls)"
  unfolding install_guard_def
  by (cases ls) (auto intro!: quiet_rules quiet_host_calls)

lemma quiet_remove_resources: "host_laws T has \<Longrightarrow> moves (quiet P has X) (remove_resources T l)"
  unfolding remove_resources_def by (auto intro!: quiet_rules quiet_host_calls quiet_command)

lemma path_exists_other:
  assumes "map_of fs d = map_of (w_files w) d"
  shows "path_exists (w\<lparr>w_files := fs\<rparr>) d = path_exists w d"
  using assms by (simp add: path_exists_def lstat_def split: option.split)

lemma path_exists_more:
  assumes "path_exists w p" "\<And>q m. w_lstat w q = Inr m \<Longrightarrow> ls q = Inr m \<or> path_exists (w\<lparr>w_lstat := ls\<rparr>) q"
  shows "path_exists (w\<lparr>w_lstat := ls\<rparr>) p"
proof (cases "map_of (w_files w) p")
  case None
  with assms(1) obtain m where m: "w_lstat w p = Inr m" "md_kind m \<noteq> Symlink False"
    by (auto simp: path_exists_def lstat_def split: sum.splits)
  show ?thesis using assms(2) [OF m(1)]
  proof
    assume "ls p = Inr m"
    with None m(2) show ?thesis by (simp add: path_exists_def lstat_def)
  qed
next
  case (Some f)
  with assms(1) show ?thesis by (simp add: path_exists_def lstat_def)
qed

lemma quiet_lstat:
  assumes "\<And>p. path_exists w p \<Longrightarrow> path_exists (w\<lparr>w_lstat := ls\<rparr>) p"
  shows "quiet P has X w (w\<lparr>w_lstat := ls\<rparr>)"
  using assms by (auto simp: quiet_def journal_def directories_exist_def fun_eq_iff)

lemma quiet_make_directories: "moves (quiet P has X) (make_directories p)"
proof -
  have "path_exists (w\<lparr>w_lstat := \<lambda>q. if q \<in> set (filter (\<lambda>q. \<not> path_exists w q) (ancestors p))
      then Inr private_directory else w_lstat w q\<rparr>) q" if "path_exists w q" for q and w :: "'a world"
    using that by (auto simp: path_exists_def lstat_def split: option.splits sum.splits)
  then show ?thesis
    by (auto simp: make_directories_def moves_def Let_def intro: quiet_lstat quiet.step_refl)
qed

lemma quiet_open_lock: "moves (quiet P has X) (open_lock p)"
proof -
  have "path_exists (w\<lparr>w_lstat := (w_lstat w)(p := Inr private_file)\<rparr>) q"
    if "path_exists w q" "lstat w p = Inl e" for q e and w :: "'a world"
    using that by (auto simp: path_exists_def lstat_def split: option.splits sum.splits if_splits)
  then show ?thesis
    unfolding open_lock_def
    by (intro quiet_syscall) (auto simp: moves_def split: sum.splits file_kind.splits
        intro: quiet_lstat quiet.step_refl)
qed

lemma quiet_busy: "quiet P has X w (w\<lparr>w_busy := b\<rparr>)"
  by (auto simp: quiet_def journal_def directories_exist_def path_exists_def lstat_def fun_eq_iff
      split: option.splits)

lemma quiet_drawn: "quiet P has X w (w\<lparr>w_drawn := b\<rparr>)"
  by (auto simp: quiet_def journal_def directories_exist_def path_exists_def lstat_def fun_eq_iff
      split: option.splits)

lemma quiet_flock: "moves (quiet P has X) (flock p nb)"
  unfolding flock_def by (intro quiet_syscall) (auto simp: moves_def intro: quiet_busy quiet.step_refl)

lemma quiet_lock_file: "moves (quiet P has X) (lock_file p nb)"
  unfolding lock_file_def by (intro quiet_rules quiet_open_lock quiet_flock)

lemma quiet_secure: "moves (quiet P has X) (secure p)"
  by (simp add: secure_def moves_def quiet.step_refl)

lemma quiet_lstat_read: "moves (quiet P has X) (\<lambda>w. (f w, w))"
  by (simp add: moves_def quiet.step_refl)

lemma quiet_create_private_directory: "moves (quiet P has X) (create_private_directory p)"
  unfolding create_private_directory_def
  by (intro quiet_rules quiet_secure quiet_make_directories quiet_lstat_read)

lemma quiet_global_lock: "moves (quiet P has X) global_lock"
  unfolding global_lock_def by (intro quiet_rules quiet_create_private_directory quiet_lock_file)

lemma quiet_execution_lock: "moves (quiet P has X) (execution_lock T S e nb)"
  unfolding execution_lock_def by (rule quiet_lock_file)

lemma quiet_open_secure: "moves (quiet P has X) (open_secure p)"
  unfolding open_secure_def
  by (intro quiet_rules quiet_secure) (auto simp: moves_def quiet.step_refl split: option.splits)

lemma quiet_read_directory: "moves (quiet P has X) (read_directory d)"
  unfolding read_directory_def by (intro quiet_rules) (simp add: moves_def quiet.step_refl)

lemma quiet_pair: "moves (quiet P has X) (Pair r)"
  by (simp add: moves_def quiet.step_refl)

lemma quiet_read_entries: "moves (quiet P has X) (read_entries d names)"
  by (induction names) (auto intro!: quiet_pair quiet_rules quiet_open_secure)

lemma quiet_records_in: "moves (quiet P has X) (records_in d)"
  unfolding records_in_def
  by (intro quiet_rules quiet_secure quiet_read_directory quiet_read_entries)

lemma quiet_records_of: "moves (quiet P has X) (records_of d us)"
  by (induction us) (auto intro!: quiet_pair quiet_rules quiet_records_in)

lemma quiet_all_records: "moves (quiet P has X) (all_records S)"
  unfolding all_records_def by (intro quiet_rules quiet_records_of)

lemma quiet_load: "moves (quiet P has X) (load S t)"
  unfolding load_def by (intro quiet_rules quiet_open_secure)

lemma quiet_process_starttime: "moves (quiet P has X) (process_starttime pid)"
  unfolding process_starttime_def by (rule quiet_lstat_read)

lemma quiet_draw16: "moves (quiet P has X) draw16"
  unfolding draw16_def by (intro quiet_syscall) (auto simp: moves_def intro: quiet_drawn)

lemmas quiet_store = quiet_create_private_directory quiet_global_lock quiet_execution_lock
  quiet_open_secure quiet_records_in quiet_all_records quiet_load quiet_process_starttime quiet_draw16

section \<open>Changing a file of an instance directory\<close>

lemma directories_exist_files:
  assumes "directories_exist (st_policy S) w" "wf_store S"
    "\<And>q. q \<noteq> st_directory S @ [x] \<Longrightarrow> q \<noteq> st_directory S @ [y] \<Longrightarrow> map_of fs q = map_of (w_files w) q"
    "path_exists w (st_directory S)"
  shows "directories_exist (st_policy S) (w\<lparr>w_files := fs\<rparr>)"
  unfolding directories_exist_def
proof (intro ballI allI impI)
  fix u name
  let ?sp = "state_path (st_policy S)"
  assume u: "u \<in> set (garden_units (st_policy S))"
    and f: "map_of (w_files (w\<lparr>w_files := fs\<rparr>)) (?sp @ [u, name]) \<noteq> None"
  have dir: "st_directory S = ?sp @ [st_instance S]" using assms(2) by (simp add: wf_store_def)
  have "path_exists w (?sp @ [u])"
  proof (cases "u = st_instance S")
    case True
    then show ?thesis using assms(4) dir by simp
  next
    case False
    then have "map_of fs (?sp @ [u, name]) = map_of (w_files w) (?sp @ [u, name])"
      by (intro assms(3)) (simp_all add: dir)
    then show ?thesis using f assms(1) u by (auto simp: directories_exist_def)
  qed
  moreover have "map_of fs (?sp @ [u]) = map_of (w_files w) (?sp @ [u])"
    by (intro assms(3)) (simp_all add: dir)
  ultimately show "path_exists (w\<lparr>w_files := fs\<rparr>) (?sp @ [u])" by (simp add: path_exists_other)
qed

lemma path_exists_directory:
  assumes "\<And>q. q \<noteq> st_directory S @ [x] \<Longrightarrow> q \<noteq> st_directory S @ [y] \<Longrightarrow> map_of fs q = map_of (w_files w) q"
  shows "path_exists (w\<lparr>w_files := fs\<rparr>) (st_directory S) = path_exists w (st_directory S)"
  by (rule path_exists_other) (auto intro!: assms)

lemma journal_temp:
  assumes "\<And>q. q \<noteq> temp_path S t \<Longrightarrow> map_of fs q = map_of (w_files w) q"
  shows "journal (w\<lparr>w_files := fs\<rparr>) = journal w"
proof
  fix q
  show "journal (w\<lparr>w_files := fs\<rparr>) q = journal w q"
    using assms [of q] by (cases "q = temp_path S t") (auto simp: journal_def)
qed

lemma files_of_directory:
  "map_of (w_files w) (st_directory S @ [x]) \<noteq> None \<Longrightarrow> wf_store S \<Longrightarrow> directories_exist (st_policy S) w
   \<Longrightarrow> path_exists w (st_directory S)"
  by (auto simp: wf_store_def directories_exist_def)

lemma quiet_temp:
  assumes "wf_store S" "\<And>q. q \<noteq> temp_path S t \<Longrightarrow> map_of fs q = map_of (w_files w) q"
    "directories_exist (st_policy S) w \<Longrightarrow> path_exists w (st_directory S)"
  shows "quiet (st_policy S) has X w (w\<lparr>w_files := fs\<rparr>)"
  using assms journal_temp [of S t fs w] directories_exist_files [of S w "t @ ''.tmp''" "t @ ''.tmp''" fs]
  by (simp add: quiet_def temp_path_def)

lemma quiet_open_truncated:
  assumes "wf_store S"
  shows "moves (quiet (st_policy S) has X) (open_truncated (temp_path S t))"
proof -
  have "quiet (st_policy S) has X w (w\<lparr>w_files := AList.update (temp_path S t) f (w_files w)\<rparr>)"
    if "path_exists w (butlast (temp_path S t))" for f and w :: "'a world"
    by (rule quiet_temp [OF assms, of t]) (use that in \<open>simp_all add: update_conv' temp_path_def\<close>)
  then show ?thesis
    by (auto simp: open_truncated_def moves_def quiet.step_refl split: sum.splits)
qed

lemma quiet_write_lease:
  assumes "wf_store S"
  shows "moves (quiet (st_policy S) has X) (write_lease (temp_path S t) l)"
proof -
  have "quiet (st_policy S) has X w (w\<lparr>w_files := AList.update (temp_path S t) f (w_files w)\<rparr>)"
    if "map_of (w_files w) (temp_path S t) \<noteq> None" for f and w :: "'a world"
    by (rule quiet_temp [OF assms, of t])
      (use that files_of_directory [OF _ assms] in \<open>simp_all add: update_conv' temp_path_def\<close>)
  then show ?thesis
    by (auto simp: write_lease_def moves_def quiet.step_refl split: option.splits)
qed

lemma quiet_remove_temp:
  assumes "wf_store S"
  shows "moves (quiet (st_policy S) has X) (remove_file (temp_path S t))"
proof -
  have "quiet (st_policy S) has X w (w\<lparr>w_files := AList.delete (temp_path S t) (w_files w)\<rparr>)"
    if "map_of (w_files w) (temp_path S t) \<noteq> None" for w :: "'a world"
    by (rule quiet_temp [OF assms, of t])
      (use that files_of_directory [OF _ assms] in \<open>simp_all add: delete_conv' temp_path_def\<close>)
  then show ?thesis
    by (auto simp: remove_file_def moves_def quiet.step_refl split: option.splits)
qed

section \<open>Saving and unlinking a record is atomic\<close>

text \<open>\<open>replaced\<close> is the effect of a change of exactly one journal file.\<close>

definition replaced ::
  "policy \<Rightarrow> ('h \<Rightarrow> string \<Rightarrow> bool) \<Rightarrow> path \<Rightarrow> file_content option \<Rightarrow> 'h world \<Rightarrow> 'h world \<Rightarrow> bool" where
  "replaced P has p c w w' \<longleftrightarrow>
     journal w' = (journal w)(p := c) \<and> w_cur w' = w_cur w \<and> w_stat w' = w_stat w
     \<and> (directories_exist P w \<longrightarrow> directories_exist P w')
     \<and> (\<forall>n. has (w_host w') n \<longrightarrow> has (w_host w) n)"

lemma replaced_quiet: "replaced P has p c u v \<Longrightarrow> quiet P has {} v w \<Longrightarrow> replaced P has p c u w"
  by (auto simp: replaced_def quiet_def)

lemma quiet_replaced: "quiet P has {} u v \<Longrightarrow> replaced P has p c v w \<Longrightarrow> replaced P has p c u w"
  by (auto simp: replaced_def quiet_def)

definition admissible :: "store \<Rightarrow> lease \<Rightarrow> bool" where
  "admissible S l \<longleftrightarrow> wf_store S \<and> l_instance l = st_instance S \<and> valid_token (l_lease l)"

lemma quiet_sync: "moves (quiet P has X) (syscall (ret ()))"
  by (intro quiet_rules)

lemma quiet_script: "quiet P has X w (w\<lparr>w_script := os\<rparr>)" "quiet P has X w (w\<lparr>w_script := os, w_dead := d\<rparr>)"
  by (auto simp: quiet_def journal_def directories_exist_def fun_eq_iff)

lemma syscall_triple:
  assumes "triple P eff Q E" "\<And>w os. P w \<Longrightarrow> P (w\<lparr>w_script := os\<rparr>)"
    "\<And>w os d. P w \<Longrightarrow> E (w\<lparr>w_script := os, w_dead := d\<rparr>)"
  shows "triple P (syscall eff) Q E"
  unfolding triple_def
proof (intro allI impI)
  fix w assume P: "P w"
  have same: "w\<lparr>w_script := w_script w, w_dead := w_dead w\<rparr> = w"
    "w\<lparr>w_script := os, w_dead := w_dead w\<rparr> = w\<lparr>w_script := os\<rparr>" for os by simp_all
  have "E w" "\<And>os. E (w\<lparr>w_script := os\<rparr>)"
    using assms(3) [OF P, of "w_dead w" "w_script w"] assms(3) [OF P, of "w_dead w"] by (simp_all only: same)
  then show "case syscall eff w of (Inl e, w') \<Rightarrow> E w' | (Inr x, w') \<Rightarrow> Q x w'"
    using P assms(1) assms(2) [OF P] assms(3) [OF P]
    by (auto simp: syscall_def triple_def split: list.splits outcome.splits)
qed

lemma syscall_moves_triple:
  assumes "moves (quiet P has X) eff" "\<And>u v. I u \<Longrightarrow> quiet P has X u v \<Longrightarrow> I v"
    "\<And>w x w'. I w \<Longrightarrow> eff w = (Inr x, w') \<Longrightarrow> H x w'"
  shows "triple I (syscall eff) (\<lambda>x w. I w \<and> H x w) I"
proof (rule syscall_triple)
  show "triple I eff (\<lambda>x w. I w \<and> H x w) I"
    using quiet.triple_moves [OF assms(1,2)] assms(3) unfolding triple_def
    by (fastforce split: prod.splits sum.splits)
qed (use assms(2) quiet_script in blast)+

definition holds_record :: "path \<Rightarrow> lease \<Rightarrow> 'h world \<Rightarrow> bool" where
  "holds_record p l w = (map_option fi_content (map_of (w_files w) p) = Some (LeaseRecord l))"

lemma rename_replaces:
  assumes "admissible S l" "holds_record (temp_path S (l_lease l)) l w"
    "rename_file (temp_path S (l_lease l)) (json_path S (l_lease l)) w = (r, w')"
  shows "r = Inr () \<and> replaced (st_policy S) has (json_path S (l_lease l)) (Some (LeaseRecord l)) w w'"
proof -
  let ?t = "temp_path S (l_lease l)" and ?j = "json_path S (l_lease l)"
  from assms(2) obtain f where f: "map_of (w_files w) ?t = Some f" "fi_content f = LeaseRecord l"
    by (auto simp: holds_record_def)
  let ?fs = "AList.update ?j f (AList.delete ?t (w_files w))"
  have w': "r = Inr ()" "w' = w\<lparr>w_files := ?fs\<rparr>"
    using assms(3) f by (simp_all add: rename_file_def)
  have tj: "?j \<noteq> ?t" by (simp add: json_path_def temp_path_def)
  have m: "map_of ?fs = (map_of (w_files w))(?t := None, ?j \<mapsto> f)"
    by (simp add: update_conv' delete_conv')
  have "journal w' = (journal w)(?j \<mapsto> LeaseRecord l)"
  proof
    fix q
    show "journal w' q = ((journal w)(?j \<mapsto> LeaseRecord l)) q"
      using assms(1) f(2) json_is_json [of "l_lease l" S]
      by (auto simp: w' journal_def m admissible_def)
  qed
  moreover have "directories_exist (st_policy S) w'" if "directories_exist (st_policy S) w"
    unfolding w'
    by (rule directories_exist_files [OF that, where x = "l_lease l @ ''.json''" and y = "l_lease l @ ''.tmp''"])
      (use assms(1) f files_of_directory [OF _ _ that, of "l_lease l @ ''.tmp''"]
        in \<open>simp_all add: admissible_def m [unfolded json_path_def temp_path_def] json_path_def temp_path_def\<close>)
  ultimately show ?thesis by (simp add: replaced_def w')
qed

text \<open>\<open>saved w\<close> is the set of worlds a call of \<open>save\<close> in \<open>w\<close> can lead to, whatever fails.\<close>

lemma save_triple:
  assumes S: "admissible S l"
  shows "triple (\<lambda>v. v = w) (save S l)
    (\<lambda>_. replaced (st_policy S) has (json_path S (l_lease l)) (Some (LeaseRecord l)) w)
    (\<lambda>v. quiet (st_policy S) has {} w v
       \<or> replaced (st_policy S) has (json_path S (l_lease l)) (Some (LeaseRecord l)) w v)"
  (is "triple _ _ (\<lambda>_. ?R) ?E")
proof -
  let ?Q = "quiet (st_policy S) has {} w" and ?t = "temp_path S (l_lease l)"
  have wf: "wf_store S" using S by (simp add: admissible_def)
  have stable: "?Q u \<Longrightarrow> quiet (st_policy S) has {} u v \<Longrightarrow> ?Q v" for u v by (rule quiet.step_trans)
  have err: "triple P m Q ?Q \<Longrightarrow> triple P m Q ?E" for P Q and m :: "('a, unit) io"
    by (erule triple_weaken) auto
  have o: "triple ?Q (syscall (open_truncated ?t)) (\<lambda>_. ?Q) ?E"
    by (rule err, rule quiet.triple_moves [OF quiet_syscall [OF quiet_open_truncated [OF wf]] stable])
  have wr: "triple ?Q (syscall (write_lease ?t l)) (\<lambda>_ v. ?Q v \<and> holds_record ?t l v) ?E"
    by (rule err, rule syscall_moves_triple [OF quiet_write_lease [OF wf] stable])
      (auto simp: write_lease_def holds_record_def update_conv' split: option.splits)
  have sync: "triple (\<lambda>v. ?Q v \<and> holds_record ?t l v) (syscall (ret ()))
      (\<lambda>_ v. ?Q v \<and> holds_record ?t l v) ?E"
    by (rule syscall_triple)
      (simp_all add: triple_def holds_record_def stable [OF _ quiet_script(1)] stable [OF _ quiet_script(2)])
  have mv: "triple (\<lambda>v. ?Q v \<and> holds_record ?t l v)
      (syscall (rename_file ?t (json_path S (l_lease l)))) (\<lambda>_. ?R) ?E"
  proof (rule syscall_triple)
    show "triple (\<lambda>v. ?Q v \<and> holds_record ?t l v) (rename_file ?t (json_path S (l_lease l))) (\<lambda>_. ?R) ?E"
      unfolding triple_def
    proof (intro allI impI, elim conjE)
      fix v assume "?Q v" "holds_record ?t l v"
      moreover obtain r v' where eq: "rename_file ?t (json_path S (l_lease l)) v = (r, v')" by fastforce
      ultimately have "r = Inr () \<and> ?R v'"
        using rename_replaces [OF S _ eq] quiet_replaced by blast
      then show "case rename_file ?t (json_path S (l_lease l)) v of (Inl e, w') \<Rightarrow> ?E w' | (Inr x, w') \<Rightarrow> ?R w'"
        by (simp add: eq)
    qed
  qed (simp_all add: holds_record_def stable [OF _ quiet_script(1)] stable [OF _ quiet_script(2)])
  have after: "triple ?R (syscall (ret ())) (\<lambda>_. ?R) ?E"
    by (rule triple_weaken [OF quiet.triple_moves [where P = ?R, OF quiet_sync]])
      (auto intro: replaced_quiet)
  have "triple ?Q (save S l) (\<lambda>_. ?R) ?E"
    unfolding save_def
    by (rule triple_seq [OF o], rule triple_seq [OF wr], rule triple_seq [OF sync], rule triple_seq [OF sync],
        rule triple_seq [OF mv], rule triple_seq [OF after], rule after)
  then show ?thesis by (rule triple_pre) (simp add: quiet.step_refl)
qed

lemma unlink_triple:
  assumes S: "admissible S l"
  shows "triple (\<lambda>v. v = w) (unlink_lease S (l_lease l))
    (\<lambda>_. replaced (st_policy S) has (json_path S (l_lease l)) None w)
    (\<lambda>v. quiet (st_policy S) has {} w v
       \<or> replaced (st_policy S) has (json_path S (l_lease l)) None w v)"
  (is "triple _ _ (\<lambda>_. ?R) ?E")
proof -
  let ?Q = "quiet (st_policy S) has {} w" and ?j = "json_path S (l_lease l)"
  have wf: "wf_store S" using S by (simp add: admissible_def)
  have stable: "?Q u \<Longrightarrow> quiet (st_policy S) has {} u v \<Longrightarrow> ?Q v" for u v by (rule quiet.step_trans)
  have remove: "?R v'" if "?Q v" "remove_file ?j v = (Inr x, v')" for v v' :: "'a world" and x
  proof -
    from that(2) have v': "v' = v\<lparr>w_files := AList.delete ?j (w_files v)\<rparr>"
      and some: "map_of (w_files v) ?j \<noteq> None"
      by (auto simp: remove_file_def split: option.splits)
    have "journal v' = (journal v)(?j := None)"
      by (auto simp: v' journal_def delete_conv' fun_eq_iff)
    moreover have "directories_exist (st_policy S) v'" if "directories_exist (st_policy S) v"
      unfolding v'
      by (rule directories_exist_files [OF that, where x = "l_lease l @ ''.json''" and y = "l_lease l @ ''.json''"])
        (use S some files_of_directory [OF _ _ that, of "l_lease l @ ''.json''"]
          in \<open>simp_all add: admissible_def delete_conv' json_path_def\<close>)
    ultimately have "replaced (st_policy S) has ?j None v v'" by (simp add: replaced_def v')
    with that(1) show ?thesis by (rule quiet_replaced)
  qed
  have failed: "?Q v'" if "?Q v" "remove_file ?j v = (Inl e, v')" for v v' :: "'a world" and e
    using that by (auto simp: remove_file_def split: option.splits)
  have after: "moves (quiet (st_policy S) has {}) m \<Longrightarrow> triple ?R m (\<lambda>_. ?R) ?E" for m :: "('a, 'c) io"
    by (rule triple_weaken [OF quiet.triple_moves [where P = ?R]]) (auto intro: replaced_quiet)
  have gl: "triple ?Q global_lock (\<lambda>_. ?Q) ?E"
    by (rule triple_weaken [OF quiet.triple_moves [OF quiet_global_lock stable]]) auto
  have rm: "triple ?Q (syscall (remove_file ?j)) (\<lambda>_. ?R) ?E"
  proof (rule syscall_triple)
    show "triple ?Q (remove_file ?j) (\<lambda>_. ?R) ?E"
      using remove failed unfolding triple_def by (auto split: prod.splits sum.splits)
  qed (auto intro: quiet_script stable)
  have ex: "triple ?R (gets (\<lambda>w. path_exists w (temp_path S (l_lease l)))) (\<lambda>_. ?R) ?E"
    by (intro after quiet_rules)
  have tmp: "triple ?R (if x then syscall (remove_file (temp_path S (l_lease l))) else ret ()) (\<lambda>_. ?R) ?E" for x
    by (intro after quiet_rules quiet_remove_temp wf)
  have sy: "triple ?R (syscall (ret ())) (\<lambda>_. ?R) ?E" by (intro after quiet_sync)
  have "triple ?Q (unlink_lease S (l_lease l)) (\<lambda>_. ?R) ?E"
    unfolding unlink_lease_def
    by (rule triple_seq [OF gl], rule triple_seq [OF rm], rule triple_seq [OF ex], rule triple_seq [OF tmp],
        rule triple_seq [OF sy], rule sy)
  then show ?thesis by (rule triple_pre) (simp add: quiet.step_refl)
qed

section \<open>The journal as a record store\<close>

definition state_files :: "policy \<Rightarrow> 'h world \<Rightarrow> path \<Rightarrow> file_content option" where
  "state_files P w p = (if in_state P p then journal w p else None)"

lemma state_files_quiet: "quiet P has X u v \<Longrightarrow> state_files P v = state_files P u"
  by (simp add: quiet_def state_files_def fun_eq_iff)

lemma state_files_replaced:
  "replaced P has p c u v \<Longrightarrow> in_state P p \<Longrightarrow> state_files P v = (state_files P u)(p := c)"
  by (auto simp: replaced_def state_files_def fun_eq_iff)

lemma save_cases:
  assumes "admissible S l"
  shows "quiet (st_policy S) has {} w (snd (save S l w))
     \<or> replaced (st_policy S) has (json_path S (l_lease l)) (Some (LeaseRecord l)) w (snd (save S l w))"
  using save_triple [OF assms, of w has] unfolding triple_def
  by (auto split: prod.splits sum.splits)

lemma save_replaces:
  assumes "admissible S l" "save S l w = (Inr u, w')"
  shows "replaced (st_policy S) has (json_path S (l_lease l)) (Some (LeaseRecord l)) w w'"
  using save_triple [OF assms(1), of w has] assms(2) by (auto simp: triple_def)

lemma unlink_cases:
  assumes "admissible S l"
  shows "quiet (st_policy S) has {} w (snd (unlink_lease S (l_lease l) w))
     \<or> replaced (st_policy S) has (json_path S (l_lease l)) None w (snd (unlink_lease S (l_lease l) w))"
  using unlink_triple [OF assms, of w has] unfolding triple_def
  by (auto split: prod.splits sum.splits)

lemma unlink_replaces:
  assumes "admissible S l" "unlink_lease S (l_lease l) w = (Inr u, w')"
  shows "replaced (st_policy S) has (json_path S (l_lease l)) None w w'"
  using unlink_triple [OF assms(1), of w has] assms(2) by (auto simp: triple_def)

lemma admissible_path:
  "admissible S l \<Longrightarrow> lease_path (st_policy S) l = json_path S (l_lease l) \<and> in_state (st_policy S) (lease_path (st_policy S) l)"
  using json_in_state [of S "l_lease l"] by (auto simp: admissible_def lease_path_json)

interpretation ledger: record_store "state_files (st_policy S)" "lease_path (st_policy S)" LeaseRecord
  "admissible S" "save S" "\<lambda>l. unlink_lease S (l_lease l)" for S
proof
  fix l :: lease and w w' :: "'h world" and u
  assume a: "admissible S l"
  note path = admissible_path [OF a] and upd = state_files_replaced [where P = "st_policy S" and has = "\<lambda>_ _. True"]
  show "state_files (st_policy S) (snd (save S l w)) = state_files (st_policy S) w
      \<or> state_files (st_policy S) (snd (save S l w)) = (state_files (st_policy S) w)(lease_path (st_policy S) l \<mapsto> LeaseRecord l)"
    using save_cases [OF a, of "\<lambda>_ _. True" w] path upd state_files_quiet by metis
  show "state_files (st_policy S) (snd (unlink_lease S (l_lease l) w)) = state_files (st_policy S) w
      \<or> state_files (st_policy S) (snd (unlink_lease S (l_lease l) w)) = (state_files (st_policy S) w)(lease_path (st_policy S) l := None)"
    using unlink_cases [OF a, of "\<lambda>_ _. True" w] path upd state_files_quiet by metis
  show "state_files (st_policy S) w' = (state_files (st_policy S) w)(lease_path (st_policy S) l \<mapsto> LeaseRecord l)"
    if "save S l w = (Inr u, w')"
    using save_replaces [OF a that, of "\<lambda>_ _. True"] path upd by metis
  show "state_files (st_policy S) w' = (state_files (st_policy S) w)(lease_path (st_policy S) l := None)"
    if "unlink_lease S (l_lease l) w = (Inr u, w')"
    using unlink_replaces [OF a that, of "\<lambda>_ _. True"] path upd by metis
qed

end
