(* ===== verification/NetworkSafety.thy ===== *)
theory NetworkSafety
  imports NetworkStore
begin

text \<open>
  What the operations on leases preserve, whatever system call or host program fails and
  wherever the process is killed: the journal stays readable, its allocations stay disjoint, and
  an interface that an operation creates is always backed by a journal record.
\<close>

section \<open>The invariant\<close>

definition backed :: "policy \<Rightarrow> 'h world \<Rightarrow> string \<Rightarrow> bool" where
  "backed P w n = (\<exists>p l. leases P w p = Some l \<and> l_tap l = n \<and> l_phase l \<noteq> Reserved)"

definition no_orphans :: "policy \<Rightarrow> ('h \<Rightarrow> string \<Rightarrow> bool) \<Rightarrow> string set \<Rightarrow> 'h world \<Rightarrow> bool" where
  "no_orphans P has X w = (\<forall>n. has (w_host w) n \<longrightarrow> n \<in> X \<or> backed P w n)"

definition inv :: "policy \<Rightarrow> ('h \<Rightarrow> string \<Rightarrow> bool) \<Rightarrow> string set \<Rightarrow> 'h world \<Rightarrow> bool" where
  "inv P has X w \<longleftrightarrow> journal_ok P w \<and> no_orphans P has X w"

text \<open>The lease a function holds: its record is in the journal under the same key and slot.\<close>

definition held :: "store \<Rightarrow> lease \<Rightarrow> 'h world \<Rightarrow> bool" where
  "held S l w \<longleftrightarrow> w_cur w = l \<and> wf_lease l \<and> l_instance l = st_instance S
     \<and> (\<exists>l0. leases (st_policy S) w (lease_path (st_policy S) l) = Some l0 \<and> l_slot l0 = l_slot l
          \<and> (l_phase l = Reserved \<longrightarrow> l_phase l0 = Reserved))"

text \<open>The journal says that host resources may exist for the lease.\<close>

definition armed :: "store \<Rightarrow> lease \<Rightarrow> 'h world \<Rightarrow> bool" where
  "armed S l w \<longleftrightarrow> (\<exists>l0. leases (st_policy S) w (lease_path (st_policy S) l) = Some l0
     \<and> l_slot l0 = l_slot l \<and> l_phase l0 \<noteq> Reserved)"

lemma journal_slot:
  "journal_ok P w \<Longrightarrow> leases P w p = Some l \<Longrightarrow> leases P w q = Some m \<Longrightarrow> l_slot l = l_slot m \<Longrightarrow> p = q"
  by (simp add: journal_ok_def)

lemma leases_quiet: "quiet P has X u v \<Longrightarrow> leases P v = leases P u"
  by (simp add: quiet_def leases_def fun_eq_iff)

lemma journal_ok_quiet: "quiet P has X u v \<Longrightarrow> journal_ok P u \<Longrightarrow> journal_ok P v"
  using leases_quiet [of P has X u v] by (auto simp: journal_ok_def quiet_def)

lemma backed_quiet: "quiet P has X u v \<Longrightarrow> backed P v = backed P u"
  by (simp add: backed_def leases_quiet fun_eq_iff)

lemma inv_quiet: "quiet P has {} u v \<Longrightarrow> inv P has X u \<Longrightarrow> inv P has X v"
  by (auto simp: inv_def journal_ok_quiet no_orphans_def backed_quiet) (auto simp: quiet_def)

lemma held_quiet: "quiet (st_policy S) has X u v \<Longrightarrow> held S l u \<Longrightarrow> held S l v"
  using leases_quiet [of "st_policy S" has X u v] by (auto simp: held_def quiet_def)

lemma armed_quiet: "quiet (st_policy S) has X u v \<Longrightarrow> armed S l u \<Longrightarrow> armed S l v"
  using leases_quiet [of "st_policy S" has X u v] by (auto simp: armed_def)

lemma tap_of_slot: "wf_lease l \<Longrightarrow> wf_lease m \<Longrightarrow> l_tap l = l_tap m \<longleftrightarrow> l_slot l = l_slot m"
  using hex4_inj by (auto simp: wf_lease_def)

lemma admissible_held: "wf_store S \<Longrightarrow> held S l w \<Longrightarrow> admissible S (l\<lparr>l_phase := ph\<rparr>)"
  by (auto simp: admissible_def held_def wf_lease_def)

text \<open>A step that creates at most the interface of an armed lease keeps the invariant.\<close>

lemma inv_quiet_armed:
  assumes "quiet (st_policy S) has {l_tap l} u v" "inv (st_policy S) has X u" "armed S l u" "wf_lease l"
  shows "inv (st_policy S) has X v"
proof -
  have "backed (st_policy S) u (l_tap l)"
    using assms(2-4) leases_ok tap_of_slot unfolding armed_def backed_def inv_def by metis
  then show ?thesis
    using assms(1,2) by (auto simp: inv_def journal_ok_quiet no_orphans_def backed_quiet)
      (auto simp: quiet_def)
qed

section \<open>Saving keeps the invariant\<close>

lemma leases_state: "leases P w p = Some l \<longleftrightarrow> state_files P w p = Some (LeaseRecord l)"
  by (auto simp: leases_journal state_files_def split: if_splits)

lemma leases_replaced:
  "replaced P has p (Some (LeaseRecord l)) u v \<Longrightarrow> in_state P p \<Longrightarrow> leases P v = (leases P u)(p \<mapsto> l)"
  by (auto simp: leases_def replaced_def fun_eq_iff split: option.splits file_content.splits)

lemma leases_removed:
  "replaced P has p None u v \<Longrightarrow> leases P v = (leases P u)(p := None)"
  by (auto simp: leases_def replaced_def fun_eq_iff)

lemma journal_ok_replaced:
  assumes "journal_ok P u" "replaced P has (lease_path P l) (Some (LeaseRecord l)) u v"
    "wf_lease l" "in_state P (lease_path P l)"
    "\<And>p m. leases P u p = Some m \<Longrightarrow> l_slot m = l_slot l \<Longrightarrow> p = lease_path P l"
  shows "journal_ok P v"
proof -
  have j: "journal v = (journal u)(lease_path P l \<mapsto> LeaseRecord l)" using assms(2) by (simp add: replaced_def)
  have ls: "leases P v = (leases P u)(lease_path P l \<mapsto> l)" using leases_replaced [OF assms(2,4)] .
  have "\<exists>m. c = LeaseRecord m \<and> wf_lease m \<and> p = lease_path P m" if "in_state P p" "journal v p = Some c" for p c
    using that assms(1,3) by (auto simp: j journal_ok_def split: if_splits)
  moreover have "p = q" if "leases P v p = Some a" "leases P v q = Some b" "l_slot a = l_slot b" for p q a b
    using that assms(1,5) unfolding ls journal_ok_def by (auto split: if_splits)
  moreover have "directories_exist P v" using assms(1,2) by (simp add: journal_ok_def replaced_def)
  ultimately show ?thesis by (auto simp: journal_ok_def)
qed

lemma journal_ok_removed:
  assumes "journal_ok P u" "replaced P has p None u v" shows "journal_ok P v"
proof -
  have j: "journal v = (journal u)(p := None)" using assms(2) by (simp add: replaced_def)
  have ls: "leases P v = (leases P u)(p := None)" using leases_removed [OF assms(2)] .
  show ?thesis
    using assms unfolding journal_ok_def j ls by (auto simp: replaced_def split: if_splits)
qed

lemma inv_replaced:
  assumes inv: "inv (st_policy S) has X u" and S: "wf_store S" and wf: "wf_lease l"
    and inst: "l_instance l = st_instance S"
    and old: "\<And>p m. leases (st_policy S) u p = Some m \<Longrightarrow> l_slot m = l_slot l \<Longrightarrow> p = lease_path (st_policy S) l"
    and same: "\<And>m. leases (st_policy S) u (lease_path (st_policy S) l) = Some m \<Longrightarrow>
        l_slot m = l_slot l \<and> (l_phase l = Reserved \<longrightarrow> l_phase m = Reserved)"
    and step: "replaced (st_policy S) has (json_path S (l_lease l)) (Some (LeaseRecord l)) u v"
  shows "inv (st_policy S) has X v"
proof -
  let ?P = "st_policy S" and ?k = "lease_path (st_policy S) l"
  have k: "?k = json_path S (l_lease l)" "in_state ?P ?k"
    using lease_path_json [OF S inst] json_in_state [OF S] by simp_all
  have ls: "leases ?P v = (leases ?P u)(?k \<mapsto> l)"
    using leases_replaced [OF step] k by simp
  have ok: "journal_ok ?P u" using inv by (simp add: inv_def)
  have "backed ?P v n" if "backed ?P u n" for n
  proof -
    from that obtain p m where m: "leases ?P u p = Some m" "l_tap m = n" "l_phase m \<noteq> Reserved"
      by (auto simp: backed_def)
    show ?thesis
    proof (cases "p = ?k")
      case True
      then have "l_slot m = l_slot l \<and> l_phase l \<noteq> Reserved" using same m by blast
      moreover have "wf_lease m" using leases_ok [OF ok m(1)] by simp
      ultimately have "l_tap l = n \<and> l_phase l \<noteq> Reserved" using tap_of_slot [OF wf] m(2) by metis
      then show ?thesis unfolding backed_def ls by (intro exI [of _ ?k] exI [of _ l]) simp
    next
      case False
      then show ?thesis using m unfolding backed_def ls by (intro exI [of _ p] exI [of _ m]) simp
    qed
  qed
  moreover have "journal_ok ?P v"
    using journal_ok_replaced [OF ok _ wf k(2) old] step k(1) by simp
  ultimately show ?thesis
    using inv step by (auto simp: inv_def no_orphans_def replaced_def)
qed

text \<open>Saving the held lease, with a new phase that is not \<open>Reserved\<close>, arms it.\<close>

lemma save_held:
  assumes S: "wf_store S" and ph: "l_phase l \<noteq> Reserved"
  shows "triple (\<lambda>w. inv (st_policy S) has X w \<and> held S l w) (save S l)
    (\<lambda>_ w. inv (st_policy S) has X w \<and> held S l w \<and> armed S l w)
    (\<lambda>w. inv (st_policy S) has X w \<and> held S l w)"
proof -
  let ?P = "st_policy S"
  have *: "inv ?P has X v \<and> held S l v \<and> armed S l v"
    if w: "inv ?P has X w" "held S l w"
      and step: "replaced ?P has (json_path S (l_lease l)) (Some (LeaseRecord l)) w v" for w v
  proof -
    obtain l0 where l0: "leases ?P w (lease_path ?P l) = Some l0" "l_slot l0 = l_slot l"
      using w(2) by (auto simp: held_def)
    have ok: "journal_ok ?P w" using w(1) by (simp add: inv_def)
    have wf: "wf_lease l" "l_instance l = st_instance S" using w(2) by (simp_all add: held_def)
    have "inv ?P has X v"
    proof (rule inv_replaced [OF w(1) S wf _ _ step])
      show "p = lease_path ?P l" if "leases ?P w p = Some m" "l_slot m = l_slot l" for p m
        using journal_slot [OF ok that(1) l0(1)] l0(2) that(2) by simp
      show "l_slot m = l_slot l \<and> (l_phase l = Reserved \<longrightarrow> l_phase m = Reserved)"
        if "leases ?P w (lease_path ?P l) = Some m" for m
        using that l0 ph by simp
    qed
    moreover have "leases ?P v = (leases ?P w)(lease_path ?P l \<mapsto> l)"
      using leases_replaced [OF step] lease_path_json [OF S wf(2)] json_in_state [OF S] by simp
    moreover have "w_cur v = w_cur w" using step by (simp add: replaced_def)
    ultimately show ?thesis using w(2) ph by (simp add: held_def armed_def)
  qed
  show ?thesis
    unfolding triple_def
  proof (intro allI impI, elim conjE)
    fix w assume w: "inv ?P has X w" "held S l w"
    have adm: "admissible S l" using S w(2) by (auto simp: admissible_def held_def wf_lease_def)
    obtain r w' where eq: "save S l w = (r, w')" by fastforce
    have "inv ?P has X w' \<and> held S l w'"
      using save_cases [OF adm, of has w] * [OF w] inv_quiet [OF _ w(1)] held_quiet [OF _ w(2)]
      unfolding eq snd_conv by blast
    moreover have "armed S l w'" if "r = Inr ()"
      using save_replaces [OF adm, of w _ w' has] * [OF w] eq that by blast
    ultimately show "case save S l w of (Inl e, w') \<Rightarrow> inv ?P has X w' \<and> held S l w'
        | (Inr x, w') \<Rightarrow> inv ?P has X w' \<and> held S l w' \<and> armed S l w'"
      unfolding eq by (cases r) simp_all
  qed
qed

section \<open>Functions that hold a lease\<close>

lemma cur_update [simp]:
  "journal (w\<lparr>w_cur := l\<rparr>) = journal w" "directories_exist P (w\<lparr>w_cur := l\<rparr>) = directories_exist P w"
  "leases P (w\<lparr>w_cur := l\<rparr>) = leases P w" "backed P (w\<lparr>w_cur := l\<rparr>) = backed P w"
  "inv P has X (w\<lparr>w_cur := l\<rparr>) = inv P has X w"
proof -
  show j: "journal (w\<lparr>w_cur := l\<rparr>) = journal w" by (simp add: journal_def fun_eq_iff)
  have "path_exists (w\<lparr>w_cur := l\<rparr>) p = path_exists w p" for p
    by (simp add: path_exists_def lstat_def split: option.split)
  then show d: "directories_exist P (w\<lparr>w_cur := l\<rparr>) = directories_exist P w"
    by (simp add: directories_exist_def)
  show ls: "leases P (w\<lparr>w_cur := l\<rparr>) = leases P w" using j by (simp add: leases_def fun_eq_iff)
  show b: "backed P (w\<lparr>w_cur := l\<rparr>) = backed P w" by (simp add: backed_def ls fun_eq_iff)
  show "inv P has X (w\<lparr>w_cur := l\<rparr>) = inv P has X w"
    by (simp add: inv_def journal_ok_def no_orphans_def j d ls b)
qed

lemma armed_cur [simp]: "armed S m (w\<lparr>w_cur := l\<rparr>) = armed S m w"
  by (simp add: armed_def)

lemma held_set_cur:
  assumes "held S l w" "wf_lease m" "lease_path (st_policy S) m = lease_path (st_policy S) l"
    "l_slot m = l_slot l" "l_phase m \<noteq> Reserved"
  shows "held S m (w\<lparr>w_cur := m\<rparr>)"
  using assms by (auto simp: held_def lease_path_def)

lemma held_phase: "held S l w \<Longrightarrow> ph \<noteq> Reserved \<Longrightarrow> held S (l\<lparr>l_phase := ph\<rparr>) (w\<lparr>w_cur := l\<lparr>l_phase := ph\<rparr>\<rparr>)"
  by (rule held_set_cur) (auto simp: held_def lease_path_def)

lemma triple_set_cur: "(\<And>w. P w \<Longrightarrow> Q (w\<lparr>w_cur := l\<rparr>)) \<Longrightarrow> triple P (set_cur l) (\<lambda>_. Q) E"
  by (simp add: triple_def set_cur_def)

lemma triple_cur:
  "triple P (k l) Q E \<Longrightarrow> (\<And>w. P w \<Longrightarrow> w_cur w = l) \<Longrightarrow> triple P (seq cur k) Q E"
  by (simp add: triple_def)

definition holding :: "store \<Rightarrow> ('h \<Rightarrow> string \<Rightarrow> bool) \<Rightarrow> string set \<Rightarrow> 'h world \<Rightarrow> bool" where
  "holding S has X w \<longleftrightarrow> inv (st_policy S) has X w \<and> (\<exists>l. held S l w)"

abbreviation held_inv :: "store \<Rightarrow> ('h \<Rightarrow> string \<Rightarrow> bool) \<Rightarrow> string set \<Rightarrow> lease \<Rightarrow> 'h world \<Rightarrow> bool" where
  "held_inv S has X l w \<equiv> inv (st_policy S) has X w \<and> held S l w"

abbreviation armed_inv :: "store \<Rightarrow> ('h \<Rightarrow> string \<Rightarrow> bool) \<Rightarrow> string set \<Rightarrow> lease \<Rightarrow> 'h world \<Rightarrow> bool" where
  "armed_inv S has X l w \<equiv> inv (st_policy S) has X w \<and> held S l w \<and> armed S l w"

lemma held_quiet_step:
  assumes "moves (quiet (st_policy S) has {}) m"
  shows "triple (held_inv S has X l) m (\<lambda>_. held_inv S has X l) (held_inv S has X l)"
  by (rule quiet.triple_moves [OF assms]) (auto intro: inv_quiet held_quiet)

lemma armed_quiet_step:
  assumes "moves (quiet (st_policy S) has {l_tap l}) m"
  shows "triple (armed_inv S has X l) m (\<lambda>_. armed_inv S has X l) (armed_inv S has X l)"
proof (rule quiet.triple_moves [OF assms])
  fix u v assume "armed_inv S has X l u" "quiet (st_policy S) has {l_tap l} u v"
  then show "armed_inv S has X l v"
    using inv_quiet_armed held_quiet armed_quiet by (metis held_def)
qed

lemma armed_seq:
  assumes "moves (quiet (st_policy S) has {l_tap l}) m" "\<And>x. triple (armed_inv S has X l) (k x) Q (holding S has X)"
  shows "triple (armed_inv S has X l) (seq m k) Q (holding S has X)"
  by (rule triple_seq [OF triple_weaken [OF armed_quiet_step [OF assms(1)]] assms(2)])
    (auto simp: holding_def)

lemma held_seq:
  assumes "moves (quiet (st_policy S) has {}) m" "\<And>x. triple (held_inv S has X l) (k x) Q (holding S has X)"
  shows "triple (held_inv S has X l) (seq m k) Q (holding S has X)"
  by (rule triple_seq [OF triple_weaken [OF held_quiet_step [OF assms(1)]] assms(2)])
    (auto simp: holding_def)

lemma create_tap_triple:
  assumes T: "host_laws T has"
  shows "triple (\<lambda>w. armed_inv S has X l w \<and> l_phase l \<noteq> Reserved) (create_tap T)
    (\<lambda>_ w. \<exists>mac. armed_inv S has X (l\<lparr>l_host_mac := Some mac\<rparr>) w) (holding S has X)"
    (is "triple _ _ ?Q ?E")
proof -
  have tail: "triple (armed_inv S has X l) (seq (check (valid_mac mac) msg) (\<lambda>_.
      seq (set_cur (l\<lparr>l_host_mac := Some mac\<rparr>)) (\<lambda>_.
      seq (command T ''ip'' args) (\<lambda>_. ret ())))) ?Q ?E"
    if "l_phase l \<noteq> Reserved" "take 2 args \<noteq> [''tuntap'', ''add'']" for mac msg args
  proof (rule triple_seq_check)
    assume mac: "valid_mac mac"
    let ?m = "l\<lparr>l_host_mac := Some mac\<rparr>"
    have set: "triple (armed_inv S has X l) (set_cur ?m) (\<lambda>_. armed_inv S has X ?m) ?E"
    proof (rule triple_set_cur)
      fix w assume "armed_inv S has X l w"
      then show "armed_inv S has X ?m (w\<lparr>w_cur := ?m\<rparr>)"
        using mac that(1) wf_lease_host_mac [of l mac] held_set_cur [of S l w ?m]
        by (auto simp: armed_def held_def lease_path_def)
    qed
    have "triple (armed_inv S has X ?m) (seq (command T ''ip'' args) (\<lambda>_. ret ())) ?Q ?E"
      by (rule armed_seq [OF quiet_command [OF T]]) (use that(2) in \<open>auto intro: triple_ret\<close>)
    with set show "triple (armed_inv S has X l) (seq (set_cur ?m) (\<lambda>_.
        seq (command T ''ip'' args) (\<lambda>_. ret ()))) ?Q ?E" by (rule triple_seq)
  qed (auto simp: holding_def)
  show ?thesis
  proof (cases "l_phase l = Reserved")
    case True
    then show ?thesis by (simp add: triple_def)
  next
    case False
    have "triple (armed_inv S has X l) (create_tap T) ?Q ?E"
      unfolding create_tap_def
      by (rule triple_cur [where l = l], intro tail armed_seq quiet_command [OF T] quiet_host_calls [OF T] quiet.moves_rules)
        (simp_all add: False held_def)
    then show ?thesis by (rule triple_pre) simp
  qed
qed

section \<open>Provisioning steps, revocation and release\<close>

lemma set_phase_triple:
  assumes "ph \<noteq> Reserved"
  shows "triple (held_inv S has X l) (set_cur (l\<lparr>l_phase := ph\<rparr>))
    (\<lambda>_. held_inv S has X (l\<lparr>l_phase := ph\<rparr>)) (holding S has X)"
  by (rule triple_set_cur) (use held_phase [OF _ assms] in auto)

lemma armed_phase_triple:
  assumes "ph \<noteq> Reserved"
  shows "triple (armed_inv S has X l) (set_cur (l\<lparr>l_phase := ph\<rparr>))
    (\<lambda>_. armed_inv S has X (l\<lparr>l_phase := ph\<rparr>)) (holding S has X)"
  by (rule triple_set_cur) (use held_phase [OF _ assms] in \<open>auto simp: armed_def lease_path_def\<close>)

lemma save_held_seq:
  assumes "wf_store S" "l_phase l \<noteq> Reserved" "triple (armed_inv S has X l) (k ()) Q (holding S has X)"
  shows "triple (held_inv S has X l) (seq (save S l) k) Q (holding S has X)"
proof -
  have "triple (held_inv S has X l) (save S l) (\<lambda>_. armed_inv S has X l) (holding S has X)"
    by (rule triple_weaken [OF save_held [OF assms(1,2)]]) (auto simp: holding_def)
  then show ?thesis by (rule triple_seq) (simp add: assms(3))
qed

lemma save_armed_seq:
  assumes "wf_store S" "l_phase l \<noteq> Reserved" "triple (armed_inv S has X l) (k ()) Q (holding S has X)"
  shows "triple (armed_inv S has X l) (seq (save S l) k) Q (holding S has X)"
  by (rule triple_pre, rule save_held_seq, (rule assms)+) simp

lemma prepare_host_triple:
  assumes T: "host_laws T has" and S: "wf_store S"
  shows "triple (held_inv S has X l) (prepare_host T S) (\<lambda>_. holding S has X) (holding S has X)"
proof -
  note quiet_calls = quiet_host_calls [OF T] quiet_install_guard [OF T] quiet.moves_rules
  have final: "triple (armed_inv S has X m) act (\<lambda>_. holding S has X) (holding S has X)"
    if "moves (quiet (st_policy S) has {l_tap m}) act" for m and act :: "('a, unit) io"
    by (rule triple_weaken [OF armed_quiet_step [OF that]]) (auto simp: holding_def)
  have active: "triple (armed_inv S has X m) (seq (save S m) (\<lambda>_. seq (install_ingress T m) (\<lambda>_.
      seq (set_cur (m\<lparr>l_phase := Active\<rparr>)) (\<lambda>_. seq (save S (m\<lparr>l_phase := Active\<rparr>)) (\<lambda>_.
      seq (install_guard T (st_policy S) [m\<lparr>l_phase := Active\<rparr>]) (\<lambda>_.
      set_up T (m\<lparr>l_phase := Active\<rparr>)))))))
      (\<lambda>_. holding S has X) (holding S has X)" if "l_phase m \<noteq> Reserved" for m
    by (intro save_armed_seq S triple_seq [OF armed_phase_triple] armed_seq quiet_calls final)
      (simp_all add: that)
  have allocated: "triple (armed_inv S has X m) (seq (install_guard T (st_policy S) [m]) (\<lambda>_.
      seq (purge_connections T m) (\<lambda>_. seq (create_tap T) (\<lambda>_. seq cur (\<lambda>l2. k l2)))))
      (\<lambda>_. holding S has X) (holding S has X)"
    if m: "l_phase m = Allocated"
      and k: "\<And>l2. l_phase l2 \<noteq> Reserved \<Longrightarrow>
        triple (armed_inv S has X l2) (k l2) (\<lambda>_. holding S has X) (holding S has X)"
    for m and k :: "lease \<Rightarrow> ('a, unit) io"
  proof -
    have cur: "triple (\<lambda>w. \<exists>mac. armed_inv S has X (m\<lparr>l_host_mac := Some mac\<rparr>) w) (seq cur k)
        (\<lambda>_. holding S has X) (holding S has X)"
      unfolding triple_def
    proof (intro allI impI, elim exE)
      fix w mac assume w: "armed_inv S has X (m\<lparr>l_host_mac := Some mac\<rparr>) w"
      then have "w_cur w = m\<lparr>l_host_mac := Some mac\<rparr>" by (simp add: held_def)
      then show "case seq cur k w of (Inl e, w') \<Rightarrow> holding S has X w' | (Inr x, w') \<Rightarrow> holding S has X w'"
        using k [of "m\<lparr>l_host_mac := Some mac\<rparr>"] w m by (simp add: triple_def)
    qed
    have "triple (armed_inv S has X m) (seq (create_tap T) (\<lambda>_. seq cur k)) (\<lambda>_. holding S has X) (holding S has X)"
      by (rule triple_seq [OF triple_pre [OF create_tap_triple [OF T]] cur]) (simp add: m)
    then show ?thesis
      by (intro armed_seq [OF quiet_install_guard [OF T]] armed_seq [OF quiet_host_calls(6) [OF T]])
  qed
  show ?thesis
    unfolding prepare_host_def
    by (rule triple_cur [where l = l], intro triple_seq [OF set_phase_triple] save_held_seq S allocated active
        held_seq quiet_calls) (simp_all add: held_def)
qed

lemma revoke_triple:
  assumes T: "host_laws T has" and S: "wf_store S"
  shows "triple (held_inv S has X l) (revoke T S) (\<lambda>_. holding S has X) (holding S has X)"
proof -
  let ?m = "l\<lparr>l_phase := Revoked\<rparr>"
  have saved: "triple (held_inv S has X ?m) (save S ?m) (\<lambda>_. held_inv S has X ?m) (held_inv S has X ?m)"
    by (rule triple_weaken [OF save_held [OF S]]) auto
  have att: "triple (held_inv S has X ?m) (seq (attempt act) k) (\<lambda>_. holding S has X) (holding S has X)"
    if "moves (quiet (st_policy S) has {}) act"
      "\<And>r. triple (held_inv S has X ?m) (k r) (\<lambda>_. holding S has X) (holding S has X)"
    for act :: "('a, unit) io" and k :: "unit result \<Rightarrow> ('a, unit) io"
    by (rule triple_seq_attempt [OF held_quiet_step [OF that(1)] that(2) that(2)])
  have rest: "triple (held_inv S has X ?m) (seq (lift_r r) (\<lambda>_. seq (lift_r q) (\<lambda>_. lift_r p)))
      (\<lambda>_. holding S has X) (holding S has X)" for r q p :: "unit result"
    by (intro held_seq quiet.moves_rules triple_lift) (auto simp: holding_def)
  have body: "triple (held_inv S has X l) (seq (set_cur ?m) (\<lambda>_. seq (attempt (save S ?m)) (\<lambda>saved.
      seq (attempt (set_down T ?m)) (\<lambda>down. seq (attempt (install_guard T (st_policy S) [?m])) (\<lambda>guard.
      seq (lift_r saved) (\<lambda>_. seq (lift_r down) (\<lambda>_. lift_r guard)))))))
      (\<lambda>_. holding S has X) (holding S has X)"
    by (intro triple_seq [OF set_phase_triple] triple_seq_attempt [OF saved] att
        quiet_host_calls [OF T] quiet_install_guard [OF T] rest) simp_all
  show ?thesis
    unfolding revoke_def
    by (rule triple_cur [where l = l], intro triple_if triple_ret body) (auto simp: holding_def held_def)
qed

text \<open>After \<open>remove_resources\<close> succeeds, the interface of the lease does not exist.\<close>

lemma command_success:
  fixes T :: "'h tools" and w :: "'h world"
  assumes "command T prog args w = (Inr out, w')"
  shows "\<exists>h. t_success (fst (run_tool T prog args h)) \<and> t_stdout (fst (run_tool T prog args h)) = out
    \<and> w_host w' = snd (run_tool T prog args h)"
proof -
  from assms obtain o1 w1 where call: "ctx (''run '' @ prog) (syscall (\<lambda>w.
       case run_tool T prog args (w_host w) of
         (out, h) \<Rightarrow> (Inr out, w\<lparr>w_host := h, w_log := w_log w @ [Call prog args]\<rparr>))) w = (Inr o1, w1)"
    and res: "tool_result prog o1 = Inr out" "w' = w1"
    by (auto simp: command_def act_simps)
  let ?eff = "(\<lambda>w. case run_tool T prog args (w_host w) of
         (out, h) \<Rightarrow> (Inr out, w\<lparr>w_host := h, w_log := w_log w @ [Call prog args]\<rparr>)) :: ('h, tool_output) io"
  from call have "syscall ?eff w = (Inr o1, w1)"
    by (auto simp: result_simps intro: prod_eqI)
  from syscall_Inr [OF this] obtain os where "?eff (w\<lparr>w_script := os\<rparr>) = (Inr o1, w1)"
    by (elim exE conjE)
  then have "o1 = fst (run_tool T prog args (w_host w))" "w_host w1 = snd (run_tool T prog args (w_host w))"
    by (auto split: prod.splits)
  with res show ?thesis
    by (intro exI [of _ "w_host w"]) (auto simp: tool_result_def result_simps split: if_splits)
qed

lemma links_complete:
  assumes "host_laws T has" "links T w = (Inr ls, w')" "has (w_host w') n"
  shows "name_taken n ls"
proof -
  obtain out where c: "command T ''ip'' links_args w = (Inr out, w')" and p: "parse_json T out = Inr (JArr ls)"
    using assms(2) unfolding links_def links_args_def [symmetric]
    by (auto simp: act_simps result_simps as_array_Some_iff)
  obtain h where "t_success (fst (run_tool T ''ip'' links_args h))"
    "t_stdout (fst (run_tool T ''ip'' links_args h)) = out" "w_host w' = snd (run_tool T ''ip'' links_args h)"
    using command_success [OF c] by blast
  with assms(1,3) p show ?thesis unfolding host_laws_def by metis
qed

lemma owned_link_None: "owned_link l ls = Inr None \<longleftrightarrow> \<not> name_taken (l_tap l) ls"
proof (cases "find (\<lambda>link. j_index link ''ifname'' = JStr (l_tap l)) ls")
  case None
  then have "owned_link l ls = Inr None" by (simp add: owned_link_def)
  moreover have "\<not> name_taken (l_tap l) ls" using None by (auto simp: find_None_iff name_taken_def list_ex_iff)
  ultimately show ?thesis by simp
next
  case (Some k)
  then have "name_taken (l_tap l) ls" by (auto simp: find_Some_iff name_taken_def list_ex_iff)
  with Some show ?thesis by (simp add: owned_link_def bind_r_eq_Inr)
qed

definition absent :: "('h \<Rightarrow> string \<Rightarrow> bool) \<Rightarrow> string \<Rightarrow> 'h world \<Rightarrow> bool" where
  "absent has n w = (\<not> has (w_host w) n)"

lemma absent_step:
  assumes "moves (quiet P has {}) m"
  shows "triple (absent has n) m (\<lambda>_. absent has n) (\<lambda>_. True)"
  by (rule triple_weaken [OF quiet.triple_moves [OF assms, of "absent has n"]])
    (auto simp: absent_def quiet_def)

lemma links_triple:
  assumes "host_laws T has"
  shows "triple (\<lambda>_. True) (links T) (\<lambda>ls w. \<not> name_taken n ls \<longrightarrow> absent has n w) (\<lambda>_. True)"
  using links_complete [OF assms] by (fastforce simp: triple_def absent_def split: prod.splits sum.splits)

lemma remove_resources_absent:
  assumes T: "host_laws T has"
  shows "triple (\<lambda>_. True) (remove_resources T l) (\<lambda>_. absent has (l_tap l)) (\<lambda>_. True)"
proof -
  let ?A = "absent has (l_tap l)"
  have any: "triple (\<lambda>_. True) m (\<lambda>_ _. True) (\<lambda>_. True)" for m :: "('a, 'b) io"
    by (auto simp: triple_def split: prod.splits sum.splits)
  have gone: "triple (\<lambda>w. \<not> name_taken (l_tap l) ls \<longrightarrow> ?A w)
      (if found = None then ret () else k) (\<lambda>_. ?A) (\<lambda>_. True)"
    if "owned_link l ls = Inr found" "triple (\<lambda>_. True) k (\<lambda>_. ?A) (\<lambda>_. True)" for found ls k
  proof (cases found)
    case None
    with that(1) have "\<not> name_taken (l_tap l) ls" using owned_link_None by blast
    with None show ?thesis by (simp add: triple_def)
  next
    case (Some link)
    then show ?thesis using that(2) by (simp add: triple_def)
  qed
  have check: "triple (\<lambda>w. \<not> name_taken (l_tap l) ls \<longrightarrow> ?A w) (check (found = None) msg) (\<lambda>_. ?A) (\<lambda>_. True)"
    if "owned_link l ls = Inr found" for found ls msg
    by (rule triple_check) (use that owned_link_None in auto)
  have del: "triple (\<lambda>_. True) (seq (command T ''ip'' args) (\<lambda>_. seq (links T) (\<lambda>ls2.
      seq (lift_r (owned_link l ls2)) (\<lambda>found2. check (found2 = None) msg)))) (\<lambda>_. ?A) (\<lambda>_. True)" for args msg
    by (rule triple_seq [OF any], rule triple_seq [OF links_triple [OF T, where n = "l_tap l"]],
        rule triple_seq_lift, rule check) simp_all
  note quiet_calls = quiet_host_calls [OF T] quiet_nft [OF T] quiet.moves_rules
  have rest: "triple ?A (seq (purge_connections T l) (\<lambda>_. seq (deletion T ''inet'' (inet_table l)) (\<lambda>d1.
      seq (deletion T ''netdev'' (netdev_table l)) (\<lambda>d2. if d1 @ d2 = [] then ret () else nft T (d1 @ d2)))))
      (\<lambda>_. ?A) (\<lambda>_. True)"
    by (rule absent_step, intro quiet_calls)
  show ?thesis
    unfolding remove_resources_def
    by (rule triple_seq [OF any], rule triple_seq [OF links_triple [OF T, where n = "l_tap l"]],
        rule triple_seq_lift, rule triple_seq [OF gone rest], assumption, rule del) simp
qed

lemma inv_removed:
  assumes inv: "inv (st_policy S) has X u" and S: "wf_store S" and h: "held S l u"
    and gone: "l_phase l = Reserved \<or> absent has (l_tap l) u"
    and step: "replaced (st_policy S) has (json_path S (l_lease l)) None u v"
  shows "inv (st_policy S) has X v"
proof -
  let ?P = "st_policy S" and ?k = "json_path S (l_lease l)"
  have k: "lease_path ?P l = ?k" using h S by (simp add: held_def lease_path_json)
  have ls: "leases ?P v = (leases ?P u)(?k := None)" by (rule leases_removed [OF step])
  have ok: "journal_ok ?P u" using inv by (simp add: inv_def)
  obtain l0 where l0: "leases ?P u ?k = Some l0" "l_slot l0 = l_slot l" "l_phase l = Reserved \<longrightarrow> l_phase l0 = Reserved"
    using h k by (auto simp: held_def)
  have tap: "l_tap l0 = l_tap l"
    using tap_of_slot leases_ok [OF ok l0(1)] l0(2) h by (auto simp: held_def)
  have "n \<in> X \<or> backed ?P v n" if "has (w_host v) n" for n
  proof -
    have n: "has (w_host u) n" using that step by (simp add: replaced_def)
    then have "n \<in> X \<or> backed ?P u n" using inv by (simp add: inv_def no_orphans_def)
    moreover have "backed ?P v n" if "backed ?P u n"
    proof -
      from that obtain p m where m: "leases ?P u p = Some m" "l_tap m = n" "l_phase m \<noteq> Reserved"
        by (auto simp: backed_def)
      have "p \<noteq> ?k" using m l0 tap gone n by (auto simp: absent_def)
      then show ?thesis using m unfolding backed_def ls by (intro exI [of _ p] exI [of _ m]) simp
    qed
    ultimately show ?thesis by blast
  qed
  then show ?thesis
    using journal_ok_removed [OF ok step] by (simp add: inv_def no_orphans_def)
qed

lemma unlink_held:
  assumes S: "wf_store S"
  shows "triple (\<lambda>w. held_inv S has X l w \<and> (l_phase l = Reserved \<or> absent has (l_tap l) w))
    (unlink_lease S (l_lease l)) (\<lambda>_. inv (st_policy S) has X) (inv (st_policy S) has X)"
  unfolding triple_def
proof (intro allI impI, elim conjE)
  fix w assume w: "inv (st_policy S) has X w" "held S l w" "l_phase l = Reserved \<or> absent has (l_tap l) w"
  have adm: "admissible S l" using S w(2) by (auto simp: admissible_def held_def wf_lease_def)
  have "inv (st_policy S) has X (snd (unlink_lease S (l_lease l) w))"
    using unlink_cases [OF adm, of has w] inv_quiet [OF _ w(1)] inv_removed [OF w(1) S w(2,3)] by blast
  then show "case unlink_lease S (l_lease l) w of (Inl e, w') \<Rightarrow> inv (st_policy S) has X w'
      | (Inr x, w') \<Rightarrow> inv (st_policy S) has X w'"
    by (auto split: prod.splits sum.splits)
qed

lemma triple_both:
  "triple P m Q E \<Longrightarrow> triple P' m Q' E' \<Longrightarrow> triple (\<lambda>w. P w \<and> P' w) m (\<lambda>x w. Q x w \<and> Q' x w) (\<lambda>w. E w \<and> E' w)"
  unfolding triple_def by (fastforce split: prod.splits sum.splits)

lemma triple_attempt:
  assumes "triple P m Q' E'" "\<And>x w. Q' x w \<Longrightarrow> Q (Inr x) w" "\<And>e w. E' w \<Longrightarrow> Q (Inl e) w"
  shows "triple P (attempt m) Q E"
  unfolding triple_def
proof (intro allI impI)
  fix w assume P: "P w"
  obtain r w' where eq: "m w = (r, w')" by fastforce
  have "Q r w'"
  proof (cases r)
    case (Inl e)
    then have "E' w'" using tripleD_Inl [OF assms(1) P] eq by blast
    then show ?thesis using assms(3) Inl by blast
  next
    case (Inr x)
    then have "Q' x w'" using tripleD_Inr [OF assms(1) P] eq by blast
    then show ?thesis using assms(2) Inr by blast
  qed
  then show "case attempt m w of (Inl e, w') \<Rightarrow> E w' | (Inr x, w') \<Rightarrow> Q x w'"
    by (simp add: eq)
qed

lemma release_triple:
  assumes T: "host_laws T has" and S: "wf_store S"
  shows "triple (held_inv S has X l) (release T S) (\<lambda>_. inv (st_policy S) has X) (inv (st_policy S) has X)"
proof -
  let ?I = "inv (st_policy S) has X" and ?m = "l\<lparr>l_phase := Quarantined\<rparr>"
  let ?H = "\<lambda>r w. held_inv S has X l w \<and> (r = Inr () \<longrightarrow> l_phase l = Reserved \<or> absent has (l_tap l) w)"
  have set: "triple (held_inv S has X l) (set_cur ?m) (\<lambda>_. held_inv S has X ?m) ?I"
    by (rule triple_set_cur) (use held_phase in auto)
  have saved: "triple (held_inv S has X ?m) (save S ?m) (\<lambda>_. held_inv S has X ?m) ?I"
    by (rule triple_weaken [OF save_held [OF S]]) auto
  have quarantine: "triple (held_inv S has X l)
      (seq (set_cur ?m) (\<lambda>_. seq (save S ?m) (\<lambda>_. lift_r (Inl e)))) (\<lambda>_. ?I) ?I" for e :: error
    by (rule triple_seq [OF set], rule triple_seq [OF saved], rule triple_lift) auto
  have k: "triple (?H r) (case r of
       Inl e \<Rightarrow> seq (set_cur ?m) (\<lambda>_. seq (save S ?m) (\<lambda>_. lift_r (Inl e)))
     | Inr _ \<Rightarrow> unlink_lease S (l_lease l)) (\<lambda>_. ?I) ?I" for r
  proof (cases r)
    case (Inl e)
    then show ?thesis by (simp add: triple_pre [OF quarantine])
  next
    case (Inr u)
    then show ?thesis using unlink_held [OF S, of has X l] by simp
  qed
  have removed: "triple (held_inv S has X l) (attempt (remove_resources T l)) ?H ?I"
  proof -
    have "triple (\<lambda>w. held_inv S has X l w \<and> True) (remove_resources T l)
        (\<lambda>_ w. held_inv S has X l w \<and> absent has (l_tap l) w) (\<lambda>w. held_inv S has X l w \<and> True)"
      by (rule triple_both [OF held_quiet_step [OF quiet_remove_resources [OF T]] remove_resources_absent [OF T]])
    from triple_attempt [OF this, where Q = ?H and E = ?I]
    have "triple (\<lambda>w. held_inv S has X l w \<and> True) (attempt (remove_resources T l)) ?H ?I" by simp
    then show ?thesis by (rule triple_pre) simp
  qed
  have first: "triple (held_inv S has X l)
      (if l_phase l = Reserved then ret (Inr ()) else attempt (remove_resources T l)) ?H ?I"
    using removed by (cases "l_phase l = Reserved") (simp_all add: triple_def)
  have "triple (held_inv S has X l) (seq (check (l_phase l = Reserved \<or> l_phase l = Revoked) msg) (\<lambda>_.
     seq (if l_phase l = Reserved then ret (Inr ()) else attempt (remove_resources T l)) (\<lambda>removed.
     case removed of
       Inl e \<Rightarrow> seq (set_cur ?m) (\<lambda>_. seq (save S ?m) (\<lambda>_. lift_r (Inl e)))
     | Inr _ \<Rightarrow> unlink_lease S (l_lease l)))) (\<lambda>_. ?I) ?I" for msg
    by (rule triple_seq_check, rule triple_seq [OF first k]) simp
  then show ?thesis
    unfolding release_def by (rule triple_cur) (simp add: held_def)
qed

lemma revoke_and_release_triple:
  assumes T: "host_laws T has" and S: "wf_store S"
  shows "triple (holding S has X) (revoke_and_release T S) (\<lambda>_. inv (st_policy S) has X) (inv (st_policy S) has X)"
proof -
  have ex: "triple (holding S has X) m Q E" if "\<And>l. triple (held_inv S has X l) m Q E"
    for Q E and m :: "('a, unit) io"
    using that by (fastforce simp: triple_def holding_def)
  have "triple (holding S has X) (revoke T S) (\<lambda>_. holding S has X) (inv (st_policy S) has X)"
    by (rule ex, rule triple_weaken [OF revoke_triple [OF T S]]) (auto simp: holding_def)
  moreover have "triple (holding S has X) (release T S) (\<lambda>_. inv (st_policy S) has X) (inv (st_policy S) has X)"
    by (rule ex, rule release_triple [OF T S])
  ultimately show ?thesis unfolding revoke_and_release_def by (rule triple_seq)
qed

section \<open>Loading a record\<close>

definition loaded :: "store \<Rightarrow> lease \<Rightarrow> 'h world \<Rightarrow> bool" where
  "loaded S l w \<longleftrightarrow> wf_lease l \<and> l_instance l = st_instance S
     \<and> leases (st_policy S) w (lease_path (st_policy S) l) = Some l"

lemma loaded_quiet: "quiet (st_policy S) has X u v \<Longrightarrow> loaded S l u \<Longrightarrow> loaded S l v"
  using leases_quiet [of "st_policy S" has X u v] by (simp add: loaded_def)

lemma open_secure_content:
  fixes w :: "'h world"
  assumes "open_secure p w = (Inr c, w')"
  shows "map_option fi_content (map_of (w_files w) p) = Some c"
proof -
  let ?eff = "(\<lambda>w. case map_of (w_files w) p of
            Some f \<Rightarrow> if (case md_kind (fi_meta f) of Symlink _ \<Rightarrow> True | _ \<Rightarrow> False)
                      then (Inl os_error, w) else (Inr f, w)
          | None \<Rightarrow> (Inl os_error, w)) :: ('h, fs_file) io"
  from assms obtain f w1 where "syscall ?eff w = (Inr f, w1)" and c: "c = fi_content f"
    by (auto simp: open_secure_def act_simps secure_def)
  from syscall_Inr [OF this(1)] obtain os where "?eff (w\<lparr>w_script := os\<rparr>) = (Inr f, w1)"
    by (elim exE conjE)
  with c show ?thesis by (auto split: option.splits if_splits)
qed

lemma load_loaded:
  assumes "load S token w = (Inr (Some l), w')" "wf_store S"
  shows "loaded S l w' \<and> l_lease l = token"
proof -
  from assms(1) obtain c w1 where t: "valid_token token" and o: "open_secure (json_path S token) w = (Inr c, w1)"
    and c: "as_lease c = Inr l" and v: "wf_lease l" and own: "l_lease l = token" "l_instance l = st_instance S"
    by (auto simp: load_def act_simps result_simps validate_lease_iff split: if_splits)
  have "c = LeaseRecord l" using c by (cases c) (auto simp: as_lease_def)
  then have "journal w (json_path S token) = Some (LeaseRecord l)"
    using open_secure_content [OF o] json_is_json [OF t, of S] by (simp add: journal_def)
  then have "loaded S l w"
    using v own json_in_state [OF assms(2)] lease_path_json [OF assms(2), of l]
    by (simp add: loaded_def leases_journal)
  moreover have "quiet (st_policy S) (\<lambda>_ _. False) {} w w'"
    using quiet_load [of "st_policy S" "\<lambda>_ _. False" "{}" S token] assms(1) by (auto simp: moves_def dest: spec [of _ w])
  ultimately show ?thesis using loaded_quiet own by blast
qed

lemma load_triple:
  assumes "wf_store S"
  shows "triple (inv (st_policy S) has X) (load S token)
    (\<lambda>r w. inv (st_policy S) has X w \<and> (\<forall>l. r = Some l \<longrightarrow> loaded S l w \<and> l_lease l = token)) (inv (st_policy S) has X)"
  using quiet.triple_moves [OF quiet_load inv_quiet] load_loaded [OF _ assms]
  unfolding triple_def by (fastforce split: prod.splits sum.splits)

lemma set_loaded:
  "triple (\<lambda>w. inv (st_policy S) has X w \<and> loaded S l w) (set_cur l) (\<lambda>_. held_inv S has X l) E"
  by (rule triple_set_cur) (auto simp: loaded_def held_def)

section \<open>The operations keep the invariant\<close>

lemma inv_moves:
  assumes "moves (quiet P has {}) m"
  shows "triple (inv P has X) m (\<lambda>_. inv P has X) (inv P has X)"
  by (rule quiet.triple_moves [OF assms inv_quiet])

lemma inv_seq:
  assumes "moves (quiet P has {}) m" "\<And>x. triple (inv P has X) (k x) Q (inv P has X)"
  shows "triple (inv P has X) (seq m k) Q (inv P has X)"
  by (rule triple_seq [OF inv_moves [OF assms(1)] assms(2)])

lemma loaded_inv_seq:
  assumes "moves (quiet (st_policy S) has {}) m"
    "\<And>x. triple (\<lambda>w. inv (st_policy S) has X w \<and> loaded S l w) (k x) Q (inv (st_policy S) has X)"
  shows "triple (\<lambda>w. inv (st_policy S) has X w \<and> loaded S l w) (seq m k) Q (inv (st_policy S) has X)"
proof (rule triple_seq [OF _ assms(2)])
  have "triple (\<lambda>w. inv (st_policy S) has X w \<and> loaded S l w) m
      (\<lambda>_ w. inv (st_policy S) has X w \<and> loaded S l w) (\<lambda>w. inv (st_policy S) has X w \<and> loaded S l w)"
    by (rule quiet.triple_moves [OF assms(1)]) (auto intro: inv_quiet loaded_quiet)
  then show "triple (\<lambda>w. inv (st_policy S) has X w \<and> loaded S l w) m
      (\<lambda>_ w. inv (st_policy S) has X w \<and> loaded S l w) (inv (st_policy S) has X)"
    by (rule triple_weaken) auto
qed

lemma load_seq:
  assumes "wf_store S" "triple (inv (st_policy S) has X) (k None) Q (inv (st_policy S) has X)"
    "\<And>l. l_lease l = token \<Longrightarrow>
      triple (\<lambda>w. inv (st_policy S) has X w \<and> loaded S l w) (k (Some l)) Q (inv (st_policy S) has X)"
  shows "triple (inv (st_policy S) has X) (seq (load S token) k) Q (inv (st_policy S) has X)"
proof (rule triple_seq [OF load_triple [OF assms(1)]])
  fix r
  show "triple (\<lambda>w. inv (st_policy S) has X w \<and> (\<forall>l. r = Some l \<longrightarrow> loaded S l w \<and> l_lease l = token))
      (k r) Q (inv (st_policy S) has X)"
  proof (cases r)
    case None
    then show ?thesis by (intro triple_pre [OF assms(2) [folded None]]) simp
  next
    case (Some l)
    show ?thesis
    proof (cases "l_lease l = token")
      case True
      then show ?thesis using Some by (intro triple_pre [OF assms(3) [OF True, folded Some]]) simp
    next
      case False
      then show ?thesis using Some by (simp add: triple_def)
    qed
  qed
qed

lemma inv_weaken_loaded:
  "triple (inv P has X) m Q E \<Longrightarrow> triple (\<lambda>w. inv P has X w \<and> loaded S l w) m Q E"
  by (erule triple_pre) simp

lemma set_loaded_seq:
  assumes "triple (held_inv S has X l) (k ()) Q (inv (st_policy S) has X)"
  shows "triple (\<lambda>w. inv (st_policy S) has X w \<and> loaded S l w) (seq (set_cur l) k) Q (inv (st_policy S) has X)"
  by (rule triple_seq [OF set_loaded]) (simp add: assms)

lemma revoke_release_held:
  assumes "host_laws T has" "wf_store S"
  shows "triple (held_inv S has X l) (revoke_and_release T S) (\<lambda>_. inv (st_policy S) has X) (inv (st_policy S) has X)"
  by (rule triple_pre [OF revoke_and_release_triple [OF assms]]) (auto simp: holding_def)

lemma take_down_triple:
  assumes T: "host_laws T has" and S: "wf_store S"
  shows "triple (\<lambda>w. inv (st_policy S) has X w \<and> loaded S l w) (take_down T S rel l)
    (\<lambda>_. inv (st_policy S) has X) (inv (st_policy S) has X)"
proof -
  have "triple (held_inv S has X l) (revoke T S) (\<lambda>_. inv (st_policy S) has X) (inv (st_policy S) has X)"
    by (rule triple_weaken [OF revoke_triple [OF T S]]) (auto simp: holding_def)
  then show ?thesis
    unfolding take_down_def
    by (intro set_loaded_seq triple_if triple_seq_check revoke_release_held T S) simp_all
qed

lemma operate_triple:
  assumes T: "host_laws T has" and S: "wf_store S"
  shows "triple (inv (st_policy S) has X) (operate T S own token rel)
    (\<lambda>_. inv (st_policy S) has X) (inv (st_policy S) has X)"
proof -
  let ?I = "inv (st_policy S) has X"
  have none: "triple ?I (ret ()) (\<lambda>_. ?I) ?I" by (rule triple_ret)
  have owned: "triple (\<lambda>w. ?I w \<and> loaded S l w) (seq (lift_r (require_owner l own)) (\<lambda>_. take_down T S rel l)) (\<lambda>_. ?I) ?I" for l
    by (rule loaded_inv_seq [OF quiet.lift_moves take_down_triple [OF T S]])
  have again: "triple ?I (operate_again T S own token rel) (\<lambda>_. ?I) ?I"
    unfolding operate_again_def
    by (rule inv_seq [OF quiet_global_lock], rule load_seq [OF S]) (simp_all only: option.case none owned)
  have first: "triple (\<lambda>w. ?I w \<and> loaded S l w) (seq (lift_r (require_owner l own)) (\<lambda>_.
      seq (execution_lock T S (l_execution_id l) False) (\<lambda>got. seq (check got msg) (\<lambda>_.
      operate_again T S own token rel)))) (\<lambda>_. ?I) ?I" for l msg
    by (rule inv_weaken_loaded, intro inv_seq again quiet.moves_rules quiet_store)
  show ?thesis
    unfolding operate_def
    by (rule inv_seq [OF quiet_global_lock], rule load_seq [OF S])
      (simp_all only: option.case none first)
qed

lemma cleanup_found_triple:
  assumes T: "host_laws T has" and S: "wf_store S"
  shows "triple (\<lambda>w. inv (st_policy S) has X w \<and> loaded S l w) (cleanup_found T S root_hook l)
    (\<lambda>_. inv (st_policy S) has X) (inv (st_policy S) has X)"
proof -
  let ?I = "inv (st_policy S) has X"
  have att: "triple (held_inv S has X l) (seq (attempt (revoke_and_release T S)) (\<lambda>outcome. ret (f outcome)))
      (\<lambda>_. ?I) ?I" for f :: "unit result \<Rightarrow> string list"
    by (rule triple_seq_attempt [OF revoke_release_held [OF T S]]) (auto intro: triple_ret)
  show ?thesis
    unfolding cleanup_found_def
    by (rule loaded_inv_seq [OF quiet.attempt_moves [OF quiet_process_starttime]],
        intro triple_if inv_weaken_loaded [OF triple_ret] set_loaded_seq att)
qed

lemma cleanup_one_triple:
  assumes T: "host_laws T has" and S: "wf_store S"
  shows "triple (inv (st_policy S) has X) (cleanup_one T S root_hook old)
    (\<lambda>_. inv (st_policy S) has X) (inv (st_policy S) has X)"
proof -
  let ?I = "inv (st_policy S) has X"
  have none: "triple ?I (ret x) (\<lambda>_. ?I) ?I" for x :: "string list" by (rule triple_ret)
  have found: "triple ?I (seq (load S (l_lease old)) (\<lambda>found.
      case found of None \<Rightarrow> ret [] | Some l \<Rightarrow> cleanup_found T S root_hook l)) (\<lambda>_. ?I) ?I"
    by (rule load_seq [OF S]) (simp_all only: option.case none cleanup_found_triple [OF T S])
  show ?thesis
    unfolding cleanup_one_def
    by (rule inv_seq [OF quiet_execution_lock], intro triple_if none inv_seq quiet_global_lock found)
qed

lemma cleanup_each_triple:
  assumes T: "host_laws T has" and S: "wf_store S"
  shows "triple (inv (st_policy S) has X) (cleanup_each T S root_hook ls)
    (\<lambda>_. inv (st_policy S) has X) (inv (st_policy S) has X)"
proof (induction ls)
  case Nil
  then show ?case by (simp only: cleanup_each.simps) (rule triple_ret)
next
  case (Cons l ls)
  show ?case
    unfolding cleanup_each.simps
    by (rule triple_seq [OF cleanup_one_triple [OF T S]], rule triple_seq [OF Cons.IH], rule triple_ret)
qed

lemma store_cleanup_triple:
  assumes T: "host_laws T has" and S: "wf_store S"
  shows "triple (inv (st_policy S) has X) (store_cleanup T S root_hook)
    (\<lambda>_. inv (st_policy S) has X) (inv (st_policy S) has X)"
  unfolding store_cleanup_def
  by (rule inv_seq [OF quiet_global_lock], rule inv_seq [OF quiet_records_in],
      rule triple_seq [OF cleanup_each_triple [OF T S]], rule triple_check)

end
