(* ===== verification/NetworkReserve.thy ===== *)
theory NetworkReserve
  imports NetworkSafety
begin

text \<open>
  Reading the journal back and allocating from it: a scan that succeeds has seen every record,
  so the slot and the token that \<open>reserve\<close> picks are new.
\<close>

section \<open>A scan sees every record\<close>

lemma quiet_result:
  "moves (quiet P has X) m \<Longrightarrow> m w = (r, w') \<Longrightarrow> quiet P has X w w'"
  by (metis moves_def snd_conv)

lemma journal_quiet: "quiet P has X u v \<Longrightarrow> journal v = journal u"
  by (simp add: quiet_def)

abbreviation (input) nothing :: "'h \<Rightarrow> string \<Rightarrow> bool" where "nothing \<equiv> \<lambda>_ _. False"

lemma read_entries_complete:
  assumes "read_entries d names w = (Inr ls, w')" "name \<in> set names" "extension name = Some ''json''"
  shows "\<exists>l \<in> set ls. journal w (d @ [name]) = Some (LeaseRecord l)"
  using assms
proof (induction names arbitrary: w ls)
  case Nil
  then show ?case by simp
next
  case (Cons x xs)
  show ?case
  proof (cases "extension x = Some ''json''")
    case False
    then show ?thesis using Cons by auto
  next
    case True
    from Cons.prems(1) True obtain c w1 l ls2 where o: "open_secure (d @ [x]) w = (Inr c, w1)"
      and l: "as_lease c = Inr l" and rest: "read_entries d xs w1 = (Inr ls2, w')" and ls: "ls = l # ls2"
      by (auto simp: act_simps result_simps)
    have c: "c = LeaseRecord l" using l by (cases c) (auto simp: as_lease_def)
    have j: "journal w1 = journal w"
      using journal_quiet [OF quiet_result [OF quiet_open_secure [of undefined nothing "{}"] o]] .
    show ?thesis
    proof (cases "name = x")
      case True
      have "json_file (d @ [x])" using \<open>extension x = Some ''json''\<close> by (simp add: json_file_def)
      then have "journal w (d @ [x]) = Some (LeaseRecord l)"
        using open_secure_content [OF o] c by (simp add: journal_def)
      then show ?thesis using True ls by auto
    next
      case False
      then show ?thesis using Cons.IH [OF rest] Cons.prems ls j by auto
    qed
  qed
qed

lemma read_directory_names:
  fixes w :: "'h world"
  assumes "read_directory d w = (Inr names, w')" "map_of (w_files w) (d @ [name]) \<noteq> None"
  shows "name \<in> set names"
proof -
  have "d @ [name] \<in> set (map fst (w_files w))"
    using assms(2) by (metis domIff dom_map_of_conv_image_fst set_map)
  then have "name \<in> last ` set (filter (\<lambda>p. p \<noteq> [] \<and> butlast p = d) (map fst (w_files w)))"
    by (intro image_eqI [where x = "d @ [name]"]) auto
  moreover have "names = map last (filter (\<lambda>p. p \<noteq> [] \<and> butlast p = d) (map fst (w_files w)))"
    using assms(1) unfolding read_directory_def by (auto dest!: syscall_Inr)
  ultimately show ?thesis by (simp only: set_map)
qed

lemma records_in_complete:
  assumes r: "records_in d w = (Inr ls, w')" and f: "journal w (d @ [name]) = Some c"
    and dir: "path_exists w d"
  shows "\<exists>l \<in> set ls. c = LeaseRecord l"
proof -
  from r dir obtain w1 names w2 where s: "secure d w = (Inr (), w1)" and d: "read_directory d w1 = (Inr names, w2)"
    and e: "read_entries d names w2 = (Inr ls, w')"
    by (auto simp: records_in_def act_simps split: if_splits)
  have w1: "w1 = w" using s by (simp add: secure_def)
  have j: "journal w2 = journal w"
    using journal_quiet [OF quiet_result [OF quiet_read_directory [of undefined nothing "{}"] d]] w1 by simp
  have ext: "extension name = Some ''json''" and mem: "map_of (w_files w) (d @ [name]) \<noteq> None"
    using f by (auto simp: journal_def json_file_def split: if_splits)
  show ?thesis
    using read_entries_complete [OF e read_directory_names [OF d] ext] mem w1 f by (auto simp: j)
qed

lemma journal_directory:
  assumes "journal_ok P w" "u \<in> set (garden_units P)" "journal w (state_path P @ [u, name]) = Some c"
  shows "path_exists w (state_path P @ [u])"
proof -
  have "map_of (w_files w) (state_path P @ [u, name]) \<noteq> None"
    using assms(3) by (auto simp: journal_def split: if_splits)
  then show ?thesis using assms(1,2) unfolding journal_ok_def directories_exist_def by blast
qed

lemma records_of_complete:
  assumes "records_of d us w = (Inr ls, w')" "u \<in> set us" "journal w (d @ [u, name]) = Some c"
    "journal_ok P w" "d = state_path P" "set us \<subseteq> set (garden_units P)"
  shows "\<exists>l \<in> set ls. c = LeaseRecord l"
  using assms
proof (induction us arbitrary: w ls)
  case Nil
  then show ?case by simp
next
  case (Cons x xs)
  from Cons.prems(1) obtain l1 w1 l2 where r: "records_in (d @ [x]) w = (Inr l1, w1)"
    and rest: "records_of d xs w1 = (Inr l2, w')" and ls: "ls = l1 @ l2"
    by (auto simp: act_simps)
  note q = quiet_result [OF quiet_records_in [of P nothing "{}"] r]
  show ?case
  proof (cases "u = x")
    case True
    have "path_exists w (d @ [u])"
      using Cons.prems(2-6) journal_directory [of P w u name c] by auto
    then show ?thesis using records_in_complete [OF r, of name c] Cons.prems(3) True ls by auto
  next
    case False
    then show ?thesis
      using Cons.IH [OF rest] Cons.prems journal_quiet [OF q] journal_ok_quiet [OF q] ls by auto
  qed
qed

definition seen :: "policy \<Rightarrow> lease list \<Rightarrow> 'h world \<Rightarrow> bool" where
  "seen P ls w = (\<forall>p l. leases P w p = Some l \<longrightarrow> l \<in> set ls)"

lemma seen_quiet: "quiet P has X u v \<Longrightarrow> seen P ls u \<Longrightarrow> seen P ls v"
  using leases_quiet [of P has X u v] by (simp add: seen_def)

lemma all_records_seen:
  assumes "all_records S w = (Inr ls, w')" "journal_ok (st_policy S) w"
  shows "seen (st_policy S) ls w'"
proof -
  from assms(1) obtain w1 where r: "records_of (state_path (st_policy S)) (garden_units (st_policy S)) w = (Inr ls, w1)"
    by (auto simp: all_records_def act_simps)
  have "seen (st_policy S) ls w"
    using records_of_complete [OF r _ _ assms(2) refl] by (fastforce simp: seen_def leases_journal in_state_def)
  then show ?thesis
    using seen_quiet [OF quiet_result [OF quiet_all_records [of "st_policy S" nothing "{}"] assms(1)]] by blast
qed

section \<open>Reserving a slot\<close>

definition owner_ok :: "owner \<Rightarrow> bool" where
  "owner_ok own = (0 < peer_pid (o_peer own) \<and> 0 < o_starttime own)"

lemma wf_new_lease:
  assumes S: "wf_store S" and own: "owner_ok own" and ex: "validate_execution e = Inr ()"
    and a: "addresses (st_policy S) slot = Inr (g, ad)" and n: "length random = 16"
  shows "wf_lease (new_lease S own e slot g ad random)"
proof -
  have P: "wf_policy (st_policy S)" and inst: "st_instance S \<in> set (garden_units (st_policy S))"
    using S by (simp_all add: wf_store_def)
  note ad = addresses_Inr [OF P a]
  have "slot < slots (st_policy S)" using a by (auto simp: addresses_def result_simps)
  then have "slot < 16384" using slots_le [OF P] by (simp add: word_less_nat_alt)
  moreover have "ad = g + 1"
    using a by (auto simp: addresses_def result_simps Let_def)
  moreover have "valid_unit (st_instance S)" using P inst by (simp add: wf_policy_def list_all_iff)
  moreover have "\<forall>b \<in> set (map unat random). b < 256" for random :: "8 word list"
    using unsigned_less [where ?'a = nat and ?'b = 8] by auto
  ultimately show ?thesis
    using own ex ad(5) n pool_private [OF P ad(3)] pool_private [OF P ad(4)]
      valid_token_of [of "map unat random"] valid_mac_of [of "map unat random"]
    by (simp add: wf_lease_def new_lease_def gateway_low_bits owner_ok_def validate_execution_def ensure_eq_Inr)
qed

lemma free_slot_fresh:
  assumes "free_slot P ls = Some n" "l \<in> set ls" shows "l_slot l \<noteq> word_of_nat n"
proof -
  have "word_of_nat n \<notin> l_slot ` set ls" using assms(1) by (auto simp: free_slot_def find_Some_iff)
  with assms(2) show ?thesis by (metis imageI)
qed

lemma draw16_length:
  fixes w :: "'h world"
  shows "draw16 w = (Inr r, w') \<Longrightarrow> length r = 16"
  unfolding draw16_def by (auto dest!: syscall_Inr)

lemma save_fresh:
  assumes S: "wf_store S" and wf: "wf_lease l" and inst: "l_instance l = st_instance S"
    and slot: "\<And>m. m \<in> set ls \<Longrightarrow> l_slot m \<noteq> l_slot l" and token: "\<And>m. m \<in> set ls \<Longrightarrow> l_lease m \<noteq> l_lease l"
  shows "triple (\<lambda>w. inv (st_policy S) has X w \<and> seen (st_policy S) ls w) (save S l)
    (\<lambda>_ w. inv (st_policy S) has X w \<and> loaded S l w) (inv (st_policy S) has X)"
  unfolding triple_def
proof (intro allI impI, elim conjE)
  let ?P = "st_policy S"
  fix w assume inv: "inv ?P has X w" and seen: "seen ?P ls w"
  have adm: "admissible S l" using S wf inst by (simp add: admissible_def wf_lease_def)
  have ok: "journal_ok ?P w" using inv by (simp add: inv_def)
  have rep: "inv ?P has X v \<and> loaded S l v"
    if step: "replaced ?P has (json_path S (l_lease l)) (Some (LeaseRecord l)) w v" for v
  proof
    show "inv ?P has X v"
    proof (rule inv_replaced [OF inv S wf inst _ _ step])
      show "p = lease_path ?P l" if "leases ?P w p = Some m" "l_slot m = l_slot l" for p m
        using that seen slot by (auto simp: seen_def)
      show "l_slot m = l_slot l \<and> (l_phase l = Reserved \<longrightarrow> l_phase m = Reserved)"
        if "leases ?P w (lease_path ?P l) = Some m" for m
      proof -
        have "lease_path ?P l = lease_path ?P m" using leases_ok [OF ok that] by simp
        then have "l_lease m = l_lease l" by (simp add: lease_path_def)
        then show ?thesis using seen that token by (auto simp: seen_def)
      qed
    qed
    have "leases ?P v = (leases ?P w)(lease_path ?P l \<mapsto> l)"
      using leases_replaced [OF step] lease_path_json [OF S inst] json_in_state [OF S] by simp
    then show "loaded S l v" using wf inst by (simp add: loaded_def)
  qed
  obtain r w' where eq: "save S l w = (r, w')" by fastforce
  have "inv ?P has X w'"
    using save_cases [OF adm, of has w] rep inv_quiet [OF _ inv] unfolding eq snd_conv by blast
  moreover have "loaded S l w'" if "r = Inr ()"
    using save_replaces [OF adm, of w _ w' has] rep eq that by blast
  ultimately show "case save S l w of (Inl e, w') \<Rightarrow> inv ?P has X w'
      | (Inr x, w') \<Rightarrow> inv ?P has X w' \<and> loaded S l w'"
    unfolding eq by (cases r) simp_all
qed

lemma seen_seq:
  assumes "moves (quiet P has {}) m"
    "\<And>x. triple (\<lambda>w. inv P has X w \<and> seen P ls w) (k x) Q (inv P has X)"
  shows "triple (\<lambda>w. inv P has X w \<and> seen P ls w) (seq m k) Q (inv P has X)"
proof (rule triple_seq [OF _ assms(2)])
  have "triple (\<lambda>w. inv P has X w \<and> seen P ls w) m (\<lambda>_ w. inv P has X w \<and> seen P ls w)
      (\<lambda>w. inv P has X w \<and> seen P ls w)"
    by (rule quiet.triple_moves [OF assms(1)]) (auto intro: inv_quiet seen_quiet)
  then show "triple (\<lambda>w. inv P has X w \<and> seen P ls w) m (\<lambda>_ w. inv P has X w \<and> seen P ls w) (inv P has X)"
    by (rule triple_weaken) auto
qed

lemma all_records_triple:
  "triple (inv (st_policy S) has X) (all_records S)
    (\<lambda>ls w. inv (st_policy S) has X w \<and> seen (st_policy S) ls w) (inv (st_policy S) has X)"
  unfolding triple_def
proof (intro allI impI)
  fix w :: "'a world" assume inv: "inv (st_policy S) has X w"
  obtain r w' where eq: "all_records S w = (r, w')" by fastforce
  have "inv (st_policy S) has X w'"
    using inv_quiet [OF quiet_result [OF quiet_all_records eq] inv] .
  moreover have "seen (st_policy S) ls w'" if "r = Inr ls" for ls
    using all_records_seen [of S w ls w'] eq that inv by (simp add: inv_def)
  ultimately show "case all_records S w of (Inl e, w') \<Rightarrow> inv (st_policy S) has X w'
      | (Inr ls, w') \<Rightarrow> inv (st_policy S) has X w' \<and> seen (st_policy S) ls w'"
    by (auto simp: eq split: sum.splits)
qed

lemma draw16_seq:
  fixes k :: "8 word list \<Rightarrow> ('h, 'b) io"
  assumes "\<And>r. length r = 16 \<Longrightarrow>
      triple (\<lambda>w. inv P has X w \<and> seen P ls w) (k r) Q (inv P has X)"
  shows "triple (\<lambda>w. inv P has X w \<and> seen P ls w) (seq draw16 k) Q (inv P has X)"
  unfolding triple_def
proof (intro allI impI)
  fix w :: "'h world" assume w: "inv P has X w \<and> seen P ls w"
  obtain r w' where eq: "draw16 w = (r, w')" by fastforce
  note q = quiet_result [OF quiet_draw16 [of P has "{}"] eq]
  have w': "inv P has X w' \<and> seen P ls w'" using w inv_quiet [OF q] seen_quiet [OF q] by blast
  show "case seq draw16 k w of (Inl e, w') \<Rightarrow> inv P has X w' | (Inr x, w') \<Rightarrow> Q x w'"
  proof (cases r)
    case (Inl e)
    then show ?thesis using eq w' by (simp add: seq_Inl)
  next
    case (Inr bytes)
    then have "length bytes = 16" using draw16_length eq by blast
    from assms [OF this] show ?thesis
      using eq w' Inr by (simp add: seq_Inr triple_def)
  qed
qed

lemma reserve_triple:
  assumes S: "wf_store S" and own: "owner_ok own" and ex: "validate_execution e = Inr ()"
  shows "triple (inv (st_policy S) has X) (reserve S own e)
    (\<lambda>l w. inv (st_policy S) has X w \<and> loaded S l w) (inv (st_policy S) has X)"
proof -
  let ?I = "inv (st_policy S) has X" and ?Q = "\<lambda>l w. inv (st_policy S) has X w \<and> loaded S l w"
  let ?new = "\<lambda>slot g ad random. new_lease S own e (word_of_nat slot) g ad random"
  let ?tail = "\<lambda>ls slot g ad. seq draw16 (\<lambda>random.
     seq (check (\<not> list_ex (\<lambda>l. l_lease l = token_of (map unat random)) ls) ''lease identifier collision'') (\<lambda>_.
     seq (ret (?new slot g ad random)) (\<lambda>l. seq (save S l) (\<lambda>_. ret l))))"
  have save: "triple (\<lambda>w. ?I w \<and> seen (st_policy S) ls w) (seq (save S l) (\<lambda>_. ret l)) ?Q ?I"
    if "wf_lease l" "l_instance l = st_instance S" "\<And>m. m \<in> set ls \<Longrightarrow> l_slot m \<noteq> l_slot l"
      "\<And>m. m \<in> set ls \<Longrightarrow> l_lease m \<noteq> l_lease l" for ls l
    by (rule triple_seq [OF save_fresh [OF S that] triple_ret])
  have tail: "triple (\<lambda>w. ?I w \<and> seen (st_policy S) ls w) (?tail ls slot g ad) ?Q ?I"
    if free: "free_slot (st_policy S) ls = Some slot"
      and addr: "addresses (st_policy S) (word_of_nat slot) = Inr (g, ad)" for ls slot g ad
  proof (rule draw16_seq)
    fix random :: "8 word list" assume n: "length random = 16"
    have fields: "l_slot (?new slot g ad random) = word_of_nat slot" "l_instance (?new slot g ad random) = st_instance S"
      "l_lease (?new slot g ad random) = token_of (map unat random)" by (simp_all add: new_lease_def)
    show "triple (\<lambda>w. ?I w \<and> seen (st_policy S) ls w)
        (seq (check (\<not> list_ex (\<lambda>l. l_lease l = token_of (map unat random)) ls) ''lease identifier collision'') (\<lambda>_.
         seq (ret (?new slot g ad random)) (\<lambda>l. seq (save S l) (\<lambda>_. ret l)))) ?Q ?I"
    proof (rule triple_seq_check)
      assume "\<not> list_ex (\<lambda>l. l_lease l = token_of (map unat random)) ls"
      then have "m \<in> set ls \<Longrightarrow> l_lease m \<noteq> token_of (map unat random)" for m by (auto simp: list_ex_iff)
      then show "triple (\<lambda>w. ?I w \<and> seen (st_policy S) ls w)
          (seq (ret (?new slot g ad random)) (\<lambda>l. seq (save S l) (\<lambda>_. ret l))) ?Q ?I"
        unfolding seq_ret using free_slot_fresh [OF free] wf_new_lease [OF S own ex addr n]
        by (intro save) (simp_all add: fields)
    qed simp
  qed
  show ?thesis
    unfolding reserve_def
  proof (rule inv_seq [OF quiet_global_lock], rule inv_seq [OF quiet.attempt_moves [OF quiet_process_starttime]],
      rule inv_seq [OF quiet.check_moves], rule triple_seq [OF all_records_triple], rule seen_seq [OF quiet.check_moves],
      rule triple_seq_lift)
    fix ls slot assume "ok_or ''network address pool exhausted (including quarantined allocations)''
        (free_slot (st_policy S) ls) = Inr slot"
    then have free: "free_slot (st_policy S) ls = Some slot" by (simp add: ok_or_eq_Inr)
    show "triple (\<lambda>w. ?I w \<and> seen (st_policy S) ls w)
        (seq (lift_r (addresses (st_policy S) (word_of_nat slot))) (\<lambda>(g, ad). ?tail ls slot g ad)) ?Q ?I"
      by (rule triple_seq_lift) (auto split: prod.split intro: tail [OF free, unfolded seq_ret])
  qed simp
qed

lemma provision_end_triple:
  assumes T: "host_laws T has" and S: "wf_store S"
  shows "triple (holding S has X) (provision_end T S r) (\<lambda>_. inv (st_policy S) has X) (inv (st_policy S) has X)"
proof (cases r)
  case (Inl e)
  have "triple (inv (st_policy S) has X) (lift_r (Inl e') :: ('a, string) io) (\<lambda>_. inv (st_policy S) has X)
      (inv (st_policy S) has X)" for e'
    by (rule triple_lift) simp_all
  then show ?thesis
    unfolding provision_end_def Inl sum.case by (intro triple_seq_attempt [OF revoke_and_release_triple [OF T S]])
qed (simp add: provision_end_def triple_def holding_def)

lemma provision_triple:
  assumes T: "host_laws T has" and S: "wf_store S" and own: "owner_ok own"
  shows "triple (inv (st_policy S) has X) (provision T S own e)
    (\<lambda>_. inv (st_policy S) has X) (inv (st_policy S) has X)"
proof -
  let ?I = "inv (st_policy S) has X"
  let ?fill = "\<lambda>l. seq (set_cur l) (\<lambda>_. seq (attempt (prepare_host T S)) (provision_end T S))"
  have fresh: "triple (\<lambda>w. ?I w \<and> loaded S l w) (?fill l) (\<lambda>_. ?I) ?I" for l
    by (rule set_loaded_seq, rule triple_seq_attempt [OF prepare_host_triple [OF T S]])
      (rule provision_end_triple [OF T S])+
  have existing: "triple ?I (seq (lift_r (require_owner l own)) (\<lambda>_. seq (check c msg) (\<lambda>_. ret out))) (\<lambda>_. ?I) ?I"
    for l c msg and out :: string
    by (rule inv_moves) (intro quiet.moves_rules)
  have found: "triple ?I (case f of
       Some l \<Rightarrow> seq (lift_r (require_owner l own)) (\<lambda>_.
         seq (check (l_phase l = Active) msg) (\<lambda>_. ret (print_json T (lease_output (st_policy S) l))))
     | None \<Rightarrow> seq (reserve S own e) ?fill) (\<lambda>_. ?I) ?I" if "validate_execution e = Inr ()" for f msg
    using existing triple_seq [OF reserve_triple [OF S own that] fresh] by (cases f) simp_all
  show ?thesis
    unfolding provision_def
    by (rule triple_seq_lift, rule inv_seq [OF quiet_execution_lock], rule inv_seq [OF quiet.check_moves],
        rule inv_seq [OF quiet_global_lock], rule inv_seq [OF quiet_records_in], rule found) simp_all
qed

end
