(* ===== verification/NetworkService.thy ===== *)
theory NetworkService
  imports NetworkReserve Protocol
begin

text \<open>
  The entry points of \<open>src/src/commands/activator/network.rs\<close> (\<open>request\<close> for a client of the socket,
  \<open>cleanup\<close> for the administrator), and the properties of the lease operations.
\<close>

section \<open>Entry points\<close>

definition network_dispatch ::
  "'h tools \<Rightarrow> store \<Rightarrow> owner \<Rightarrow> request \<Rightarrow> ('h, string option) io" where
  "network_dispatch T S own req =
     seq (lift_r (ok_or ''missing network_action'' (rq_network_action req))) (\<lambda>action.
     if action = ''provision'' then
       seq (check (rq_lease req = None) ''provision does not accept lease'') (\<lambda>_.
       seq (lift_r (ok_or ''missing execution_id'' (rq_execution_id req))) (\<lambda>e.
       seq (provision T S own e) (\<lambda>out.
       ret (Some out))))
     else if action = ''revoke'' \<or> action = ''release'' then
       seq (check (rq_execution_id req = None) ''lease operation does not accept execution_id'') (\<lambda>_.
       seq (lift_r (ok_or ''missing lease'' (rq_lease req))) (\<lambda>token.
       seq (operate T S own token (action = ''release'')) (\<lambda>_.
       ret None)))
     else if action = ''cleanup'' then
       seq (check (rq_execution_id req = None \<and> rq_lease req = None)
         ''cleanup does not accept execution_id or lease'') (\<lambda>_.
       seq (store_cleanup T S False) (\<lambda>_.
       ret None))
     else lift_r (Inl (Msg (''invalid network_action: '' @ action))))"

definition network_request ::
  "'h tools \<Rightarrow> bool \<Rightarrow> path \<Rightarrow> peer_credentials \<Rightarrow> proc_reads \<Rightarrow> request \<Rightarrow> ('h, string option) io" where
  "network_request T root policy_path peer reads req =
     seq (store_policy root policy_path) (\<lambda>p.
     seq (lift_r (authenticate p peer reads)) (\<lambda>own.
     seq (store_open p (o_instance own)) (\<lambda>S.
     network_dispatch T S own req)))"

definition network_cleanup :: "'h tools \<Rightarrow> bool \<Rightarrow> bool \<Rightarrow> path \<Rightarrow> string \<Rightarrow> ('h, unit) io" where
  "network_cleanup T real_root root policy_path inst =
     seq (check (real_root \<and> root) ''network cleanup requires direct root invocation'') (\<lambda>_.
     seq (store_policy root policy_path) (\<lambda>p.
     seq (store_open p inst) (\<lambda>S.
     store_cleanup T S True)))"

lemma store_policy_wf: "store_policy root path w = (Inr p, w') \<Longrightarrow> wf_policy p"
proof -
  assume "store_policy root path w = (Inr p, w')"
  then obtain c where "(case c of PolicyRecord f \<Rightarrow> validate_policy f | _ \<Rightarrow> Inl (Msg ''invalid policy file'')) = Inr p"
    by (auto simp: store_policy_def act_simps)
  then show ?thesis by (cases c) (auto dest: validate_policy_wf)
qed

lemma quiet_store_policy: "moves (quiet P has X) (store_policy root path)"
  unfolding store_policy_def by (intro quiet_rules quiet_open_secure)

lemma quiet_store_open: "moves (quiet P has X) (store_open p inst)"
  unfolding store_open_def by (intro quiet_rules quiet_create_private_directory)

lemma store_open_wf:
  assumes "store_open p inst w = (Inr S, w')" "wf_policy p"
  shows "wf_store S \<and> st_policy S = p \<and> st_instance S = inst"
  using assms by (auto simp: store_open_def act_simps result_simps wf_store_def)

lemma store_open_seq:
  assumes p: "wf_policy p"
    and k: "\<And>S. wf_store S \<Longrightarrow> st_policy S = p \<Longrightarrow> triple (inv p has X) (k S) (\<lambda>_. inv p has X) (inv p has X)"
  shows "triple (inv p has X) (seq (store_open p inst) k) (\<lambda>_. inv p has X) (inv p has X)"
  unfolding triple_def
proof (intro allI impI)
  fix w :: "'a world" assume inv: "inv p has X w"
  obtain r w' where eq: "store_open p inst w = (r, w')" by fastforce
  have w': "inv p has X w'" by (rule inv_quiet [OF quiet_result [OF quiet_store_open eq] inv])
  show "case seq (store_open p inst) k w of (Inl e, w'') \<Rightarrow> inv p has X w'' | (Inr x, w'') \<Rightarrow> inv p has X w''"
  proof (cases r)
    case (Inl e)
    then show ?thesis using eq w' by (simp add: seq_Inl)
  next
    case (Inr S)
    then have "wf_store S" "st_policy S = p" using store_open_wf [of p inst w S w'] eq p by simp_all
    from k [OF this] show ?thesis using eq w' Inr by (simp add: seq_Inr triple_def)
  qed
qed

lemma dispatch_triple:
  assumes T: "host_laws T has" and S: "wf_store S" and own: "owner_ok own"
  shows "triple (inv (st_policy S) has X) (network_dispatch T S own req)
    (\<lambda>_. inv (st_policy S) has X) (inv (st_policy S) has X)"
proof -
  have out: "triple (inv (st_policy S) has X) (ret x) (\<lambda>_. inv (st_policy S) has X) (inv (st_policy S) has X)"
    for x :: "string option" by (rule triple_ret)
  have bad: "triple (inv (st_policy S) has X) (lift_r r) (\<lambda>_. inv (st_policy S) has X) (inv (st_policy S) has X)"
    for r :: "string option result" by (rule triple_lift)
  show ?thesis
    unfolding network_dispatch_def
    by (intro inv_seq [OF quiet.lift_moves] inv_seq [OF quiet.check_moves] triple_if bad
        triple_seq [OF provision_triple [OF T S own] out] triple_seq [OF operate_triple [OF T S] out]
        triple_seq [OF store_cleanup_triple [OF T S] out])
qed

section \<open>A simulated host\<close>

text \<open>
  A host for the witnesses: its state is the list of its interface names as one text, a name per
  line; \<open>ip tuntap add dev\<close> appends a line and \<open>ip --json link show\<close> prints the text, which
  its JSON parser reads back.
\<close>

definition succeed :: "string \<Rightarrow> tool_output" where
  "succeed out = \<lparr>t_success = True, t_stdout = out, t_stderr = [], t_stdin_ok = True\<rparr>"

definition sim_tool :: "string \<Rightarrow> string list \<Rightarrow> string \<Rightarrow> tool_output \<times> string" where
  "sim_tool prog args h =
     (if prog = ''ip'' \<and> take 3 args = [''tuntap'', ''add'', ''dev''] \<and> 3 < length args \<and> char_nl \<notin> set (args ! 3)
      then (succeed [], h @ [char_nl] @ args ! 3)
      else (succeed (if args = links_args then h else []), h))"

definition sim_links :: "string \<Rightarrow> json result" where
  "sim_links s = Inr (JArr (map (\<lambda>n. JObj [(''ifname'', JStr n)]) (split_char char_nl s)))"

definition sim :: "string tools" where
  "sim = \<lparr>run_tool = sim_tool, run_nft = (\<lambda>_ h. (succeed [], h)), parse_json = sim_links,
     print_json = (\<lambda>_. ''{}''), sha256 = (\<lambda>_. [0, 0])\<rparr>"

definition sim_has :: "string \<Rightarrow> string \<Rightarrow> bool" where
  "sim_has h n = (n \<in> set (split_char char_nl h))"

lemma split_char_app: "split_char c (a @ c # b) = split_char c a @ split_char c b"
  by (induction a) (auto split: list.splits)

lemma sim_laws: "host_laws sim sim_has"
proof -
  have "sim_has (snd (sim_tool prog args h)) n \<Longrightarrow>
      sim_has h n \<or> (prog = ''ip'' \<and> take 4 args = [''tuntap'', ''add'', ''dev'', n])" for prog args h n
  proof -
    assume a: "sim_has (snd (sim_tool prog args h)) n"
    have "take 4 args = take 3 args @ [args ! 3]" if "3 < length args"
      using take_Suc_conv_app_nth [OF that] by simp
    with a show ?thesis
      by (auto simp: sim_tool_def sim_has_def split_char_app split_char_notin split: if_splits)
  qed
  moreover have "sim_has (snd (sim_tool ''ip'' links_args h)) n \<Longrightarrow>
      parse_json sim (t_stdout (fst (sim_tool ''ip'' links_args h))) = Inr (JArr ls) \<Longrightarrow> name_taken n ls" for h n ls
    by (auto simp: sim_tool_def sim_has_def sim_def sim_links_def links_args_def succeed_def name_taken_def list_ex_iff)
  ultimately show ?thesis
    unfolding host_laws_def by (simp add: sim_def)
qed

definition example_store :: store where
  "example_store = \<lparr>st_policy = example_policy, st_instance = ''sower-garden.service'',
     st_directory = state_path example_policy @ [''sower-garden.service'']\<rparr>"

definition policy_path :: path where
  "policy_path = [''/'', ''etc'', ''policy'']"

definition example_world :: "string world" where
  "example_world = \<lparr>w_files = [(json_path example_store (l_lease example_lease),
       \<lparr>fi_meta = private_file, fi_content = LeaseRecord example_lease\<rparr>),
      (policy_path, \<lparr>fi_meta = private_file, fi_content = PolicyRecord example_file\<rparr>)],
     w_lstat = (\<lambda>_. Inr private_directory), w_busy = [], w_host = ''swnt0000'', w_cur = example_lease,
     w_log = [], w_script = [], w_dead = False, w_stat = (\<lambda>_. Inr example_stat),
     w_urandom = (\<lambda>_. 0), w_drawn = 0\<rparr>"

lemma wf_example_store: "wf_store example_store"
  using wf_example by (simp add: wf_store_def example_store_def example_policy_def default_garden_units_def)

lemma example_journal:
  "in_state example_policy p \<Longrightarrow> journal example_world p =
     (if p = lease_path example_policy example_lease then Some (LeaseRecord example_lease) else None)"
proof -
  assume "in_state example_policy p"
  then have "p \<noteq> policy_path"
    by (auto simp: in_state_def policy_path_def example_policy_def default_garden_units_def)
  moreover have "lease_path example_policy example_lease = json_path example_store (l_lease example_lease)"
    by (simp add: lease_path_def json_path_def example_store_def example_lease_def)
  moreover have "json_file (json_path example_store (l_lease example_lease))"
    using wf_example_lease by (simp add: json_is_json wf_lease_def)
  ultimately show ?thesis by (auto simp: journal_def example_world_def)
qed

lemma example_leases:
  "leases example_policy example_world p = (if p = lease_path example_policy example_lease then Some example_lease else None)"
proof -
  have "in_state example_policy (lease_path example_policy example_lease)"
    by (auto simp: in_state_def lease_path_def example_lease_def example_policy_def default_garden_units_def)
  then show ?thesis using example_journal by (auto simp: leases_def)
qed

lemma example_path_exists: "path_exists example_world p"
  by (auto simp: path_exists_def lstat_def example_world_def private_directory_def private_file_def
      split: option.splits dest!: map_of_SomeD)

lemma example_journal_ok: "journal_ok example_policy example_world"
  unfolding journal_ok_def directories_exist_def
  using wf_example_lease example_leases example_path_exists example_journal
  by (auto split: if_splits)

lemma example_store_policy: "store_policy True policy_path example_world = (Inr example_policy, example_world)"
proof -
  have sep: "policy_path \<noteq> json_path example_store (l_lease example_lease)"
    by (simp add: policy_path_def json_path_def example_store_def state_path_def components_def)
  have "map_of (w_files example_world) policy_path = Some \<lparr>fi_meta = private_file, fi_content = PolicyRecord example_file\<rparr>"
    using sep by (simp add: example_world_def)
  moreover have "secure policy_path example_world = (Inr (), example_world)"
    by (simp add: secure_def secure_path_def absolute_path_def policy_path_def ancestors_def lstat_def
        example_world_def protected_entry_def private_directory_def private_file_def json_path_def example_store_def)
  moreover have "w_dead example_world = False" "w_script example_world = []" by (simp_all add: example_world_def)
  ultimately show ?thesis
    by (simp add: store_policy_def open_secure_def seq_def syscall_def private_file_def validate_example)
qed

section \<open>Properties\<close>

text \<open>C7: Saving a journal record is atomic under every failure: whichever of its system calls fails
  and wherever the process is killed, each record of the journal is afterwards what it was
  before, except that the saved lease may have been replaced as a whole; and when \<open>save\<close> returns
  without an error, it has been.  No \<open>.json\<close> file is ever seen half written.\<close>

theorem save_atomic:
  assumes "wf_store S" "wf_lease l" "l_instance l = st_instance S" "save S l w = (r, w')"
  shows "(journal w' = journal w \<or> journal w' = (journal w)(json_path S (l_lease l) \<mapsto> LeaseRecord l))
    \<and> (r = Inr () \<longrightarrow> journal w' = (journal w)(json_path S (l_lease l) \<mapsto> LeaseRecord l))"
proof -
  have adm: "admissible S l" using assms by (simp add: admissible_def wf_lease_def)
  show ?thesis
    using save_cases [OF adm, of "\<lambda>_ _. True" w] save_replaces [OF adm, of w "()" w' "\<lambda>_ _. True"] assms(4)
    by (auto simp: quiet_def replaced_def)
qed

theorem save_atomic_witness:
  "w_script (example_world\<lparr>w_script := [Works, Works, Dies]\<rparr>) \<noteq> []
   \<and> (let w' = snd (save example_store example_lease (example_world\<lparr>w_script := [Works, Works, Dies]\<rparr>)) in
      journal w' = journal (example_world\<lparr>w_script := [Works, Works, Dies]\<rparr>)
      \<or> journal w' = (journal (example_world\<lparr>w_script := [Works, Works, Dies]\<rparr>))
          (json_path example_store (l_lease example_lease) \<mapsto> LeaseRecord example_lease))"
proof -
  have inst: "l_instance example_lease = st_instance example_store" by (simp add: example_lease_def example_store_def)
  show ?thesis
    using save_atomic [OF wf_example_store wf_example_lease inst prod.collapse [symmetric],
      of "example_world\<lparr>w_script := [Works, Works, Dies]\<rparr>"]
    unfolding Let_def by simp
qed

text \<open>C1: No request of a client, whatever it asks for and whatever fails or is killed half way,
  leaves an interface behind that the journal does not know: every interface that exists
  afterwards either existed before without being the activator's, or has a journal record in a phase
  from which \<open>release\<close> and \<open>cleanup\<close> remove it.  The journal itself stays readable: every record is
  valid and stored under its own name, and no two records hold the same slot.  It is assumed
  that only \<open>ip tuntap add dev n\<close> creates an interface \<open>n\<close> and that a successful listing is complete.\<close>

theorem request_leaks_nothing:
  assumes T: "host_laws T has" and peer: "0 < peer_pid peer"
    and start: "bind_r (pr_stat_before reads) parse_starttime \<noteq> Inr 0"
    and P: "fst (store_policy root path w) = Inr P" and ok: "journal_ok P w"
  shows "journal_ok P (snd (network_request T root path peer reads req w))
    \<and> (\<forall>n. has (w_host (snd (network_request T root path peer reads req w))) n \<longrightarrow>
        (has (w_host w) n \<and> \<not> backed P w n) \<or> backed P (snd (network_request T root path peer reads req w)) n)"
proof -
  let ?X = "{n. has (w_host w) n \<and> \<not> backed P w n}"
  let ?k = "\<lambda>p. seq (lift_r (authenticate p peer reads)) (\<lambda>own.
     seq (store_open p (o_instance own)) (\<lambda>S. network_dispatch T S own req))"
  obtain w1 where sp: "store_policy root path w = (Inr P, w1)" using P by (metis prod.collapse)
  have wf: "wf_policy P" by (rule store_policy_wf [OF sp])
  have inv: "inv P has ?X w" using ok by (auto simp: inv_def no_orphans_def)
  have w1: "inv P has ?X w1" by (rule inv_quiet [OF quiet_result [OF quiet_store_policy sp] inv])
  have own: "owner_ok own" if "authenticate P peer reads = Inr own" for own
    using that peer start by (auto simp: owner_ok_def authenticate_def result_simps intro: Nat.gr0I)
  have "triple (inv P has ?X) (?k P) (\<lambda>_. inv P has ?X) (inv P has ?X)"
  proof (rule triple_seq_lift)
    fix own assume a: "authenticate P peer reads = Inr own"
    show "triple (inv P has ?X) (seq (store_open P (o_instance own)) (\<lambda>S. network_dispatch T S own req))
        (\<lambda>_. inv P has ?X) (inv P has ?X)"
      by (rule store_open_seq [OF wf]) (use dispatch_triple [OF T _ own [OF a]] in auto)
  qed
  then have "inv P has ?X (snd (?k P w1))" using keepsD [of "inv P has ?X" "?k P" w1] w1 by (simp add: keeps_triple)
  moreover have "network_request T root path peer reads req w = ?k P w1"
    unfolding network_request_def by (simp add: seq_def sp)
  ultimately show ?thesis by (auto simp: inv_def no_orphans_def)
qed

theorem request_leaks_nothing_witness:
  "host_laws sim sim_has \<and> journal_ok example_policy example_world
   \<and> journal_ok example_policy (snd (network_request sim True policy_path example_peer example_reads
       \<lparr>rq_id = ''1'', rq_kind = ''network'', rq_path = [], rq_mode = [], rq_reason = [], rq_seeds = [],
        rq_network_action = Some ''provision'', rq_execution_id = Some ''job'', rq_lease = None\<rparr> example_world))"
proof -
  have "fst (store_policy True policy_path example_world) = Inr example_policy"
    by (simp add: example_store_policy)
  moreover have "bind_r (pr_stat_before example_reads) parse_starttime \<noteq> Inr 0"
    by (simp add: example_reads_def example_starttime)
  moreover have "0 < peer_pid example_peer" by (simp add: example_peer_def)
  ultimately show ?thesis
    using sim_laws example_journal_ok request_leaks_nothing [OF sim_laws] by blast
qed

end
