(* ===== verification/Handler.thy ===== *)
theory Handler
  imports Activation NetworkService
begin

text \<open>
  \<open>src/src/commands/activator/handler.rs\<close> and the socket admission of \<open>mod.rs\<close>: one request per
  connection is read, checked, dispatched to the network commands or to an activation, and
  answered.  Any response can fail to be written; during an activation the events of \<open>tracing\<close> are answers too
  (\<open>log_tee.rs\<close>).
\<close>

record network_context =
  nc_policy :: path
  nc_peer :: peer_credentials
  nc_activation :: bool

text \<open>
  \<open>se_sent\<close> holds the responses that were given to the writer so far, each with whether its line was written;
  \<open>W n\<close> says whether the \<open>n\<close>-th can be.  \<open>se_net\<close> is the state of the network commands, \<open>se_slot\<close> whether the
  callback is in the slot, and \<open>se_stuck\<close> whether the process waits for a lock it holds itself.
\<close>

record 'n session =
  se_net :: 'n
  se_act :: activator
  se_sent :: "(response \<times> bool) list"
  se_slot :: bool
  se_stuck :: bool

definition put_line :: "(nat \<Rightarrow> bool) \<Rightarrow> response \<Rightarrow> 'n session \<Rightarrow> 'n session" where
  "put_line W r s = s\<lparr>se_sent := se_sent s @ [(r, W (length (se_sent s)))]\<rparr>"

text \<open>
  \<open>send_response\<close> reports a failed write as an error event while it still holds the writer's lock.  With the
  callback in the slot, the event needs this lock (\<open>std\<close>'s \<open>Mutex\<close> is not reentrant).
\<close>

definition send :: "(nat \<Rightarrow> bool) \<Rightarrow> env \<Rightarrow> response \<Rightarrow> 'n session \<Rightarrow> 'n session" where
  "send W E r s =
     (if \<not> W (length (se_sent s)) \<and> se_slot s \<and> logs E ''handler'' ERROR
      then (put_line W r s)\<lparr>se_stuck := True\<rparr> else put_line W r s)"

section \<open>Requests\<close>

definition VALID_MODES :: "string list" where
  "VALID_MODES = [''switch'', ''boot'', ''test'', ''dry-activate'']"

definition read_request :: "(string \<Rightarrow> request result) \<Rightarrow> string result \<Rightarrow> request result" where
  "read_request parse line =
     bind_r (with_context ''read request'' line) (\<lambda>l.
     if l = [] then Inl (Msg ''empty request'') else with_context ''invalid JSON'' (parse l))"

definition validate_store_path :: "string \<Rightarrow> unit result" where
  "validate_store_path p =
     bind_r (ensure (starts_with ''/nix/store/'' p) ''path must be in /nix/store'') (\<lambda>_.
     ensure (''..'' \<notin> set (split_char CHR ''/'' p)) ''invalid path'')"

fun validate_seeds :: "seed_ref list \<Rightarrow> unit result" where
  "validate_seeds [] = Inr ()"
| "validate_seeds (s # ss) =
     bind_r (ensure (sr_name s \<noteq> []) ''seed name must not be empty'') (\<lambda>_.
     bind_r (validate_store_path (sr_path s)) (\<lambda>_.
     validate_seeds ss))"

definition validate_request :: "request \<Rightarrow> unit result" where
  "validate_request req =
     bind_r (ensure (rq_id req \<noteq> []) ''missing request ID'') (\<lambda>_.
     if rq_kind req = ''reboot'' then Inr ()
     else if rq_kind req = ''services'' then
       bind_r (ensure (rq_seeds req \<noteq> []) ''services request requires at least one seed'') (\<lambda>_.
       validate_seeds (rq_seeds req))
     else
       bind_r (ensure (rq_kind req = ''nixos'' \<or> rq_kind req = ''home-manager'') (''invalid type: '' @ rq_kind req)) (\<lambda>_.
       bind_r (validate_store_path (rq_path req)) (\<lambda>_.
       ensure (rq_kind req = ''nixos'' \<longrightarrow> rq_mode req \<in> set VALID_MODES) (''invalid mode: '' @ rq_mode req))))"

section \<open>Dispatch\<close>

definition line_response :: "string \<Rightarrow> string \<times> bool \<Rightarrow> response" where
  "line_response i l = (if snd l then response_error i (fst l) else response_output i (fst l))"

definition serve_network ::
  "(network_context \<Rightarrow> request \<Rightarrow> ('n, string option) act) \<Rightarrow> (nat \<Rightarrow> bool) \<Rightarrow> env \<Rightarrow> network_context option \<Rightarrow> request
   \<Rightarrow> 'n session \<Rightarrow> 'n session" where
  "serve_network net W E context req s =
     (let (r, n) =
        (if rq_id req = [] then (Inl (Msg ''missing request ID''), se_net s)
         else (case context of
             None \<Rightarrow> (Inl (Msg ''network requests require an authorized socket and network policy''), se_net s)
           | Some c \<Rightarrow> net c req (se_net s)));
        s1 = s\<lparr>se_net := n\<rparr> in
      case r of
        Inr (Some out) \<Rightarrow> send W E (response_complete (rq_id req) 0) (send W E (response_output (rq_id req) out) s1)
      | Inr None \<Rightarrow> send W E (response_complete (rq_id req) 0) s1
      | Inl e \<Rightarrow>
          send W E (response_complete (rq_id req) 1) (send W E (response_error (rq_id req) (error_chain e)) s1))"

text \<open>The activation and the event of its failure, with the lines they give to the callback.\<close>

definition failure_event :: "env \<Rightarrow> request \<Rightarrow> error \<Rightarrow> unit activation" where
  "failure_event E req e =
     emit E ''handler'' ERROR
       [(''message'', ''Request failed''), (''id'', rq_id req), (field_name E ''r#type'', rq_kind req),
        (''err'', error_display e)]"

definition run_reported :: "env \<Rightarrow> request \<Rightarrow> int result activation" where
  "run_reported E req =
     seq (attempt (activate_run E req)) (\<lambda>r.
     seq (case r of Inl e \<Rightarrow> failure_event E req e | Inr _ \<Rightarrow> ret ()) (\<lambda>_.
     ret r))"

definition run_lines :: "env \<Rightarrow> request \<Rightarrow> activator \<Rightarrow> (string \<times> bool) list" where
  "run_lines E req a = drop (length (ac_lines a)) (ac_lines (snd (run_reported E req a)))"

definition serve_activation :: "(nat \<Rightarrow> bool) \<Rightarrow> env \<Rightarrow> request \<Rightarrow> 'n session \<Rightarrow> 'n session" where
  "serve_activation W E req s =
     (let r = fst (activate_run E req (se_act s));
          s1 = foldl (\<lambda>s l. put_line W (line_response (rq_id req) l) s) (s\<lparr>se_slot := True\<rparr>) (run_lines E req (se_act s));
          s2 = s1\<lparr>se_act := snd (run_reported E req (se_act s))\<rparr>;
          s3 = (case r of Inr _ \<Rightarrow> s2 | Inl e \<Rightarrow> send W E (response_error (rq_id req) (error_display e)) s2) in
      if se_stuck s3 then s3
      else send W E (response_complete (rq_id req) (case r of Inr code \<Rightarrow> code | Inl _ \<Rightarrow> 1)) (s3\<lparr>se_slot := False\<rparr>))"

definition serve ::
  "(string \<Rightarrow> request result) \<Rightarrow> (network_context \<Rightarrow> request \<Rightarrow> ('n, string option) act) \<Rightarrow> (nat \<Rightarrow> bool) \<Rightarrow> env
   \<Rightarrow> network_context option \<Rightarrow> string result \<Rightarrow> 'n session \<Rightarrow> 'n session" where
  "serve parse net W E context line s =
     (case read_request parse line of
        Inl e \<Rightarrow> send W E (response_error [] (error_display e)) s
      | Inr req \<Rightarrow>
          if rq_kind req = ''network'' then serve_network net W E context req s
          else if (case context of None \<Rightarrow> False | Some c \<Rightarrow> \<not> nc_activation c) then
            send W E (response_error [] ''unauthorized'') s
          else (case validate_request req of
              Inl e \<Rightarrow> send W E (response_error (rq_id req) (error_display e)) s
            | Inr _ \<Rightarrow> serve_activation W E req s))"

section \<open>Admission\<close>

datatype admission = Refuse response | Admit "network_context option"

text \<open>\<open>run_socket\<close> up to the call of the handler.\<close>

definition admit ::
  "bool \<Rightarrow> unit result \<Rightarrow> peer_credentials result \<Rightarrow> (nat \<Rightarrow> nat \<Rightarrow> sockopt_reply) \<Rightarrow> u32 list \<Rightarrow> path option \<Rightarrow> admission result" where
  "admit root cloned creds query allowed policy =
     bind_r (ensure root ''activator must be run as root in socket mode'') (\<lambda>_.
     bind_r (with_context ''clone socket'' cloned) (\<lambda>_.
     case creds of
       Inl e \<Rightarrow> Inr (Refuse (response_error [] ''failed to get peer credentials''))
     | Inr c \<Rightarrow>
         bind_r (if policy = None then Inr False else is_authorized_socket query c allowed) (\<lambda>network.
         if \<not> is_authorized c allowed \<and> \<not> network then Inr (Refuse (response_error [] ''unauthorized''))
         else Inr (Admit (if network then
             Some \<lparr>nc_policy = the policy, nc_peer = c, nc_activation = is_authorized c allowed\<rparr> else None)))))"

text \<open>\<open>run\<close> of \<open>mod.rs\<close>: what the arguments and the kind of file descriptor 0 select.\<close>

datatype mode = Cleanup path string | Socket | Pipe

definition select_mode ::
  "string \<Rightarrow> bool \<Rightarrow> path option \<Rightarrow> string option \<Rightarrow> bool result \<Rightarrow> (mode \<times> u32 list) result" where
  "select_mode gids cleanup policy inst is_socket =
     bind_r (parse_gids gids) (\<lambda>allowed.
     if cleanup then
       bind_r (ok_or ''network policy is required'' policy) (\<lambda>p.
       bind_r (ok_or ''network instance is required'' inst) (\<lambda>i.
       Inr (Cleanup p i, allowed)))
     else bind_r (with_context ''fstat fd 0'' is_socket) (\<lambda>sock.
       Inr (if sock then Socket else Pipe, allowed)))"

section \<open>Properties\<close>

definition store_path :: "string \<Rightarrow> bool" where
  "store_path p = (starts_with ''/nix/store/'' p \<and> ''..'' \<notin> set (split_char CHR ''/'' p))"

lemma validate_store_path_iff: "validate_store_path p = Inr u \<longleftrightarrow> store_path p"
  by (auto simp: validate_store_path_def store_path_def result_simps)

lemma validate_seeds_iff:
  "validate_seeds ss = Inr u \<longleftrightarrow> (\<forall>s \<in> set ss. sr_name s \<noteq> [] \<and> store_path (sr_path s))"
  by (induction ss) (auto simp: result_simps validate_store_path_iff)

definition activation_commands :: "string list set" where
  "activation_commands =
     insert reboot_cmd
      (\<Union>p \<in> Collect store_path. {home_manager_cmd p, nixos_profile_cmd p}
         \<union> {nixos_switch_cmd p m | m. m \<in> set VALID_MODES}
         \<union> {[''cp'', ''--recursive'', ''--no-clobber'', seed_source p @ ''/'', d] | d. True})
      \<union> {sd_switch_cmd o1 o2 | o1 o2. True}"

definition runs_only :: "string list set \<Rightarrow> activator \<Rightarrow> activator \<Rightarrow> bool" where
  "runs_only C a b \<longleftrightarrow> (\<exists>new. ac_commands b = ac_commands a @ new \<and> set new \<subseteq> C)
     \<and> (\<exists>more. ac_lines b = ac_lines a @ more)"

interpretation runs_only: activation_step "runs_only C" C for C
proof
  show "runs_only C a a" for a by (auto simp: runs_only_def)
  show "runs_only C a c" if "runs_only C a b" "runs_only C b c" for a b c
    using that by (fastforce simp: runs_only_def)
qed (auto simp: runs_only_def moves_def tick_def callback_def log_command_def)

lemma copy_in_commands: "store_path p \<Longrightarrow> [''cp'', ''--recursive'', ''--no-clobber'', seed_source p @ ''/'', d] \<in> activation_commands"
  unfolding activation_commands_def by blast

lemma runs_services:
  assumes "\<And>s. s \<in> set seeds \<Longrightarrow> store_path (sr_path s)"
  shows "moves (runs_only activation_commands) (services_run E seeds)"
proof -
  have "sd_switch_cmd o1 o2 \<in> activation_commands" for o1 o2 by (auto simp: activation_commands_def)
  then have switch: "moves (runs_only activation_commands) (switch_units E o1 o2 p)" for o1 o2 p
    unfolding switch_units_def update_current_def
    by (intro runs_only.moves_rules runs_only.stream_moves runs_only.fs_moves) (simp_all add: runs_only_def)
  show ?thesis
    unfolding services_run_def already_activated_def switch_profile_def resolve_current_def copy_seeds_def Let_def split_def
    by (intro runs_only.moves_rules runs_only.emit_moves runs_only.now_moves runs_only.callback_moves runs_only.fs_moves
        runs_only.copy_moves copy_in_commands assms runs_only.old_units_moves runs_only.guarded_moves switch runs_only.drop_moves)
      (simp_all add: runs_only_def)
qed

lemma moves_cond: "(c \<Longrightarrow> moves R m) \<Longrightarrow> (\<not> c \<Longrightarrow> moves R n) \<Longrightarrow> moves R (if c then m else n)"
  by simp

lemma runs_activate:
  assumes "validate_request req = Inr ()"
  shows "moves (runs_only activation_commands) (activate_run E req)"
proof -
  have p: "store_path (rq_path req)" if "rq_kind req \<in> {''nixos'', ''home-manager''}"
    using assms that by (auto simp: validate_request_def result_simps validate_store_path_iff)
  have m: "rq_mode req \<in> set VALID_MODES" if "rq_kind req = ''nixos''"
    using assms that by (auto simp: validate_request_def result_simps)
  have s: "store_path (sr_path s)" if "rq_kind req = ''services''" "s \<in> set (rq_seeds req)" for s
    using assms that by (auto simp: validate_request_def result_simps validate_seeds_iff)
  show ?thesis
    unfolding activate_run_def
    by (intro moves_cond runs_only.seq_moves runs_only.ret_moves runs_only.lift_moves runs_only.stream_moves runs_services s)
      (use p m in \<open>auto simp: activation_commands_def\<close>)
qed

lemma put_line_simps [simp]:
  "se_net (put_line W r s) = se_net s" "se_act (put_line W r s) = se_act s" "se_slot (put_line W r s) = se_slot s"
  "se_stuck (put_line W r s) = se_stuck s" "se_sent (put_line W r s) = se_sent s @ [(r, W (length (se_sent s)))]"
  by (simp_all add: put_line_def)

lemma send_simps [simp]:
  "se_net (send W E r s) = se_net s" "se_act (send W E r s) = se_act s" "se_slot (send W E r s) = se_slot s"
  "se_sent (send W E r s) = se_sent s @ [(r, W (length (se_sent s)))]"
  "se_stuck (send W E r s) \<longleftrightarrow> se_stuck s \<or> (\<not> W (length (se_sent s)) \<and> se_slot s \<and> logs E ''handler'' ERROR)"
  by (auto simp: send_def)

definition put_lines :: "(nat \<Rightarrow> bool) \<Rightarrow> string \<Rightarrow> (string \<times> bool) list \<Rightarrow> 'n session \<Rightarrow> 'n session" where
  "put_lines W i ls s = foldl (\<lambda>s l. put_line W (line_response i l) s) s ls"

lemma put_lines_simps [simp]:
  "se_net (put_lines W i ls s) = se_net s" "se_act (put_lines W i ls s) = se_act s" "se_slot (put_lines W i ls s) = se_slot s"
  "se_stuck (put_lines W i ls s) = se_stuck s"
  "map fst (se_sent (put_lines W i ls s)) = map fst (se_sent s) @ map (line_response i) ls"
  unfolding put_lines_def by (induction ls arbitrary: s) simp_all

text \<open>The request that reaches its activation.\<close>

definition activates :: "(string \<Rightarrow> request result) \<Rightarrow> network_context option \<Rightarrow> string result \<Rightarrow> request \<Rightarrow> bool" where
  "activates parse context line req \<longleftrightarrow>
     read_request parse line = Inr req \<and> rq_kind req \<noteq> ''network''
     \<and> (case context of None \<Rightarrow> True | Some c \<Rightarrow> nc_activation c) \<and> validate_request req = Inr ()"

lemma serve_cases:
  obtains (refused) i msg where "serve parse net W E context line s = send W E (response_error i msg) s"
  | (network) req where "read_request parse line = Inr req" "rq_kind req = ''network''"
      "serve parse net W E context line s = serve_network net W E context req s"
  | (activation) req where "activates parse context line req"
      "serve parse net W E context line s = serve_activation W E req s"
proof (cases "read_request parse line")
  case (Inl e)
  then show ?thesis using refused by (simp add: serve_def)
next
  case (Inr req)
  show ?thesis
  proof (cases "rq_kind req = ''network''")
    case True
    then show ?thesis using Inr network by (simp add: serve_def)
  next
    case False
    show ?thesis
    proof (cases "(case context of None \<Rightarrow> False | Some c \<Rightarrow> \<not> nc_activation c) \<or> \<not> is_ok (validate_request req)")
      case True
      then have "\<exists>i msg. serve parse net W E context line s = send W E (response_error i msg) s"
        using Inr False by (cases "context"; cases "validate_request req") (auto simp: serve_def)
      then show ?thesis using refused by blast
    next
      case ok: False
      then show ?thesis
        using Inr False activation
        by (cases "context"; cases "validate_request req") (auto simp: serve_def activates_def)
    qed
  qed
qed

lemma serve_activates: "activates parse context line req \<Longrightarrow> serve parse net W E context line s = serve_activation W E req s"
  by (cases "context") (auto simp: activates_def serve_def)

lemma activation_act: "se_act (serve_activation W E req s) = snd (run_reported E req (se_act s))"
  by (cases "fst (activate_run E req (se_act s))") (simp_all add: serve_activation_def Let_def)

lemma network_act: "se_act (serve_network net W E context req s) = se_act s"
  by (auto simp: serve_network_def Let_def split: prod.splits sum.splits option.splits)

text \<open>C17: Serving a request runs no program but those of an activation: the reboot, a program or profile
  below \<open>/nix/store\<close> without a \<open>..\<close> component in a known mode, the copy of a seed's units from such
  a path, and \<open>sd-switch\<close>.  Without the activation authorization none of them is run, and a network request
  runs none of them either.\<close>

theorem serve_runs_store_programs:
  "\<exists>new. ac_commands (se_act (serve parse net W E context line s)) = ac_commands (se_act s) @ new
     \<and> set new \<subseteq> activation_commands
     \<and> (new = [] \<or> (\<exists>req. read_request parse line = Inr req \<and> rq_kind req \<noteq> ''network''
           \<and> (case context of None \<Rightarrow> True | Some c \<Rightarrow> nc_activation c)))"
proof (cases rule: serve_cases [of parse net W E "context" line s])
  case (activation req)
  have "moves (runs_only activation_commands) (run_reported E req)"
    using activation(1) unfolding run_reported_def failure_event_def activates_def
    by (intro runs_only.moves_rules runs_activate runs_only.emit_moves) simp
  then have "runs_only activation_commands (se_act s) (snd (run_reported E req (se_act s)))" by (simp add: moves_def)
  then show ?thesis
    using activation by (auto simp: activation_act runs_only_def activates_def)
qed (simp_all add: network_act)


definition cleanup_request :: request where
  "cleanup_request = \<lparr>rq_id = ''7'', rq_kind = ''network'', rq_path = [], rq_mode = [], rq_reason = [], rq_seeds = [],
     rq_network_action = Some ''cleanup'', rq_execution_id = None, rq_lease = None\<rparr>"

definition idle_session :: "unit session" where
  "idle_session = \<lparr>se_net = (), se_act = fresh_activator, se_sent = [], se_slot = False, se_stuck = False\<rparr>"


lemma activation_stuck:
  assumes "\<not> se_stuck s"
  shows "se_stuck (serve_activation W E req s) \<longleftrightarrow>
      logs E ''handler'' ERROR \<and> \<not> is_ok (fst (activate_run E req (se_act s)))
      \<and> \<not> W (length (se_sent s) + length (run_lines E req (se_act s)))"
    and "se_stuck (serve_activation W E req s) \<Longrightarrow>
      \<exists>answers. map fst (se_sent (serve_activation W E req s)) = map fst (se_sent s) @ answers
        \<and> (\<forall>r \<in> set answers. rs_kind r \<noteq> Complete)"
proof -
  let ?r = "fst (activate_run E req (se_act s))" and ?ls = "run_lines E req (se_act s)"
  let ?s1 = "put_lines W (rq_id req) ?ls (s\<lparr>se_slot := True\<rparr>)"
  have n: "length (se_sent ?s1) = length (se_sent s) + length ?ls"
    using arg_cong [OF put_lines_simps(5) [of W "rq_id req" ?ls "s\<lparr>se_slot := True\<rparr>"], of length]
    unfolding length_map length_append by simp
  show "se_stuck (serve_activation W E req s) \<longleftrightarrow> logs E ''handler'' ERROR \<and> \<not> is_ok ?r
      \<and> \<not> W (length (se_sent s) + length ?ls)"
    using assms by (cases ?r) (auto simp: serve_activation_def Let_def put_lines_def [symmetric] n)
  assume stuck: "se_stuck (serve_activation W E req s)"
  then obtain e where e: "?r = Inl e"
    using assms by (cases ?r) (auto simp: serve_activation_def Let_def put_lines_def [symmetric])
  let ?answers = "map (line_response (rq_id req)) ?ls @ [response_error (rq_id req) (error_display e)]"
  have "map fst (se_sent (serve_activation W E req s)) = map fst (se_sent s) @ ?answers"
    using stuck e assms by (auto simp: serve_activation_def Let_def put_lines_def [symmetric] split: if_splits)
  moreover have "\<forall>r \<in> set ?answers. rs_kind r \<noteq> Complete"
    by (auto simp: line_response_def response_error_def response_output_def)
  ultimately show "\<exists>answers. map fst (se_sent (serve_activation W E req s)) = map fst (se_sent s) @ answers
      \<and> (\<forall>r \<in> set answers. rs_kind r \<noteq> Complete)" by blast
qed

lemma activates_unique: "activates parse context line req \<Longrightarrow> activates parse context line req' \<Longrightarrow> req' = req"
  by (simp add: activates_def)

text \<open>C19: Serving a request blocks forever in exactly one case: an activation fails with an error, the response that
  reports it cannot be written, and error events are not filtered out.  Then the event that reports the failed write
  goes to the callback, which waits for the lock of the writer that \<open>send_response\<close> still holds.  The client never gets
  a \<open>Complete\<close> response in this case.\<close>

theorem serve_stuck_iff:
  assumes "\<not> se_slot s" "\<not> se_stuck s"
  shows "(se_stuck (serve parse net W E context line s) \<longleftrightarrow>
      logs E ''handler'' ERROR \<and> (\<exists>req e. activates parse context line req \<and> fst (activate_run E req (se_act s)) = Inl e
        \<and> \<not> W (length (se_sent s) + length (run_lines E req (se_act s)))))
    \<and> (se_stuck (serve parse net W E context line s) \<longrightarrow>
      (\<exists>answers. map fst (se_sent (serve parse net W E context line s)) = map fst (se_sent s) @ answers
         \<and> (\<forall>r \<in> set answers. rs_kind r \<noteq> Complete)))"
proof (cases "\<exists>req. activates parse context line req")
  case True
  then obtain req where req: "activates parse context line req" by blast
  have only: "activates parse context line req' \<longleftrightarrow> req' = req" for req' using req activates_unique [OF req] by metis
  note stuck = activation_stuck [OF assms(2), where W = W and E = E and req = req]
  have "(\<exists>req' e. activates parse context line req' \<and> fst (activate_run E req' (se_act s)) = Inl e
        \<and> \<not> W (length (se_sent s) + length (run_lines E req' (se_act s))))
      \<longleftrightarrow> \<not> is_ok (fst (activate_run E req (se_act s))) \<and> \<not> W (length (se_sent s) + length (run_lines E req (se_act s)))"
    unfolding only by (cases "fst (activate_run E req (se_act s))") simp_all
  then show ?thesis using stuck unfolding serve_activates [OF req] by simp
next
  case False
  then have "\<not> se_stuck (serve parse net W E context line s)"
    using assms
    by (cases rule: serve_cases [of parse net W E "context" line s])
      (auto simp: serve_network_def Let_def split: prod.splits sum.splits option.splits)
  then show ?thesis using False by blast
qed

text \<open>A reboot that cannot be started, for a client that has gone.\<close>

definition failing_reboot :: request where
  "failing_reboot = \<lparr>rq_id = ''8'', rq_kind = ''reboot'', rq_path = [], rq_mode = [], rq_reason = [], rq_seeds = [],
     rq_network_action = None, rq_execution_id = None, rq_lease = None\<rparr>"

definition broken_env :: env where
  "broken_env = quiet_env\<lparr>logs := \<lambda>m lv. lv = ERROR,
     run_command := \<lambda>_ _. \<lparr>cm_spawned = False, cm_waited = False, cm_stdout = [], cm_stderr = [], cm_order = [], cm_code = None\<rparr>\<rparr>"

theorem serve_stuck_iff_witness:
  "se_stuck (serve (\<lambda>_. Inr failing_reboot) (\<lambda>_ _ n. (Inr None, n)) (\<lambda>_. False) broken_env None (Inr ''{}'') idle_session)"
proof -
  have start: "\<not> se_slot idle_session" "\<not> se_stuck idle_session" by (simp_all add: idle_session_def)
  have "activates (\<lambda>_. Inr failing_reboot) None (Inr ''{}'') failing_reboot"
    by (simp add: activates_def read_request_def failing_reboot_def validate_request_def)
  moreover have "fst (activate_run broken_env failing_reboot (se_act idle_session)) = Inl (Context ''spawn child'' (Msg ''os error''))"
    by (simp add: activate_run_def stream_def emit_def failing_reboot_def broken_env_def quiet_env_def seq_def tick_def)
  moreover have "logs broken_env ''handler'' ERROR" by (simp add: broken_env_def)
  ultimately show ?thesis
    using serve_stuck_iff [OF start, of "\<lambda>_. Inr failing_reboot" "\<lambda>_ _ n. (Inr None, n)" "\<lambda>_. False" broken_env None "Inr ''{}''"]
    by blast
qed

text \<open>A connection is admitted only when the activator runs as root and the kernel's credentials of
  the peer are allowed: without allowed credentials it is refused with one error response, the
  right to activate is given only to root and to primary groups on the list, and the network
  commands are reachable only when a policy is configured.\<close>

theorem admit_sound:
  assumes "admit root cloned creds query allowed policy = Inr (Admit ctxt)"
  shows "root \<and> (\<exists>c. creds = Inr c
    \<and> (is_authorized c allowed \<or> is_authorized_socket query c allowed = Inr True)
    \<and> (ctxt = None \<longrightarrow> is_authorized c allowed)
    \<and> (\<forall>n. ctxt = Some n \<longrightarrow> policy = Some (nc_policy n) \<and> nc_peer n = c
         \<and> (nc_activation n \<longleftrightarrow> is_authorized c allowed)))"
proof -
  obtain c net where c: "creds = Inr c" and r: "root"
    and net: "(if policy = None then Inr False else is_authorized_socket query c allowed) = Inr net"
    and adm: "\<not> (\<not> is_authorized c allowed \<and> \<not> net)"
    and x: "ctxt = (if net then Some \<lparr>nc_policy = the policy, nc_peer = c, nc_activation = is_authorized c allowed\<rparr> else None)"
    using assms by (cases creds) (auto simp: admit_def result_simps split: if_splits)
  have "is_authorized_socket query c allowed = Inr net" if net using net that by (cases policy) auto
  then show ?thesis using c r net adm x by (cases net; cases policy) auto
qed

theorem admit_sound_witness:
  "admit True (Inr ()) (Inr \<lparr>peer_pid = 9, peer_uid = 1000, peer_gid = 100\<rparr>) two_snapshots [993] (Some policy_path)
     = Inr (Admit (Some \<lparr>nc_policy = policy_path, nc_peer = \<lparr>peer_pid = 9, peer_uid = 1000, peer_gid = 100\<rparr>,
         nc_activation = False\<rparr>))
   \<and> is_authorized_socket two_snapshots \<lparr>peer_pid = 9, peer_uid = 1000, peer_gid = 100\<rparr> [993] = Inr True"
proof -
  let ?c = "\<lparr>peer_pid = 9, peer_uid = 1000, peer_gid = 100\<rparr> :: peer_credentials"
  have no: "\<not> is_authorized ?c [993]" by (simp add: is_authorized_def)
  have a: "is_authorized_socket two_snapshots ?c [993] = Inr True"
    by (simp add: is_authorized_socket_def is_authorized_def two_snapshots_def numeral_2_eq_2 Let_def)
  have adm: "admit True (Inr ()) (Inr ?c) two_snapshots [993] (Some policy_path)
     = Inr (Admit (Some \<lparr>nc_policy = policy_path, nc_peer = ?c, nc_activation = False\<rparr>))"
    using no a by (simp add: admit_def)
  show ?thesis using adm a no admit_sound [OF adm] by simp
qed

end
