(* ===== verification/NetworkOrder.thy ===== *)
theory NetworkOrder
  imports NetworkService
begin

text \<open>
  The order of the effects of the lease operations, read off the log of the programs they run,
  and what they leave alone: what has to be installed before an interface comes up, what
  \<open>reserve\<close> picks, whose leases an operation can touch.
\<close>

section \<open>The log of the programs that were run\<close>

definition up_call :: "lease \<Rightarrow> host_call" where
  "up_call l = Call ''ip'' [''link'', ''set'', ''dev'', l_tap l, ''up'']"

text \<open>\<open>extends Z\<close>: the log grows, and by calls outside \<open>Z\<close> only; the lease that is held is the same.\<close>

definition extends :: "host_call set \<Rightarrow> 'h world \<Rightarrow> 'h world \<Rightarrow> bool" where
  "extends Z w w' = (w_cur w' = w_cur w \<and> (\<exists>new. w_log w' = w_log w @ new \<and> set new \<inter> Z = {}))"

interpretation extends: step_preorder "extends Z" for Z
proof
  show "extends Z w w" for w by (auto simp: extends_def)
  show "extends Z u w" if "extends Z u v" "extends Z v w" for u v w
    using that by (fastforce simp: extends_def)
qed

lemma extends_same: "w_log w' = w_log w \<Longrightarrow> w_cur w' = w_cur w \<Longrightarrow> extends Z w w'"
  by (simp add: extends_def)

lemma extends_syscall: "moves (extends Z) eff \<Longrightarrow> moves (extends Z) (syscall eff)"
  by (erule syscall_moves) (auto intro: extends_same extends.step_trans)

lemma extends_command: "Call prog args \<notin> Z \<Longrightarrow> moves (extends Z) (command T prog args)"
  unfolding command_def
  by (intro extends.moves_rules extends_syscall) (auto simp: moves_def extends_def split: prod.splits)

lemma extends_nft: "Nft script \<notin> Z \<Longrightarrow> moves (extends Z) (nft T script)"
  unfolding nft_def
  by (intro extends.moves_rules extends_syscall) (auto simp: moves_def extends_def split: prod.splits)

lemma log_eff: "(\<And>w. w_log (snd (eff w)) = w_log w \<and> w_cur (snd (eff w)) = w_cur w) \<Longrightarrow> moves (extends Z) (syscall eff)"
  by (rule extends_syscall) (simp add: moves_def extends_same)

lemma extends_save: "moves (extends Z) (save S l)"
  unfolding save_def
  by (intro extends.moves_rules log_eff)
    (auto simp: open_truncated_def write_lease_def rename_file_def split: sum.splits option.splits)

lemmas extends_rules = extends.moves_rules extends_command extends_nft extends_save

lemma extends_host_calls:
  "moves (extends {up_call k}) (table_exists T f n)" "moves (extends {up_call k}) (links T)"
  "moves (extends {up_call k}) (purge_connections T l)"
  "moves (extends {up_call k}) (require_available_subnet T g)"
  "moves (extends {up_call k}) (install_ingress T l)"
  by (auto simp: table_exists_def links_def purge_connections_def purge_selector_def up_call_def
      require_available_subnet_def install_ingress_def intro!: extends_rules)

lemma extends_install_guard: "moves (extends {up_call k}) (install_guard T p ls)"
  by (cases ls) (auto simp: install_guard_def up_call_def
      intro!: extends_rules extends_host_calls [unfolded up_call_def])

section \<open>Nothing comes up unguarded\<close>

text \<open>The log since \<open>old\<close>: what it contains, that the interface was not set up so far, and the
  lease that is held.\<close>

definition ran :: "host_call set \<Rightarrow> host_call list \<Rightarrow> lease \<Rightarrow> lease \<Rightarrow> 'h world \<Rightarrow> bool" where
  "ran A old k m w \<longleftrightarrow>
     w_cur w = m \<and> (\<exists>new. w_log w = old @ new \<and> A \<subseteq> set new \<and> up_call k \<notin> set new)"

definition quiet_so_far :: "host_call list \<Rightarrow> lease \<Rightarrow> 'h world \<Rightarrow> bool" where
  "quiet_so_far old k w \<longleftrightarrow> (\<exists>new. w_log w = old @ new \<and> up_call k \<notin> set new)"

lemma ran_extends: "ran A old k m u \<Longrightarrow> extends {up_call k} u v \<Longrightarrow> ran A old k m v"
  by (fastforce simp: ran_def extends_def)

lemma ran_quiet: "ran A old k m w \<Longrightarrow> quiet_so_far old k w"
  by (auto simp: ran_def quiet_so_far_def)

lemma ran_seq:
  assumes "moves (extends {up_call k}) act"
    "\<And>x. triple (ran A old k m) (f x) Q E" "\<And>w. quiet_so_far old k w \<Longrightarrow> E w"
  shows "triple (ran A old k m) (seq act f) Q E"
proof (rule triple_seq [OF _ assms(2)])
  show "triple (ran A old k m) act (\<lambda>_. ran A old k m) E"
    by (rule triple_weaken [OF extends.triple_moves [OF assms(1) ran_extends]]) (auto intro: assms(3) ran_quiet)
qed

lemma ran_set_cur: "triple (ran A old k m) (set_cur m') (\<lambda>_. ran A old k m') E"
  by (rule triple_set_cur) (simp add: ran_def)

lemma nft_logged:
  fixes T :: "'h tools" and w :: "'h world"
  assumes "nft T script w = (Inr u, w')"
  shows "w_log w' = w_log w @ [Nft script] \<and> w_cur w' = w_cur w"
proof -
  let ?eff = "(\<lambda>w. case run_nft T script (w_host w) of
       (out, h) \<Rightarrow> (Inr out, w\<lparr>w_host := h, w_log := w_log w @ [Nft script]\<rparr>)) :: ('h, tool_output) io"
  from assms obtain out w1 w2 v v' w3 where call: "ctx ''run nft'' (syscall ?eff) w = (Inr out, w1)"
      and waited: "ctx ''wait for nft'' (syscall (ret ())) w1 = (Inr v, w2)"
      and rest: "ctx ''write nft transaction'' (lift_r (if t_stdin_ok out then Inr () else Inl os_error)) w2 = (Inr v', w3)"
        "check (t_success out) (''nft failed: '' @ trim_text (t_stderr out)) w3 = (Inr u, w')"
    unfolding nft_def seq_eq_Inr by blast
  from rest have "w2 = w'" by simp
  with waited have sync: "ctx ''wait for nft'' (syscall (ret ())) w1 = (Inr (), w')" by simp
  from call have "syscall ?eff w = (Inr out, w1)" by (auto simp: result_simps intro: prod_eqI)
  from syscall_Inr [OF this] obtain os where ran: "?eff (w\<lparr>w_script := os\<rparr>) = (Inr out, w1)" by (elim exE conjE)
  from sync have "syscall (ret ()) w1 = (Inr (), w')" by (auto simp: result_simps intro: prod_eqI)
  from syscall_Inr [OF this] obtain os' where "ret () (w1\<lparr>w_script := os'\<rparr>) = (Inr (), w')" by (elim exE conjE)
  with ran show ?thesis by (auto simp: ret_def split: prod.splits)
qed

lemma nft_ran:
  "triple (ran A old k m) (nft T script) (\<lambda>_. ran (insert (Nft script) A) old k m) (quiet_so_far old k)"
  unfolding triple_def
proof (intro allI impI)
  fix w :: "'a world" assume w: "ran A old k m w"
  obtain r w' where eq: "nft T script w = (r, w')" by fastforce
  have "extends {up_call k} w w'"
    using extends_nft [of script "{up_call k}" T] eq by (metis moves_def snd_conv up_call_def host_call.distinct(1) singletonD)
  then have "ran A old k m w'" by (rule ran_extends [OF w])
  moreover have "ran (insert (Nft script) A) old k m w'" if "r = Inr ()"
    using nft_logged [of T script w "()" w'] eq that w by (auto simp: ran_def up_call_def)
  ultimately show "case nft T script w of (Inl e, w') \<Rightarrow> quiet_so_far old k w'
      | (Inr x, w') \<Rightarrow> ran (insert (Nft script) A) old k m w'"
    by (cases r) (simp_all add: eq ran_quiet)
qed

lemma install_guard_ran:
  "triple (ran A old k m) (install_guard T p [l])
    (\<lambda>_ w. \<exists>e. ran (insert (Nft (guard_script p l e)) A) old k m w) (quiet_so_far old k)"
  unfolding install_guard_def list.case
proof (intro ran_seq extends.check_moves extends_host_calls)
  fix x y e
  show "triple (ran A old k m) (nft T (guard_script p l e))
      (\<lambda>_ w. \<exists>e. ran (insert (Nft (guard_script p l e)) A) old k m w) (quiet_so_far old k)"
    by (rule triple_weaken [OF nft_ran]) auto
qed

lemma install_ingress_ran:
  "triple (ran A old k m) (install_ingress T l)
    (\<lambda>_ w. \<exists>e mac. l_host_mac l = Some mac \<and> ran (insert (Nft (ingress_script l mac e)) A) old k m w)
    (quiet_so_far old k)"
  unfolding install_ingress_def
proof (rule ran_seq [OF extends_host_calls(1)], rule triple_seq_lift)
  fix e mac assume "ok_or ''missing TAP MAC'' (l_host_mac l) = Inr mac"
  then have "l_host_mac l = Some mac" by (simp add: ok_or_eq_Inr)
  then show "triple (ran A old k m) (nft T (ingress_script l mac e))
      (\<lambda>_ w. \<exists>e mac. l_host_mac l = Some mac \<and> ran (insert (Nft (ingress_script l mac e)) A) old k m w)
      (quiet_so_far old k)"
    by (intro triple_weaken [OF nft_ran]) auto
qed (auto intro: ran_quiet)

lemma create_tap_ran:
  assumes k: "l_tap k = l_tap m"
  shows "triple (ran A old k m) (create_tap T)
    (\<lambda>_ w. \<exists>mac. ran A old k (m\<lparr>l_host_mac := Some mac\<rparr>) w) (quiet_so_far old k)"
    (is "triple _ _ ?Q ?E")
proof -
  have last: "triple (ran A old k m') (seq (command T ''ip'' args) (\<lambda>_. ret ())) ?Q ?E"
    if "m' = m\<lparr>l_host_mac := Some mac\<rparr>" "Call ''ip'' args \<noteq> up_call k" for m' mac args
    by (rule ran_seq [OF extends_command]) (use that in \<open>auto intro: triple_ret\<close>)
  have tail: "triple (ran A old k m) (seq (set_cur (m\<lparr>l_host_mac := Some mac\<rparr>)) (\<lambda>_.
      seq (command T ''ip'' args) (\<lambda>_. ret ()))) ?Q ?E" if "Call ''ip'' args \<noteq> up_call k" for mac args
    by (rule triple_seq [OF ran_set_cur last [OF refl that]])
  show ?thesis
    unfolding create_tap_def
    by (rule triple_cur [where l = m], intro tail ran_seq extends_rules extends_host_calls)
      (auto simp: up_call_def ran_def)
qed

definition guarded_since :: "policy \<Rightarrow> lease \<Rightarrow> host_call list \<Rightarrow> 'h world \<Rightarrow> bool" where
  "guarded_since p l old w = (\<exists>new. w_log w = old @ new \<and>
     (up_call l \<in> set new \<longrightarrow> (\<exists>before after mac e1 e2. new = before @ up_call l # after \<and> up_call l \<notin> set before
        \<and> Nft (ingress_script l mac e1) \<in> set before
        \<and> Nft (guard_script p (l\<lparr>l_host_mac := Some mac, l_phase := Active\<rparr>) e2) \<in> set before)))"

lemma triple_ex: "(\<And>x. triple (P x) m Q E) \<Longrightarrow> triple (\<lambda>w. \<exists>x. P x w) m Q E"
proof -
  assume a: "\<And>x. triple (P x) m Q E"
  show ?thesis
    unfolding triple_def
  proof (intro allI impI, elim exE)
    fix w x assume "P x w"
    then show "case m w of (Inl e, w') \<Rightarrow> E w' | (Inr x, w') \<Rightarrow> Q x w'"
      by (rule a [of x, unfolded triple_def, rule_format])
  qed
qed

lemma quiet_guarded: "quiet_so_far old l w \<Longrightarrow> guarded_since p l old w"
  by (auto simp: quiet_so_far_def guarded_since_def)

lemma command_log:
  fixes T :: "'h tools"
  assumes "command T prog args w = (r, w')"
  shows "w_log w' = w_log w \<or> w_log w' = w_log w @ [Call prog args]"
  using assms by (auto simp: command_def seq_def ctx_def syscall_def split: prod.splits sum.splits list.splits outcome.splits if_splits)

lemma set_up_guarded:
  assumes tap: "l_tap m = l_tap l"
    and A: "Nft (ingress_script l mac e1) \<in> A" "Nft (guard_script p (l\<lparr>l_host_mac := Some mac, l_phase := Active\<rparr>) e2) \<in> A"
  shows "triple (ran A old l m') (set_up T m) (\<lambda>_. guarded_since p l old) (guarded_since p l old)"
  unfolding set_up_def
proof (rule ran_seq [OF extends_host_calls(2)], rule ran_seq [OF extends.lift_moves], rule ran_seq [OF extends.lift_moves])
  fix ls found link
  show "triple (ran A old l m') (seq (command T ''ip'' [''link'', ''set'', ''dev'', l_tap m, ''up'']) (\<lambda>_. ret ()))
      (\<lambda>_. guarded_since p l old) (guarded_since p l old)"
    unfolding triple_def
  proof (intro allI impI)
    fix w :: "'a world" assume w: "ran A old l m' w"
    obtain r w' where eq: "command T ''ip'' [''link'', ''set'', ''dev'', l_tap m, ''up''] w = (r, w')" by fastforce
    from w obtain new where new: "w_log w = old @ new" "A \<subseteq> set new" "up_call l \<notin> set new"
      by (auto simp: ran_def)
    have "w_log w' = w_log w \<or> w_log w' = w_log w @ [up_call l]"
      using command_log [OF eq] tap by (simp add: up_call_def)
    then have "guarded_since p l old w'"
    proof
      assume "w_log w' = w_log w"
      then show ?thesis using new by (intro quiet_guarded) (auto simp: quiet_so_far_def)
    next
      assume log: "w_log w' = w_log w @ [up_call l]"
      have "\<exists>before after mac e1 e2. new @ [up_call l] = before @ up_call l # after \<and> up_call l \<notin> set before
        \<and> Nft (ingress_script l mac e1) \<in> set before
        \<and> Nft (guard_script p (l\<lparr>l_host_mac := Some mac, l_phase := Active\<rparr>) e2) \<in> set before"
        by (rule exI [of _ new], rule exI [of _ "[]"], rule exI [of _ mac], rule exI [of _ e1], rule exI [of _ e2])
          (use new A in auto)
      then show ?thesis using log new(1) unfolding guarded_since_def by (intro exI [of _ "new @ [up_call l]"]) simp
    qed
    then show "case seq (command T ''ip'' [''link'', ''set'', ''dev'', l_tap m, ''up'']) (\<lambda>_. ret ()) w of
        (Inl e, w') \<Rightarrow> guarded_since p l old w' | (Inr x, w') \<Rightarrow> guarded_since p l old w'"
      by (cases r) (simp_all add: seq_def eq)
  qed
qed (auto intro: quiet_guarded)

lemma prepare_host_guarded:
  "triple (ran {} old l l) (prepare_host T S) (\<lambda>_. guarded_since (st_policy S) l old) (guarded_since (st_policy S) l old)"
proof -
  let ?G = "guarded_since (st_policy S) l old"
  have weak: "triple P m Q (quiet_so_far old l) \<Longrightarrow> triple P m Q ?G" for P Q and m :: "('a, unit) io"
    by (erule triple_weaken) (auto intro: quiet_guarded)
  have ing: "ingress_script (l\<lparr>l_phase := ph, l_host_mac := hm\<rparr>) mac e = ingress_script l mac e" for ph hm mac e
    by (simp add: ingress_script_def netdev_table_def)
  have up: "triple (ran A old l m) (seq (install_guard T (st_policy S) [m]) (\<lambda>_. set_up T m)) (\<lambda>_. ?G) ?G"
    if m: "m = l\<lparr>l_host_mac := Some mac, l_phase := Active\<rparr>" and A: "Nft (ingress_script l mac e1) \<in> A" for m mac e1 A
  proof (rule triple_seq [OF weak [OF install_guard_ran]], rule triple_ex)
    fix e2
    show "triple (ran (insert (Nft (guard_script (st_policy S) m e2)) A) old l m) (set_up T m) (\<lambda>_. ?G) ?G"
      by (rule set_up_guarded [where mac = mac and ?e1.0 = e1 and ?e2.0 = e2]) (use m A in auto)
  qed
  have active: "triple (ran {} old l m) (seq (save S m) (\<lambda>_. seq (install_ingress T m) (\<lambda>_.
      seq (set_cur (m\<lparr>l_phase := Active\<rparr>)) (\<lambda>_. seq (save S (m\<lparr>l_phase := Active\<rparr>)) (\<lambda>_.
      seq (install_guard T (st_policy S) [m\<lparr>l_phase := Active\<rparr>]) (\<lambda>_. set_up T (m\<lparr>l_phase := Active\<rparr>)))))))
      (\<lambda>_. ?G) ?G" if m: "m = l\<lparr>l_phase := Allocated, l_host_mac := Some mac0\<rparr>" for m mac0
  proof (rule ran_seq [OF extends_save], rule triple_seq [OF weak [OF install_ingress_ran]], intro triple_ex)
    fix e mac
    have m2: "m\<lparr>l_phase := Active\<rparr> = l\<lparr>l_host_mac := Some mac0, l_phase := Active\<rparr>" using m by simp
    have i: "ingress_script m mac e = ingress_script l mac e" using m ing by simp
    have "triple (ran {Nft (ingress_script m mac e)} old l m)
      (seq (set_cur (m\<lparr>l_phase := Active\<rparr>)) (\<lambda>_. seq (save S (m\<lparr>l_phase := Active\<rparr>)) (\<lambda>_.
      seq (install_guard T (st_policy S) [m\<lparr>l_phase := Active\<rparr>]) (\<lambda>_. set_up T (m\<lparr>l_phase := Active\<rparr>)))))
      (\<lambda>_. ?G) ?G" if "mac = mac0"
      by (rule triple_seq [OF ran_set_cur], rule ran_seq [OF extends_save], rule up [OF m2])
        (use i that in \<open>auto intro: quiet_guarded\<close>)
    then show "triple (\<lambda>w. l_host_mac m = Some mac \<and> ran {Nft (ingress_script m mac e)} old l m w)
      (seq (set_cur (m\<lparr>l_phase := Active\<rparr>)) (\<lambda>_. seq (save S (m\<lparr>l_phase := Active\<rparr>)) (\<lambda>_.
      seq (install_guard T (st_policy S) [m\<lparr>l_phase := Active\<rparr>]) (\<lambda>_. set_up T (m\<lparr>l_phase := Active\<rparr>)))))
      (\<lambda>_. ?G) ?G"
      using m by (cases "mac = mac0") (simp_all add: triple_def)
  qed (auto intro: quiet_guarded)
  have rest: "triple (\<lambda>w. \<exists>mac. ran {} old l (l\<lparr>l_phase := Allocated, l_host_mac := Some mac\<rparr>) w) (seq cur k) (\<lambda>_. ?G) ?G"
    if "\<And>m mac. m = l\<lparr>l_phase := Allocated, l_host_mac := Some mac\<rparr> \<Longrightarrow> triple (ran {} old l m) (k m) (\<lambda>_. ?G) ?G"
    for k :: "lease \<Rightarrow> ('a, unit) io"
    by (rule triple_ex, rule triple_cur, rule that [OF refl]) (simp add: ran_def)
  show ?thesis
    unfolding prepare_host_def
    by (rule triple_cur [where l = l], intro triple_seq [OF ran_set_cur]
        triple_seq [OF weak [OF create_tap_ran [where m = "l\<lparr>l_phase := Allocated\<rparr>"]] rest] active
        ran_seq extends_rules extends_host_calls extends_install_guard)
      (auto simp: ran_def intro: quiet_guarded)
qed


definition staged_tool :: "string \<Rightarrow> string list \<Rightarrow> bool \<Rightarrow> tool_output \<times> bool" where
  "staged_tool prog args created =
     (if args = links_args then (succeed (if created then ''1'' else ''0''), created)
      else if take 2 args = [''tuntap'', ''add''] then (succeed [], True)
      else if args = [''--json'', ''list'', ''tables''] then (succeed ''t'', created)
      else if take 2 args = [''--json'', ''-family''] then (succeed ''0'', created)
      else (succeed [], created))"

definition staged_json :: "string \<Rightarrow> json result" where
  "staged_json s =
     (if s = ''1'' then Inr (JArr [JObj [(''ifname'', JStr ''swnt0000''),
          (''ifalias'', JStr (alias_of example_lease)), (''address'', JStr ''02:00:00:00:00:09'')]])
      else if s = ''t'' then Inr (JObj [(''nftables'', JArr [])])
      else Inr (JArr []))"

definition staged :: "bool tools" where
  "staged = \<lparr>run_tool = staged_tool, run_nft = (\<lambda>_ h. (succeed [], h)), parse_json = staged_json,
     print_json = (\<lambda>_. ''{}''), sha256 = (\<lambda>_. [0, 0])\<rparr>"

definition reserved_lease :: lease where
  "reserved_lease = example_lease\<lparr>l_host_mac := None, l_phase := Reserved\<rparr>"

definition staged_world :: "bool world" where
  "staged_world = \<lparr>w_files = [], w_lstat = (\<lambda>p. if p = st_directory example_store then Inr private_directory
       else Inl os_error), w_busy = [], w_host = False, w_cur = reserved_lease,
     w_log = [], w_script = [], w_dead = False, w_stat = (\<lambda>_. Inr example_stat),
     w_urandom = (\<lambda>_. 0), w_drawn = 0\<rparr>"

lemma syscall_alive: "\<not> w_dead w \<Longrightarrow> w_script w = [] \<Longrightarrow> syscall eff w = eff w"
  by (simp add: syscall_def)

lemma staged_command:
  assumes "\<not> w_dead w" "w_script w = []"
  shows "command staged prog args w =
    (let (out, h) = staged_tool prog args (w_host w) in
     (tool_result prog out, w\<lparr>w_host := h, w_log := w_log w @ [Call prog args]\<rparr>))"
  using assms by (simp add: command_def seq_def syscall_alive staged_def split: prod.splits)

lemma staged_nft:
  assumes "\<not> w_dead w" "w_script w = []"
  shows "nft staged script w = (Inr (), w\<lparr>w_log := w_log w @ [Nft script]\<rparr>)"
  using assms by (simp add: nft_def seq_def syscall_alive staged_def succeed_def split: prod.splits)

lemma staged_outputs:
  "tool_result prog (succeed []) = Inr []" "tool_result prog (succeed ''0'') = Inr ''0''"
  "tool_result prog (succeed ''1'') = Inr ''1''" "tool_result prog (succeed ''t'') = Inr ''t''"
  by (simp_all add: tool_result_def succeed_def byte_in_def)

definition saved_files :: "store \<Rightarrow> lease \<Rightarrow> (path \<times> fs_file) list \<Rightarrow> (path \<times> fs_file) list" where
  "saved_files S l fs = AList.update (json_path S (l_lease l)) \<lparr>fi_meta = private_file, fi_content = LeaseRecord l\<rparr>
     (AList.delete (temp_path S (l_lease l)) fs)"

lemma map_of_saved:
  "map_of (saved_files S l fs) = (map_of fs)(temp_path S (l_lease l) := None,
     json_path S (l_lease l) \<mapsto> \<lparr>fi_meta = private_file, fi_content = LeaseRecord l\<rparr>)"
  by (simp add: saved_files_def update_conv' delete_conv')

lemma delete_update: "AList.delete k (AList.update k v xs) = AList.delete k xs"
  by (induction xs) auto

lemma save_alive:
  assumes "\<not> w_dead w" "w_script w = []" "map_of (w_files w) (st_directory S) = None"
    "w_lstat w (st_directory S) = Inr private_directory"
    "map_of (w_files w) (temp_path S (l_lease l)) = None" "w_lstat w (temp_path S (l_lease l)) = Inl e"
  shows "save S l w = (Inr (), w\<lparr>w_files := saved_files S l (w_files w)\<rparr>)"
proof -
  let ?t = "temp_path S (l_lease l)"
  have dir: "butlast ?t = st_directory S" by (simp add: temp_path_def)
  have "lstat w ?t = Inl e" "path_exists w (st_directory S)"
    using assms(3-6) by (simp_all add: lstat_def path_exists_def private_directory_def)
  then show ?thesis
    using assms dir
    by (simp add: save_def syscall_alive open_truncated_def write_lease_def rename_file_def seq_def
        update_conv' ret_def saved_files_def delete_update)
qed

lemma staged_parse: "parse_json staged = staged_json"
  by (simp add: staged_def)

text \<open>A world the staged host runs in without failures.\<close>

definition running :: "bool world \<Rightarrow> bool" where
  "running w \<longleftrightarrow> \<not> w_dead w \<and> w_script w = [] \<and> map_of (w_files w) (st_directory example_store) = None
     \<and> w_lstat w = w_lstat staged_world
     \<and> map_of (w_files w) (temp_path example_store (l_lease example_lease)) = None"

lemma running_save:
  assumes "running w" "l_lease l = l_lease example_lease"
  shows "save example_store l w = (Inr (), w\<lparr>w_files := saved_files example_store l (w_files w)\<rparr>)
    \<and> running (w\<lparr>w_files := saved_files example_store l (w_files w)\<rparr>)"
proof -
  have ne: "temp_path example_store t \<noteq> st_directory example_store" "json_path example_store t \<noteq> st_directory example_store"
    "temp_path example_store t \<noteq> json_path example_store t" for t
    by (simp_all add: temp_path_def json_path_def)
  have "save example_store l w = (Inr (), w\<lparr>w_files := saved_files example_store l (w_files w)\<rparr>)"
    by (rule save_alive [where e = os_error]) (use assms ne in \<open>auto simp: running_def staged_world_def\<close>)
  then show ?thesis using assms ne ne(2) [symmetric] by (auto simp: running_def map_of_saved)
qed

lemma running_command:
  "running w \<Longrightarrow> seq (command staged prog args) k w =
    (let (out, h) = staged_tool prog args (w_host w) in
     case tool_result prog out of Inl e \<Rightarrow> (Inl e, w\<lparr>w_host := h, w_log := w_log w @ [Call prog args]\<rparr>)
     | Inr x \<Rightarrow> k x (w\<lparr>w_host := h, w_log := w_log w @ [Call prog args]\<rparr>))"
  by (simp add: running_def seq_def staged_command split: prod.splits)

lemma running_nft:
  "running w \<Longrightarrow> nft staged script w = (Inr (), w\<lparr>w_log := w_log w @ [Nft script]\<rparr>)"
  by (simp add: running_def staged_nft)

lemma running_updates [simp]:
  "running (w\<lparr>w_host := h\<rparr>) = running w" "running (w\<lparr>w_log := g\<rparr>) = running w"
  "running (w\<lparr>w_host := h, w_log := g\<rparr>) = running w" "running (w\<lparr>w_cur := l\<rparr>) = running w"
  by (simp_all add: running_def)

lemma running_links:
  "running w \<Longrightarrow> links staged w = (Inr (if w_host w then [JObj [(''ifname'', JStr ''swnt0000''),
      (''ifalias'', JStr (alias_of example_lease)), (''address'', JStr ''02:00:00:00:00:09'')]] else []),
    w\<lparr>w_log := w_log w @ [Call ''ip'' links_args]\<rparr>)"
  by (simp add: links_def links_args_def [symmetric] running_command staged_tool_def staged_outputs
      staged_parse staged_json_def)

lemma running_table:
  "running w \<Longrightarrow> table_exists staged f n w = (Inr False, w\<lparr>w_log := w_log w @ [Call ''nft'' [''--json'', ''list'', ''tables'']]\<rparr>)"
  by (simp add: table_exists_def running_command staged_tool_def links_args_def staged_outputs staged_parse staged_json_def)

lemma running_selector:
  "running w \<Longrightarrow> \<exists>log. purge_selector staged a s w = (Inr (), w\<lparr>w_log := w_log w @ log\<rparr>)"
  by (simp add: purge_selector_def running_command staged_tool_def links_args_def staged_outputs) (rule exI, rule refl)

lemma running_purge:
  "running w \<Longrightarrow> \<exists>log. purge_connections staged l w = (Inr (), w\<lparr>w_log := w_log w @ log\<rparr>)"
proof -
  have "running w \<Longrightarrow> \<exists>log. each (purge_selector staged a) ss w = (Inr (), w\<lparr>w_log := w_log w @ log\<rparr>)" for a ss w
  proof (induction ss arbitrary: w)
    case Nil
    then show ?case by (intro exI [of _ "[]"]) simp
  next
    case (Cons s ss)
    obtain log where "purge_selector staged a s w = (Inr (), w\<lparr>w_log := w_log w @ log\<rparr>)"
      using running_selector [OF Cons.prems] by blast
    moreover obtain log2 where "each (purge_selector staged a) ss (w\<lparr>w_log := w_log w @ log\<rparr>)
        = (Inr (), w\<lparr>w_log := (w_log w @ log) @ log2\<rparr>)"
      using Cons.IH [of "w\<lparr>w_log := w_log w @ log\<rparr>"] Cons.prems by auto
    ultimately show ?case by (intro exI [of _ "log @ log2"]) (simp add: seq_def)
  qed
  then show "running w \<Longrightarrow> ?thesis" by (simp add: purge_connections_def)
qed

lemma running_guard:
  "running w \<Longrightarrow> valid_token (l_lease l) \<Longrightarrow> \<exists>log. install_guard staged p [l] w = (Inr (), w\<lparr>w_log := w_log w @ log\<rparr>)"
  by (simp add: install_guard_def seq_def running_table running_nft) (rule exI, rule refl)

lemma running_ingress:
  "running w \<Longrightarrow> l_host_mac l = Some mac \<Longrightarrow> \<exists>log. install_ingress staged l w = (Inr (), w\<lparr>w_log := w_log w @ log\<rparr>)"
  by (simp add: install_ingress_def seq_def running_table running_nft) (rule exI, rule refl)

lemma seq_set_cur: "seq (set_cur l) k w = k () (w\<lparr>w_cur := l\<rparr>)"
  by (simp add: seq_def set_cur_def)

lemma running_create:
  assumes "running w" "\<not> w_host w" "w_cur w = l" "l_tap l = ''swnt0000''" "l_lease l = l_lease example_lease"
  shows "\<exists>log. create_tap staged w = (Inr (), w\<lparr>w_cur := l\<lparr>l_host_mac := Some ''02:00:00:00:00:09''\<rparr>,
    w_host := True, w_log := w_log w @ log\<rparr>)"
proof -
  have mac: "valid_mac ''02:00:00:00:00:09''" by (simp add: valid_mac_def is_lower_hex_def is_digit_def)
  have owned: "alias_of l = alias_of example_lease" using assms by (simp add: alias_of_def)
  show ?thesis
    using assms mac owned
    by (simp add: create_tap_def seq_def [of "links staged"] running_links running_command name_taken_def staged_tool_def
        links_args_def staged_outputs owned_link_def seq_set_cur)
      (rule exI, rule refl)
qed

lemma running_available:
  "running w \<Longrightarrow> \<exists>log. require_available_subnet staged g w = (Inr (), w\<lparr>w_log := w_log w @ log\<rparr>)"
  by (simp add: require_available_subnet_def running_command staged_tool_def links_args_def staged_outputs
      staged_parse staged_json_def check_routes_def) (rule exI, rule refl)

lemma running_up:
  assumes "running w" "w_host w" "l_tap l = ''swnt0000''" "l_lease l = l_lease example_lease"
  shows "\<exists>log. set_up staged l w = (Inr (), w\<lparr>w_log := log @ [up_call l]\<rparr>)"
  using assms
  by (simp add: set_up_def seq_def [of "links staged"] running_links running_command staged_tool_def
      links_args_def staged_outputs owned_link_def alias_of_def up_call_def)
    (rule exI [of _ "w_log w @ [Call ''ip'' links_args]"], simp add: links_args_def)

lemma name_taken_Nil: "name_taken n [] = False"
  by (simp add: name_taken_def)

lemma prepare_host_runs: "up_call reserved_lease \<in> set (w_log (snd (prepare_host staged example_store staged_world)))"
proof -
  let ?l = reserved_lease and ?mac = "''02:00:00:00:00:09''" and ?S = example_store
  let ?a = "?l\<lparr>l_phase := Allocated\<rparr>" let ?m = "?a\<lparr>l_host_mac := Some ?mac\<rparr>" let ?u = "?m\<lparr>l_phase := Active\<rparr>"
  have l: "l_tap ?l = ''swnt0000''" "l_lease ?l = l_lease example_lease" "valid_token (l_lease ?l)"
    using wf_example_lease by (simp_all add: reserved_lease_def example_lease_def wf_lease_def)
  have run0: "running staged_world" by (simp add: running_def staged_world_def)
  have cur0: "w_cur staged_world = ?l" "\<not> w_host staged_world" by (simp_all add: staged_world_def)
  obtain w1 where s1: "require_available_subnet staged (l_gateway ?l) staged_world = (Inr (), w1)"
    and run1: "running w1" "\<not> w_host w1"
    using running_available [OF run0, of "l_gateway ?l"] run0 cur0 by auto
  define w2 where "w2 = w1\<lparr>w_log := w_log w1 @ [Call ''ip'' links_args], w_cur := ?a\<rparr>"
  have run2: "running w2" "\<not> w_host w2" "w_cur w2 = ?a" using run1 by (simp_all add: w2_def)
  define w3 where "w3 = w2\<lparr>w_files := saved_files ?S ?a (w_files w2)\<rparr>"
  have s3: "save ?S ?a w2 = (Inr (), w3)" and run3: "running w3" "\<not> w_host w3" "w_cur w3 = ?a"
    using running_save [OF run2(1), of ?a] l run2 by (simp_all add: w3_def)
  obtain w4 where s4: "install_guard staged (st_policy ?S) [?a] w3 = (Inr (), w4)"
    and run4: "running w4" "\<not> w_host w4" "w_cur w4 = ?a"
    using running_guard [OF run3(1), of ?a "st_policy ?S"] l run3 by auto
  obtain w5 where s5: "purge_connections staged ?a w4 = (Inr (), w5)"
    and run5: "running w5" "\<not> w_host w5" "w_cur w5 = ?a"
    using running_purge [OF run4(1), of ?a] run4 by auto
  obtain w6 where s6: "create_tap staged w5 = (Inr (), w6)" and run6: "running w6" "w_host w6" "w_cur w6 = ?m"
    using running_create [OF run5] l run5 by auto
  define w7 where "w7 = w6\<lparr>w_files := saved_files ?S ?m (w_files w6)\<rparr>"
  have s7: "save ?S ?m w6 = (Inr (), w7)" and run7: "running w7" "w_host w7"
    using running_save [OF run6(1), of ?m] l run6 by (simp_all add: w7_def)
  obtain w8 where s8: "install_ingress staged ?m w7 = (Inr (), w8)" and run8: "running w8" "w_host w8"
    using running_ingress [OF run7(1), of ?m] run7 by auto
  define w9 where "w9 = w8\<lparr>w_cur := ?u\<rparr>"
  have run9: "running w9" "w_host w9" using run8 by (simp_all add: w9_def)
  define w10 where "w10 = w9\<lparr>w_files := saved_files ?S ?u (w_files w9)\<rparr>"
  have s10: "save ?S ?u w9 = (Inr (), w10)" and run10: "running w10" "w_host w10"
    using running_save [OF run9(1), of ?u] l run9 by (simp_all add: w10_def)
  obtain w11 where s11: "install_guard staged (st_policy ?S) [?u] w10 = (Inr (), w11)" and run11: "running w11" "w_host w11"
    using running_guard [OF run10(1), of ?u "st_policy ?S"] l run10 by auto
  obtain log where s12: "set_up staged ?u w11 = (Inr (), w11\<lparr>w_log := log @ [up_call ?u]\<rparr>)"
    using running_up [OF run11, of ?u] l by auto
  have s2: "links staged w1 = (Inr [], w1\<lparr>w_log := w_log w1 @ [Call ''ip'' links_args]\<rparr>)"
    using run1 by (simp add: running_links)
  have "prepare_host staged ?S staged_world = (Inr (), w11\<lparr>w_log := log @ [up_call ?u]\<rparr>)"
    unfolding prepare_host_def
    by (simp only: seq_def gets_apply cur0 check_apply name_taken_Nil not_False_eq_True ensure_simps set_cur_def
        case_prod_conv sum.case s1 s2 w2_def [symmetric] s3 s4 s5 s6 run6 s7 s8 w9_def [symmetric] s10 s11 s12)
  moreover have "up_call ?u = up_call ?l" by (simp add: up_call_def)
  ultimately show ?thesis by simp
qed


end
