(* ===== verification/NetworkOwners.thy ===== *)
theory NetworkOwners
  imports NetworkOrder
begin

text \<open>
  Which leases an operation creates and which it may touch: what \<open>reserve\<close> allocates, that an
  operation on somebody else's lease has no effect, and that the periodic cleanup leaves the
  leases of living gardens alone.
\<close>

section \<open>A scan reports only records\<close>

lemma read_entries_sound:
  assumes "read_entries d names w = (Inr ls, w')" "l \<in> set ls"
  shows "\<exists>name \<in> set names. journal w (d @ [name]) = Some (LeaseRecord l)"
  using assms
proof (induction names arbitrary: w ls)
  case Nil
  then show ?case by simp
next
  case (Cons x xs)
  show ?case
  proof (cases "extension x = Some ''json''")
    case False
    then show ?thesis using Cons by auto
  next
    case True
    from Cons.prems(1) True obtain c w1 l1 ls2 where o: "open_secure (d @ [x]) w = (Inr c, w1)"
      and l1: "as_lease c = Inr l1" and rest: "read_entries d xs w1 = (Inr ls2, w')" and ls: "ls = l1 # ls2"
      by (auto simp: act_simps result_simps)
    have c: "c = LeaseRecord l1" using l1 by (cases c) (auto simp: as_lease_def)
    have j: "journal w1 = journal w"
      using journal_quiet [OF quiet_result [OF quiet_open_secure [of undefined nothing "{}"] o]] .
    have "json_file (d @ [x])" using True by (simp add: json_file_def)
    then have "journal w (d @ [x]) = Some (LeaseRecord l1)"
      using open_secure_content [OF o] c by (simp add: journal_def)
    then show ?thesis using Cons.IH [OF rest] Cons.prems(2) j ls by auto
  qed
qed

lemma records_in_sound:
  assumes "records_in d w = (Inr ls, w')" "l \<in> set ls"
  shows "\<exists>name. journal w (d @ [name]) = Some (LeaseRecord l)"
proof -
  from assms obtain w1 names w2 where s: "secure d w = (Inr (), w1)" and d: "read_directory d w1 = (Inr names, w2)"
    and e: "read_entries d names w2 = (Inr ls, w')"
    by (auto simp: records_in_def act_simps split: if_splits)
  have w1: "w1 = w" using s by (simp add: secure_def)
  have "journal w2 = journal w"
    using journal_quiet [OF quiet_result [OF quiet_read_directory [of undefined nothing "{}"] d]] w1 by simp
  then show ?thesis using read_entries_sound [OF e assms(2)] by auto
qed

lemma records_of_sound:
  assumes "records_of d us w = (Inr ls, w')" "l \<in> set ls"
  shows "\<exists>u \<in> set us. \<exists>name. journal w (d @ [u, name]) = Some (LeaseRecord l)"
  using assms
proof (induction us arbitrary: w ls)
  case Nil
  then show ?case by simp
next
  case (Cons x xs)
  from Cons.prems(1) obtain l1 w1 l2 where r: "records_in (d @ [x]) w = (Inr l1, w1)"
    and rest: "records_of d xs w1 = (Inr l2, w')" and ls: "ls = l1 @ l2"
    by (auto simp: act_simps)
  have "journal w1 = journal w"
    by (rule journal_quiet [OF quiet_result [OF quiet_records_in [of undefined nothing "{}"] r]])
  then show ?case
    using Cons.IH [OF rest] records_in_sound [OF r] Cons.prems(2) ls by auto
qed

lemma all_records_leases:
  assumes "all_records S w = (Inr ls, w')" "l \<in> set ls"
  shows "\<exists>p. leases (st_policy S) w p = Some l"
proof -
  from assms(1) obtain w1 where r: "records_of (state_path (st_policy S)) (garden_units (st_policy S)) w = (Inr ls, w1)"
    by (auto simp: all_records_def act_simps)
  obtain u name where "u \<in> set (garden_units (st_policy S))"
    "journal w (state_path (st_policy S) @ [u, name]) = Some (LeaseRecord l)"
    using records_of_sound [OF r assms(2)] by blast
  then show ?thesis by (auto simp: leases_journal in_state_def)
qed

section \<open>What \<open>reserve\<close> allocates\<close>

lemma reserve_steps:
  assumes "reserve S own e w = (Inr l, w')"
  shows "\<exists>w1 ls w2 slot g ad random w3. quiet (st_policy S) nothing {} w w1
    \<and> all_records S w1 = (Inr ls, w2) \<and> quiet (st_policy S) nothing {} w2 w3
    \<and> \<not> list_ex (\<lambda>l. l_instance l = st_instance S \<and> l_execution_id l = e) ls
    \<and> free_slot (st_policy S) ls = Some slot \<and> addresses (st_policy S) (word_of_nat slot) = Inr (g, ad)
    \<and> length random = 16 \<and> \<not> list_ex (\<lambda>l. l_lease l = token_of (map unat random)) ls
    \<and> l = new_lease S own e (word_of_nat slot) g ad random \<and> save S l w3 = (Inr (), w')"
proof -
  from assms obtain v1 ls w2 slot g ad random w3 where
    g: "global_lock w = (Inr (), v1)" and
    rest: "all_records S v1 = (Inr ls, w2)" "\<not> list_ex (\<lambda>l. l_instance l = st_instance S \<and> l_execution_id l = e) ls"
      "free_slot (st_policy S) ls = Some slot" "addresses (st_policy S) (word_of_nat slot) = Inr (g, ad)"
      "draw16 w2 = (Inr random, w3)" "\<not> list_ex (\<lambda>l. l_lease l = token_of (map unat random)) ls"
      "l = new_lease S own e (word_of_nat slot) g ad random" "save S l w3 = (Inr (), w')"
    by (auto simp: reserve_def process_starttime_def seq_eq_Inr result_simps)
  have "quiet (st_policy S) nothing {} w v1"
    by (rule quiet_result [OF quiet_global_lock g])
  moreover have "quiet (st_policy S) nothing {} w2 w3"
    by (rule quiet_result [OF quiet_draw16 rest(5)])
  ultimately show ?thesis using rest draw16_length [OF rest(5)] by blast
qed

text \<open>The scan at the start of a reservation sees the journal as it is.\<close>

lemma scan_exact:
  assumes q: "quiet (st_policy S) nothing {} w w1" and ls: "all_records S w1 = (Inr ls, w2)"
    and ok: "journal_ok (st_policy S) w"
  shows "m \<in> set ls \<longleftrightarrow> (\<exists>p. leases (st_policy S) w p = Some m)"
    and "leases (st_policy S) w2 = leases (st_policy S) w"
proof -
  have same: "leases (st_policy S) w1 = leases (st_policy S) w" by (rule leases_quiet [OF q])
  then show same2: "leases (st_policy S) w2 = leases (st_policy S) w"
    using leases_quiet [OF quiet_result [OF quiet_all_records ls]] by simp
  show "m \<in> set ls \<longleftrightarrow> (\<exists>p. leases (st_policy S) w p = Some m)"
    using all_records_leases [OF ls] all_records_seen [OF ls journal_ok_quiet [OF q ok]] same same2
    by (auto simp: seen_def)
qed

lemma free_slot_lowest:
  assumes "free_slot P ls = Some n"
  shows "n < unat (slots P)" "j < n \<Longrightarrow> \<exists>m \<in> set ls. l_slot m = word_of_nat j"
  using assms by (auto simp: free_slot_def find_Some_iff nth_upt image_iff) (metis imageE)

text \<open>C6: A reservation that succeeds allocates the lowest free slot of the pool: every smaller slot is
  taken by a journal record, this one is taken by none, and neither is the execution id of the
  instance.  The new record is valid, in the phase \<open>Reserved\<close>, carries the addresses of its slot and
  the identity of the owner, and is in the journal under a name that was free, while all other records
  are untouched.\<close>

theorem reserve_allocates:
  assumes S: "wf_store S" and own: "owner_ok own" and e: "validate_execution e = Inr ()"
    and ok: "journal_ok (st_policy S) w" and r: "reserve S own e w = (Inr l, w')"
  shows "wf_lease l \<and> l_phase l = Reserved \<and> l_execution_id l = e \<and> l_instance l = st_instance S
    \<and> l_owner_uid l = peer_uid (o_peer own) \<and> l_owner_pid l = peer_pid (o_peer own)
    \<and> l_owner_starttime l = o_starttime own
    \<and> addresses (st_policy S) (l_slot l) = Inr (l_gateway l, l_address l)
    \<and> (\<forall>n < unat (l_slot l). \<exists>p m. leases (st_policy S) w p = Some m \<and> l_slot m = word_of_nat n)
    \<and> (\<forall>p m. leases (st_policy S) w p = Some m \<longrightarrow> l_slot m \<noteq> l_slot l
         \<and> \<not> (l_instance m = st_instance S \<and> l_execution_id m = e))
    \<and> leases (st_policy S) w (lease_path (st_policy S) l) = None
    \<and> leases (st_policy S) w' = (leases (st_policy S) w)(lease_path (st_policy S) l \<mapsto> l)"
proof -
  let ?P = "st_policy S"
  obtain w1 ls w2 slot g ad random w3 where q1: "quiet ?P nothing {} w w1"
    and ls: "all_records S w1 = (Inr ls, w2)" and q3: "quiet ?P nothing {} w2 w3"
    and fresh: "\<not> list_ex (\<lambda>l. l_instance l = st_instance S \<and> l_execution_id l = e) ls"
    and free: "free_slot ?P ls = Some slot" and addr: "addresses ?P (word_of_nat slot) = Inr (g, ad)"
    and n: "length random = 16" and token: "\<not> list_ex (\<lambda>l. l_lease l = token_of (map unat random)) ls"
    and l: "l = new_lease S own e (word_of_nat slot) g ad random" and sv: "save S l w3 = (Inr (), w')"
    using reserve_steps [OF r] by blast
  note scan = scan_exact [OF q1 ls ok]
  have wf: "wf_lease l" unfolding l by (rule wf_new_lease [OF S own e addr n])
  have "slot < 2 ^ 32" using free_slot_lowest(1) [OF free] slots_le [of ?P] S by (simp add: wf_store_def)
  then have unat_slot: "unat (l_slot l) = slot"
    by (simp add: l new_lease_def unsigned_of_nat take_bit_nat_eq_self)
  have lower: "\<exists>p m. leases ?P w p = Some m \<and> l_slot m = word_of_nat j" if "j < unat (l_slot l)" for j
    using free_slot_lowest(2) [OF free, of j] that unat_slot scan(1) by blast
  have taken: "l_slot m \<noteq> l_slot l \<and> \<not> (l_instance m = st_instance S \<and> l_execution_id m = e)"
    if "leases ?P w p = Some m" for p m
    using scan(1) [of m] that free_slot_fresh [OF free] fresh by (auto simp: l new_lease_def list_ex_iff)
  have none: "leases ?P w (lease_path ?P l) = None"
  proof (rule ccontr)
    assume "leases ?P w (lease_path ?P l) \<noteq> None"
    then obtain m where m: "leases ?P w (lease_path ?P l) = Some m" by auto
    have "l_lease m = l_lease l" using leases_ok [OF ok m] by (simp add: lease_path_def)
    then show False using token scan(1) [of m] m by (auto simp: l new_lease_def list_ex_iff)
  qed
  have adm: "admissible S l" using S wf by (simp add: admissible_def wf_lease_def l new_lease_def)
  have "leases ?P w' = (leases ?P w)(lease_path ?P l \<mapsto> l)"
    using leases_replaced [OF save_replaces [OF adm sv, of nothing]] json_in_state [OF S] admissible_path [OF adm]
      leases_quiet [OF q3] scan(2) by simp
  then show ?thesis
    using wf none lower taken addr by (simp add: l new_lease_def)
qed

section \<open>Operations on somebody else's lease\<close>

definition calm :: "'h world \<Rightarrow> 'h world \<Rightarrow> bool" where
  "calm w w' \<longleftrightarrow> w_log w' = w_log w \<and> w_host w' = w_host w \<and> w_files w' = w_files w"

interpretation calm: step_preorder calm
  by unfold_locales (auto simp: calm_def)

lemma calm_syscall: "moves calm eff \<Longrightarrow> moves calm (syscall eff)"
  by (erule syscall_moves) (auto simp: calm_def)

lemma calm_secure: "moves calm (secure p)"
  by (simp add: secure_def moves_def calm_def)

lemma calm_create_private_directory: "moves calm (create_private_directory p)"
  unfolding create_private_directory_def
  by (intro calm.moves_rules calm_syscall calm_secure)
    (auto simp: moves_def calm_def make_directories_def Let_def)

lemma calm_lock_file: "moves calm (lock_file p nb)"
  unfolding lock_file_def open_lock_def flock_def
  by (intro calm.moves_rules calm_syscall) (auto simp: moves_def calm_def split: sum.splits file_kind.splits)

lemma calm_global_lock: "moves calm global_lock"
  unfolding global_lock_def by (intro calm.moves_rules calm_create_private_directory calm_lock_file)

lemma calm_execution_lock: "moves calm (execution_lock T S e nb)"
  unfolding execution_lock_def by (rule calm_lock_file)

lemma calm_open_secure: "moves calm (open_secure p)"
  unfolding open_secure_def
  by (intro calm.moves_rules calm_syscall calm_secure) (auto simp: moves_def calm_def split: option.splits)

lemma calm_load: "moves calm (load S t)"
  unfolding load_def by (intro calm.moves_rules calm_open_secure)

lemma calm_result: "moves calm m \<Longrightarrow> m w = (r, w') \<Longrightarrow> calm w w'"
  by (metis moves_def snd_conv)

lemma calm_seq:
  assumes "moves calm m" "\<And>x. triple (calm w0) (k x) (\<lambda>_. calm w0) (calm w0)"
  shows "triple (calm w0) (seq m k) (\<lambda>_. calm w0) (calm w0)"
  by (rule triple_seq [OF calm.triple_moves [OF assms(1)] assms(2)]) (rule calm.step_trans)

lemma calm_load_seq:
  assumes S: "wf_store S" and l: "leases (st_policy S) w0 (json_path S token) = Some l"
    and none: "triple (calm w0) (k None) (\<lambda>_. calm w0) (calm w0)"
    and some: "triple (calm w0) (k (Some l)) (\<lambda>_. calm w0) (calm w0)"
  shows "triple (calm w0) (seq (load S token) k) (\<lambda>_. calm w0) (calm w0)"
  unfolding triple_def
proof (intro allI impI)
  fix w :: "'a world" assume w: "calm w0 w"
  obtain r w' where eq: "load S token w = (r, w')" by fastforce
  have w': "calm w0 w'" using calm.step_trans [OF w calm_result [OF calm_load eq]] .
  have "r' = None \<or> r' = Some l" if "r = Inr r'" for r'
  proof (cases r')
    case (Some m)
    have ld: "loaded S m w'" "l_lease m = token" using load_loaded [OF _ S] eq that Some by auto
    have "leases (st_policy S) w' = leases (st_policy S) w0"
      using w' by (simp add: calm_def leases_def journal_def fun_eq_iff)
    moreover have "lease_path (st_policy S) m = json_path S token"
      using ld lease_path_json [OF S, of m] by (simp add: loaded_def)
    ultimately show ?thesis using ld(1) l Some by (simp add: loaded_def)
  qed simp
  then show "case seq (load S token) k w of (Inl e, v) \<Rightarrow> calm w0 v | (Inr x, v) \<Rightarrow> calm w0 v"
    using eq w' none some by (cases r) (auto simp: seq_def triple_def)
qed



section \<open>The periodic cleanup leaves live leases alone\<close>

definition live_at :: "policy \<Rightarrow> path \<Rightarrow> lease \<Rightarrow> (int \<Rightarrow> string result) \<Rightarrow> 'h world \<Rightarrow> bool" where
  "live_at P p l st w \<longleftrightarrow> leases P w p = Some l \<and> w_stat w = st"

definition elsewhere :: "store \<Rightarrow> path \<Rightarrow> lease \<Rightarrow> bool" where
  "elsewhere S p c \<longleftrightarrow> admissible S c \<and> json_path S (l_lease c) \<noteq> p"

abbreviation (input) apart :: "store \<Rightarrow> path \<Rightarrow> lease \<Rightarrow> (int \<Rightarrow> string result) \<Rightarrow> 'h world \<Rightarrow> bool" where
  "apart S p l st \<equiv> \<lambda>w. live_at (st_policy S) p l st w \<and> elsewhere S p (w_cur w)"

lemma no_laws: "host_laws T nothing"
  by (simp add: host_laws_def)

lemma live_quiet: "quiet P has X u v \<Longrightarrow> live_at P p l st u \<Longrightarrow> live_at P p l st v"
  using leases_quiet [of P has X u v] by (auto simp: live_at_def quiet_def)

lemma apart_quiet: "moves (quiet (st_policy S) nothing {}) m \<Longrightarrow> keeps (apart S p l st) m"
proof (erule quiet.keeps_moves)
  fix u v :: "'a world"
  assume u: "apart S p l st u" and q: "quiet (st_policy S) nothing {} u v"
  have "live_at (st_policy S) p l st v" by (rule live_quiet [OF q]) (use u in simp)
  moreover have "w_cur v = w_cur u" using q by (simp add: quiet_def)
  ultimately show "apart S p l st v" using u by simp
qed

lemma live_replaced:
  "replaced P has q c u v \<Longrightarrow> q \<noteq> p \<Longrightarrow> live_at P p l st u \<Longrightarrow> live_at P p l st v"
  by (auto simp: live_at_def leases_journal replaced_def)

lemma apart_save: "elsewhere S p c \<Longrightarrow> keeps (apart S p l st) (save S c)"
proof (rule keepsI)
  fix w :: "'a world" assume c: "elsewhere S p c" and w: "apart S p l st w"
  have adm: "admissible S c" using c by (simp add: elsewhere_def)
  from save_cases [OF adm, of nothing w] show "apart S p l st (snd (save S c w))"
  proof
    assume q: "quiet (st_policy S) nothing {} w (snd (save S c w))"
    have "w_cur (snd (save S c w)) = w_cur w" using q by (simp add: quiet_def)
    then show ?thesis using live_quiet [OF q] w by simp
  next
    assume q: "replaced (st_policy S) nothing (json_path S (l_lease c)) (Some (LeaseRecord c)) w (snd (save S c w))"
    have "w_cur (snd (save S c w)) = w_cur w" using q by (simp add: replaced_def)
    then show ?thesis using live_replaced [OF q] c w by (simp add: elsewhere_def)
  qed
qed

lemma apart_unlink: "elsewhere S p c \<Longrightarrow> keeps (apart S p l st) (unlink_lease S (l_lease c))"
proof (rule keepsI)
  fix w :: "'a world" assume c: "elsewhere S p c" and w: "apart S p l st w"
  have adm: "admissible S c" using c by (simp add: elsewhere_def)
  from unlink_cases [OF adm, of nothing w] show "apart S p l st (snd (unlink_lease S (l_lease c) w))"
  proof
    assume q: "quiet (st_policy S) nothing {} w (snd (unlink_lease S (l_lease c) w))"
    have "w_cur (snd (unlink_lease S (l_lease c) w)) = w_cur w" using q by (simp add: quiet_def)
    then show ?thesis using live_quiet [OF q] w by simp
  next
    assume q: "replaced (st_policy S) nothing (json_path S (l_lease c)) None w (snd (unlink_lease S (l_lease c) w))"
    have "w_cur (snd (unlink_lease S (l_lease c) w)) = w_cur w" using q by (simp add: replaced_def)
    then show ?thesis using live_replaced [OF q] c w by (simp add: elsewhere_def)
  qed
qed

lemma live_cur [simp]: "live_at P p l st (w\<lparr>w_cur := c\<rparr>) = live_at P p l st w"
  by (simp add: live_at_def)

lemma apart_set_cur: "elsewhere S p c \<Longrightarrow> keeps (apart S p l st) (set_cur c)"
  by (simp add: keeps_def set_cur_def)

lemma elsewhere_phase: "elsewhere S p c \<Longrightarrow> elsewhere S p (c\<lparr>l_phase := ph\<rparr>)"
  by (simp add: elsewhere_def admissible_def)

lemma apart_cur: "(\<And>c. elsewhere S p c \<Longrightarrow> keeps (apart S p l st) (k c)) \<Longrightarrow> keeps (apart S p l st) (seq cur k)"
  by (simp add: keeps_def)

lemma apart_revoke: "keeps (apart S p l st) (revoke T S)"
  unfolding revoke_def
  by (rule apart_cur, intro keeps_if keeps_seq keeps_ret keeps_lift keeps_attempt apart_save apart_set_cur elsewhere_phase
      apart_quiet quiet_host_calls quiet_install_guard no_laws)

lemma apart_release: "keeps (apart S p l st) (release T S)"
  unfolding release_def
  by (rule apart_cur, intro keeps_if keeps_seq keeps_ret keeps_lift keeps_check keeps_attempt keeps_sum apart_save
      apart_set_cur apart_unlink elsewhere_phase apart_quiet quiet_remove_resources no_laws)

lemma live_step: "moves (quiet (st_policy S) nothing {}) m \<Longrightarrow>
    triple (live_at (st_policy S) p l st) m (\<lambda>_. live_at (st_policy S) p l st) (live_at (st_policy S) p l st)"
  by (erule quiet.triple_moves) (rule live_quiet)

lemma live_seq:
  assumes "moves (quiet (st_policy S) nothing {}) m"
    "\<And>x. triple (live_at (st_policy S) p l st) (k x) (\<lambda>_. live_at (st_policy S) p l st) (live_at (st_policy S) p l st)"
  shows "triple (live_at (st_policy S) p l st) (seq m k) (\<lambda>_. live_at (st_policy S) p l st) (live_at (st_policy S) p l st)"
  by (rule triple_seq [OF live_step [OF assms(1)] assms(2)])

lemma live_remove:
  assumes "elsewhere S p c"
  shows "triple (live_at (st_policy S) p l st) (seq (set_cur c) (\<lambda>_. seq (attempt (revoke_and_release T S)) (\<lambda>r. ret (f r))))
    (\<lambda>_. live_at (st_policy S) p l st) (live_at (st_policy S) p l st)"
proof -
  have "triple (live_at (st_policy S) p l st) (set_cur c) (\<lambda>_. apart S p l st) (live_at (st_policy S) p l st)"
    by (rule triple_set_cur) (simp add: assms)
  moreover have "keeps (apart S p l st) (seq (attempt (revoke_and_release T S)) (\<lambda>r. ret (f r)))"
    unfolding revoke_and_release_def
    by (intro keeps_seq keeps_attempt keeps_ret apart_revoke apart_release)
  then have "triple (apart S p l st) (seq (attempt (revoke_and_release T S)) (\<lambda>r. ret (f r)))
      (\<lambda>_. live_at (st_policy S) p l st) (live_at (st_policy S) p l st)"
    unfolding keeps_triple by (rule triple_weaken) auto
  ultimately show ?thesis by (rule triple_seq)
qed

lemma cleanup_found_live:
  fixes T :: "'h tools"
  assumes S: "wf_store S" and active: "l_phase l = Active"
    and alive: "bind_r (st (l_owner_pid l)) parse_starttime = Inr (l_owner_starttime l)"
  shows "triple (\<lambda>w. live_at (st_policy S) p l st w \<and> loaded S c w) (cleanup_found T S False c :: ('h, string list) io)
    (\<lambda>_. live_at (st_policy S) p l st) (live_at (st_policy S) p l st)"
proof (cases "elsewhere S p c")
  case True
  have "triple (live_at (st_policy S) p l st) (cleanup_found T S False c) (\<lambda>_. live_at (st_policy S) p l st)
      (live_at (st_policy S) p l st)"
    unfolding cleanup_found_def
    by (rule live_seq [OF quiet.attempt_moves [OF quiet_process_starttime]], intro triple_if triple_ret live_remove [OF True])
  then show ?thesis by (rule triple_pre) simp
next
  case False
  have "c = l" if w: "live_at (st_policy S) p l st w" "loaded S c w" for w :: "'h world"
  proof -
    have "json_path S (l_lease c) = p" using S False w(2) by (auto simp: elsewhere_def admissible_def loaded_def wf_lease_def)
    then show ?thesis using w lease_path_json [OF S, of c] by (simp add: loaded_def live_at_def)
  qed
  then show ?thesis
    unfolding triple_def using active alive
    by (auto simp: cleanup_found_def process_starttime_def live_at_def)
qed

lemma load_live:
  assumes S: "wf_store S"
  shows "triple (live_at (st_policy S) p l st) (load S i :: ('h, lease option) io)
    (\<lambda>r w. live_at (st_policy S) p l st w \<and> (\<forall>c. r = Some c \<longrightarrow> loaded S c w)) (live_at (st_policy S) p l st)"
  using live_step [OF quiet_load, of S p l st S i] load_loaded [OF _ S]
  unfolding triple_def by (fastforce split: prod.splits sum.splits)

lemma cleanup_one_live:
  fixes T :: "'h tools"
  assumes S: "wf_store S" and l: "l_phase l = Active"
    "bind_r (st (l_owner_pid l)) parse_starttime = Inr (l_owner_starttime l)"
  shows "triple (live_at (st_policy S) p l st) (cleanup_one T S False old :: ('h, string list) io)
    (\<lambda>_. live_at (st_policy S) p l st) (live_at (st_policy S) p l st)"
proof -
  let ?L = "live_at (st_policy S) p l st :: 'h world \<Rightarrow> bool"
  have found: "triple (\<lambda>w. ?L w \<and> (\<forall>c. r = Some c \<longrightarrow> loaded S c w))
      (case r of None \<Rightarrow> ret [] | Some c \<Rightarrow> cleanup_found T S False c) (\<lambda>_. ?L) ?L" for r
    by (cases r) (auto intro: triple_pre [OF triple_ret] triple_pre [OF cleanup_found_live [where st = st, OF S l]])
  show ?thesis
    unfolding cleanup_one_def
    by (rule live_seq [OF quiet_execution_lock],
        intro triple_if triple_ret live_seq quiet_global_lock triple_seq [OF load_live [OF S] found])
qed

text \<open>C5: The cleanup that a garden asks for never touches the lease of a living owner: a record in the
  phase \<open>Active\<close> whose owner process still exists with the recorded start time is in the journal
  unchanged after \<open>store_cleanup\<close>, whatever happens to the other records and whichever call fails.\<close>

theorem cleanup_keeps_live:
  assumes S: "wf_store S" and l: "leases (st_policy S) w p = Some l" and active: "l_phase l = Active"
    and alive: "bind_r (w_stat w (l_owner_pid l)) parse_starttime = Inr (l_owner_starttime l)"
  shows "leases (st_policy S) (snd (store_cleanup T S False w)) p = Some l"
proof -
  let ?L = "live_at (st_policy S) p l (w_stat w)"
  have each: "triple ?L (cleanup_each T S False ls) (\<lambda>_. ?L) ?L" for ls
  proof (induction ls)
    case Nil
    show ?case unfolding cleanup_each.simps by (rule triple_ret)
  next
    case (Cons c ls)
    show ?case
      unfolding cleanup_each.simps
      by (rule triple_seq [OF cleanup_one_live [where st = "w_stat w", OF S active alive]], rule triple_seq [OF Cons.IH], rule triple_ret)
  qed
  have "triple ?L (store_cleanup T S False) (\<lambda>_. ?L) ?L"
    unfolding store_cleanup_def
    by (rule live_seq [OF quiet_global_lock], rule live_seq [OF quiet_records_in],
        rule triple_seq [OF each], rule triple_check)
  moreover have "?L w" using l by (simp add: live_at_def)
  ultimately have "?L (snd (store_cleanup T S False w))"
    using keepsD [of ?L "store_cleanup T S False" w] by (simp add: keeps_triple)
  then show ?thesis by (simp add: live_at_def)
qed

theorem cleanup_keeps_live_witness:
  "leases example_policy example_world (lease_path example_policy example_lease) = Some example_lease
   \<and> bind_r (w_stat example_world (l_owner_pid example_lease)) parse_starttime = Inr (l_owner_starttime example_lease)
   \<and> leases example_policy (snd (store_cleanup sim example_store False example_world))
       (lease_path example_policy example_lease) = Some example_lease"
proof -
  have policy: "st_policy example_store = example_policy" by (simp add: example_store_def)
  have l: "leases (st_policy example_store) example_world (lease_path example_policy example_lease) = Some example_lease"
    by (simp add: policy example_leases)
  have active: "l_phase example_lease = Active" by (simp add: example_lease_def)
  have alive: "bind_r (w_stat example_world (l_owner_pid example_lease)) parse_starttime = Inr (l_owner_starttime example_lease)"
    using example_starttime by (simp add: example_world_def example_lease_def)
  show ?thesis
    using l alive cleanup_keeps_live [OF wf_example_store l active alive, of sim] by (simp add: policy)
qed

section \<open>A reservation that succeeds\<close>

definition in_place :: "path \<Rightarrow> 'h world \<Rightarrow> bool" where
  "in_place d w \<longleftrightarrow> \<not> w_dead w \<and> w_script w = [] \<and> absolute_path d
     \<and> (\<forall>q \<in> set (ancestors d). map_of (w_files w) q = None \<and> w_lstat w q = Inr private_directory)"

lemma in_place_lstat: "in_place d w \<Longrightarrow> q \<in> set (ancestors d) \<Longrightarrow> lstat w q = Inr private_directory \<and> path_exists w q"
  by (simp add: in_place_def lstat_def path_exists_def private_directory_def)

lemma self_ancestor: "p \<noteq> [] \<Longrightarrow> ancestors p = p # tl (ancestors p)"
proof -
  assume p: "p \<noteq> []"
  then obtain xs x where "p = xs @ [x]" by (metis append_butlast_last_id)
  then show ?thesis by (simp add: ancestors_def prefixes_snoc)
qed

lemma self_in_ancestors: "p \<noteq> [] \<Longrightarrow> p \<in> set (ancestors p)"
  by (subst self_ancestor) simp_all

lemma in_place_secure: "in_place d w \<Longrightarrow> secure d w = (Inr (), w)"
proof -
  assume d: "in_place d w"
  have "(\<And>q. q \<in> set qs \<Longrightarrow> lstat w q = Inr private_directory) \<Longrightarrow> secure_each (lstat w) qs = Inr ()" for qs
    by (induction qs) (auto simp: protected_entry_def private_directory_def)
  then have "secure_each (lstat w) (ancestors d) = Inr ()" using in_place_lstat [OF d] by blast
  then show ?thesis using d by (simp add: secure_def secure_path_def in_place_def)
qed

lemma in_place_create:
  assumes d: "in_place d w" shows "create_private_directory d w = (Inr (), w)"
proof -
  have ne: "d \<noteq> []" using d by (auto simp: in_place_def absolute_path_def)
  have all: "lstat w q = Inr private_directory \<and> path_exists w q" if "q \<in> set (ancestors d)" for q
    using in_place_lstat [OF d that] .
  have f: "find (path_exists w) (ancestors d) = Some d"
    using self_ancestor [OF ne] all [of d] by (metis find.simps(2) list.set_intros(1))
  have none: "filter (\<lambda>q. \<not> path_exists w q) (ancestors d) = []" using all by (simp add: filter_empty_conv)
  have present: "filter (path_exists w) (ancestors d) = ancestors d" using all by (simp add: filter_id_conv)
  have "make_directories d w = (Inr (), w)"
    using all unfolding make_directories_def none present
    by (auto simp: Let_def list_all_iff private_directory_def)
  moreover have "lstat w d = Inr private_directory" using self_ancestor [OF ne] all by (metis list.set_intros(1))
  moreover have "syscall (make_directories d) w = make_directories d w" using d by (simp add: in_place_def syscall_alive)
  ultimately show ?thesis
    using in_place_secure [OF d]
    by (simp add: create_private_directory_def f seq_def private_directory_def)
qed

lemma in_place_lock:
  assumes "in_place d w" "w_lstat w (d @ [name]) = Inl e" "map_of (w_files w) (d @ [name]) = None"
    "d @ [name] \<notin> set (w_busy w)"
  shows "lock_file (d @ [name]) nb w = (Inr True, w\<lparr>w_lstat := (w_lstat w)(d @ [name] := Inr private_file)\<rparr>)"
  using assms
  by (simp add: lock_file_def open_lock_def flock_def in_place_def syscall_alive lstat_def seq_def private_file_def)

definition empty_world :: "string world" where
  "empty_world = example_world\<lparr>w_files := [],
     w_lstat := (\<lambda>p. if p \<in> set (ancestors (st_directory example_store)) \<union> set (ancestors ownership_directory)
       then Inr private_directory else Inl os_error)\<rparr>"

lemma example_directories:
  "state_path example_policy = [''/'', ''run'', ''sower-network'']"
  "st_directory example_store = [''/'', ''run'', ''sower-network'', ''sower-garden.service'']"
  "garden_units example_policy = [''sower-garden.service'']"
  by (simp_all add: state_path_def components_def example_policy_def default_state_directory_def example_store_def
      default_garden_units_def starts_with_def)

lemma empty_in_place: "in_place (st_directory example_store) empty_world" "in_place ownership_directory empty_world"
  by (auto simp: in_place_def empty_world_def example_world_def absolute_path_def ownership_directory_def
      example_directories)

definition locked_world :: "string world" where
  "locked_world = empty_world\<lparr>w_lstat := (w_lstat empty_world)(ownership_directory @ [''namespace.lock''] := Inr private_file)\<rparr>"

lemma empty_global_lock: "global_lock empty_world = (Inr (), locked_world)"
proof -
  have "w_lstat empty_world (ownership_directory @ [''namespace.lock'']) = Inl os_error"
    by (simp add: empty_world_def ownership_directory_def ancestors_def example_directories)
  then have "lock_file (ownership_directory @ [''namespace.lock'']) False empty_world = (Inr True, locked_world)"
    using in_place_lock [OF empty_in_place(2), of "''namespace.lock''" os_error False]
    by (simp add: locked_world_def empty_world_def example_world_def)
  then show ?thesis
    by (simp add: global_lock_def in_place_create [OF empty_in_place(2)] seq_def)
qed

lemma locked_in_place: "in_place (st_directory example_store) locked_world"
  using empty_in_place(1)
  by (auto simp: in_place_def locked_world_def ownership_directory_def example_directories ancestors_def)

lemma locked_records: "all_records example_store locked_world = (Inr [], locked_world)"
proof -
  have files: "w_files locked_world = []" by (simp add: locked_world_def empty_world_def)
  have alive: "\<not> w_dead locked_world" "w_script locked_world = []"
    using locked_in_place by (simp_all add: in_place_def)
  have ex: "path_exists locked_world (st_directory example_store)"
    using in_place_lstat [OF locked_in_place self_in_ancestors] by (simp add: example_directories)
  have dir: "state_path (st_policy example_store) @ [''sower-garden.service''] = st_directory example_store"
    "garden_units (st_policy example_store) = [''sower-garden.service'']"
    by (simp_all add: example_directories example_store_def)
  have "records_in (st_directory example_store) locked_world = (Inr [], locked_world)"
    using ex alive files
    by (simp add: records_in_def seq_def in_place_secure [OF locked_in_place] read_directory_def syscall_alive)
  then show ?thesis
    by (simp add: all_records_def dir seq_def)
qed

theorem reserve_allocates_witness:
  "\<exists>l w'. reserve example_store example_owner ''job'' empty_world = (Inr l, w') \<and> wf_lease l \<and> l_slot l = 0
     \<and> leases example_policy w' (lease_path example_policy l) = Some l"
proof -
  have policy: "st_policy example_store = example_policy" by (simp add: example_store_def)
  have start: "process_starttime (peer_pid (o_peer example_owner)) locked_world = (Inr (o_starttime example_owner), locked_world)"
    by (simp add: process_starttime_def locked_world_def empty_world_def example_world_def example_starttime
        example_owner_def)
  have s: "slots example_policy = 16384" by (simp add: slots_def example_policy_def push_bit_eq_mult)
  have free: "free_slot example_policy [] = Some 0"
  proof -
    have "[0..<unat (slots example_policy)] = 0 # [Suc 0..<unat (slots example_policy)]"
      by (rule upt_conv_Cons) (simp add: s)
    then show ?thesis by (simp only: free_slot_def find.simps list.set image_empty empty_iff not_False_eq_True if_True)
  qed
  obtain g ad where a: "addresses example_policy 0 = Inr (g, ad)"
    by (auto simp: addresses_def s Let_def)
  define bytes where "bytes = map (\<lambda>i. w_urandom locked_world (w_drawn locked_world + i)) [0..<16]"
  define w2 where "w2 = locked_world\<lparr>w_drawn := w_drawn locked_world + 16\<rparr>"
  have draw: "draw16 locked_world = (Inr bytes, w2)"
    using locked_in_place by (simp add: draw16_def syscall_alive in_place_def bytes_def w2_def)
  define l where "l = new_lease example_store example_owner ''job'' 0 g ad bytes"
  have temp: "w_lstat w2 (temp_path example_store (l_lease l)) = Inl os_error"
    by (simp add: w2_def locked_world_def empty_world_def temp_path_def ownership_directory_def ancestors_def
        example_directories)
  have dir: "w_lstat w2 (st_directory example_store) = Inr private_directory"
    using locked_in_place self_in_ancestors [of "st_directory example_store"]
    by (simp add: in_place_def w2_def example_directories)
  have sv: "save example_store l w2 = (Inr (), w2\<lparr>w_files := saved_files example_store l (w_files w2)\<rparr>)"
    by (rule save_alive [OF _ _ _ dir _ temp])
      (use locked_in_place in \<open>simp_all add: w2_def in_place_def locked_world_def empty_world_def\<close>)
  have r: "reserve example_store example_owner ''job'' empty_world
      = (Inr l, w2\<lparr>w_files := saved_files example_store l (w_files w2)\<rparr>)"
    by (simp add: reserve_def seq_def empty_global_lock start locked_records policy free a draw sv
        l_def [symmetric])
  have own: "owner_ok example_owner" by (simp add: owner_ok_def example_owner_def example_peer_def)
  have e: "validate_execution ''job'' = Inr ()" by (simp add: validate_execution_def)
  have none: "leases example_policy empty_world p = None" for p
    by (simp add: leases_def journal_def empty_world_def)
  have ok: "journal_ok (st_policy example_store) empty_world"
    by (simp add: journal_ok_def policy none directories_exist_def) (simp add: journal_def empty_world_def)
  note facts = reserve_allocates [OF wf_example_store own e ok r, unfolded policy none]
  have "unat (l_slot l) = 0" using facts by auto
  then have "l_slot l = 0" by (simp add: unat_eq_0)
  with r facts show ?thesis by (intro exI [of _ l]) simp
qed

end
