(* ===== verification/NetworkArena.thy ===== *)
theory NetworkArena
  imports NetworkOwners
begin

text \<open>
  Several activator processes at work on one journal: every connection has its own process, and
  \<open>sower\<close>'s clean-up runs beside them.  What the processes agree on are the locks of
  \<open>src/src/commands/activator/network.rs\<close>: a process changes a record only while it holds the lock file of the
  record's execution, and records are created and removed under the global lock, one at a time.  Here each
  step of a process is one such change; the theory \<open>NetworkRuns\<close> shows that the operations of the code consist of
  them.
\<close>

section \<open>The steps of a process\<close>

text \<open>The lock file of an execution, and the one of the execution a lease was given to.\<close>

definition lock_path :: "'h tools \<Rightarrow> policy \<Rightarrow> string \<Rightarrow> string \<Rightarrow> path" where
  "lock_path T P inst e =
     state_path P @ [inst, ''execution-'' @ hex_pad 4 (unat (lock_bucket (sha256 T e))) @ ''.lock'']"

definition lease_lock :: "'h tools \<Rightarrow> policy \<Rightarrow> lease \<Rightarrow> path" where
  "lease_lock T P l = lock_path T P (l_instance l) (l_execution_id l)"

lemma execution_lock_path:
  "wf_store S \<Longrightarrow> execution_lock T S e nonblocking = lock_file (lock_path T (st_policy S) (st_instance S) e) nonblocking"
  by (simp add: execution_lock_def lock_path_def wf_store_def)

text \<open>
  A process is idle, holds the lock of an execution, perhaps for the sake of a record it has seen, or
  works on a lease, which is the value of its local variable.
\<close>

datatype activity = Idle | Locked path "path option" | Working path lease

text \<open>
  \<open>ar_used\<close> holds the names of all records that ever were in the journal, \<open>ar_seen\<close> the records a process has
  read before it took a lock, with the lock each of them asks for.
\<close>

record 'p arena =
  ar_shelf :: "path \<Rightarrow> lease option"
  ar_used :: "path set"
  ar_seen :: "'p \<Rightarrow> (path \<times> path) set"
  ar_held :: "path \<Rightarrow> 'p option"
  ar_act :: "'p \<Rightarrow> activity"

definition same_lease :: "lease \<Rightarrow> lease \<Rightarrow> bool" where
  "same_lease l m \<longleftrightarrow> m = l\<lparr>l_host_mac := l_host_mac m, l_phase := l_phase m\<rparr>"

text \<open>What the code assigns to its lease: the phase of the next stage, and the host's MAC address once.\<close>

definition stages :: "(phase \<times> phase) set" where
  "stages = {(Reserved, Allocated), (Allocated, Allocated), (Allocated, Active), (Allocated, Revoked), (Active, Revoked),
     (Revoked, Revoked), (Quarantined, Revoked), (Revoked, Quarantined)}"

definition advances :: "lease \<Rightarrow> lease \<Rightarrow> bool" where
  "advances l m \<longleftrightarrow> wf_lease m \<and> same_lease l m \<and> (l_phase l, l_phase m) \<in> stages"

text \<open>
  What a reservation may add.  The name of the record is the random token; that 128 random bits do not repeat is
  the assumption \<open>lease_path P l \<notin> ar_used a\<close> of the step.
\<close>

definition allocatable :: "policy \<Rightarrow> (path \<Rightarrow> lease option) \<Rightarrow> lease \<Rightarrow> bool" where
  "allocatable P shelf l \<longleftrightarrow> wf_lease l \<and> l_phase l = Reserved \<and> (\<forall>p m. shelf p = Some m \<longrightarrow> l_slot m \<noteq> l_slot l)"

inductive move :: "'h tools \<Rightarrow> policy \<Rightarrow> 'p \<Rightarrow> 'p arena \<Rightarrow> 'p arena \<Rightarrow> bool" for T P i where
  look: "ar_act a i = Idle \<Longrightarrow> ar_shelf a p = Some l \<Longrightarrow>
    move T P i a (a\<lparr>ar_seen := (ar_seen a)(i := insert (p, lease_lock T P l) (ar_seen a i))\<rparr>)"
| acquire: "ar_act a i = Idle \<Longrightarrow> ar_held a k = None \<Longrightarrow>
    move T P i a (a\<lparr>ar_held := (ar_held a)(k \<mapsto> i), ar_act := (ar_act a)(i := Locked k None)\<rparr>)"
| acquire_seen: "ar_act a i = Idle \<Longrightarrow> ar_held a k = None \<Longrightarrow> (p, k) \<in> ar_seen a i \<Longrightarrow>
    move T P i a (a\<lparr>ar_held := (ar_held a)(k \<mapsto> i), ar_act := (ar_act a)(i := Locked k (Some p))\<rparr>)"
| reserves: "ar_act a i = Locked k None \<Longrightarrow> lease_lock T P l = k \<Longrightarrow> allocatable P (ar_shelf a) l \<Longrightarrow>
    lease_path P l \<notin> ar_used a \<Longrightarrow>
    move T P i a (a\<lparr>ar_shelf := (ar_shelf a)(lease_path P l \<mapsto> l), ar_used := insert (lease_path P l) (ar_used a),
      ar_act := (ar_act a)(i := Working k l)\<rparr>)"
| loads: "ar_act a i = Locked k (Some p) \<Longrightarrow> ar_shelf a p = Some l \<Longrightarrow>
    move T P i a (a\<lparr>ar_act := (ar_act a)(i := Working k l)\<rparr>)"
| assigns: "ar_act a i = Working k l \<Longrightarrow> advances l m \<Longrightarrow>
    move T P i a (a\<lparr>ar_act := (ar_act a)(i := Working k m)\<rparr>)"
| saves: "ar_act a i = Working k l \<Longrightarrow>
    move T P i a (a\<lparr>ar_shelf := (ar_shelf a)(lease_path P l \<mapsto> l)\<rparr>)"
| unlinks: "ar_act a i = Working k l \<Longrightarrow> l_phase l \<in> {Reserved, Revoked} \<Longrightarrow> ar_shelf a (lease_path P l) = Some l \<Longrightarrow>
    move T P i a (a\<lparr>ar_shelf := (ar_shelf a)(lease_path P l := None), ar_act := (ar_act a)(i := Locked k None)\<rparr>)"
| stops_locked: "ar_act a i = Locked k x \<Longrightarrow>
    move T P i a (a\<lparr>ar_held := (ar_held a)(k := None), ar_act := (ar_act a)(i := Idle)\<rparr>)"
| stops_working: "ar_act a i = Working k l \<Longrightarrow>
    move T P i a (a\<lparr>ar_held := (ar_held a)(k := None), ar_act := (ar_act a)(i := Idle)\<rparr>)"

text \<open>Any process moves; a process that ends or is killed gives up its lock, as the kernel closes its files.\<close>

inductive arena_reaches :: "'h tools \<Rightarrow> policy \<Rightarrow> 'p arena \<Rightarrow> 'p arena \<Rightarrow> bool" for T P a where
  here: "arena_reaches T P a a"
| onward: "arena_reaches T P a b \<Longrightarrow> move T P i b c \<Longrightarrow> arena_reaches T P a c"

lemma arena_reaches_trans: "arena_reaches T P b c \<Longrightarrow> arena_reaches T P a b \<Longrightarrow> arena_reaches T P a c"
  by (induction rule: arena_reaches.induct) (auto intro: onward)

text \<open>The processes start on a journal whose records are valid and have different slots.\<close>

definition arena_start :: "policy \<Rightarrow> 'p arena \<Rightarrow> bool" where
  "arena_start P a \<longleftrightarrow>
     (\<forall>p l. ar_shelf a p = Some l \<longrightarrow> wf_lease l \<and> lease_path P l = p \<and> p \<in> ar_used a)
     \<and> (\<forall>p q l m. ar_shelf a p = Some l \<longrightarrow> ar_shelf a q = Some m \<longrightarrow> l_slot l = l_slot m \<longrightarrow> p = q)
     \<and> ar_held a = Map.empty \<and> (\<forall>i. ar_act a i = Idle \<and> ar_seen a i = {})"

section \<open>The invariant\<close>

definition rank :: "phase \<Rightarrow> nat" where
  "rank ph = (case ph of Reserved \<Rightarrow> 0 | Allocated \<Rightarrow> 1 | Active \<Rightarrow> 2 | Revoked \<Rightarrow> 3 | Quarantined \<Rightarrow> 3)"

lemma stages_rank: "(ph, ph') \<in> stages \<Longrightarrow> rank ph \<le> rank ph'"
  by (auto simp: stages_def rank_def)

lemma same_lease_refl [simp]: "same_lease l l" by (simp add: same_lease_def)

lemma same_lease_trans: "same_lease l m \<Longrightarrow> same_lease m n \<Longrightarrow> same_lease l n"
  by (cases l; cases m; cases n) (simp add: same_lease_def)

lemma same_lease_sym: "same_lease l m \<Longrightarrow> same_lease m l"
  by (cases l; cases m) (simp add: same_lease_def)

lemma same_lease_keys:
  assumes "same_lease l m"
  shows "lease_path P m = lease_path P l" "lease_lock T P m = lease_lock T P l" "l_slot m = l_slot l"
    "l_instance m = l_instance l"
proof -
  obtain mac ph where "m = l\<lparr>l_host_mac := mac, l_phase := ph\<rparr>" using assms by (auto simp: same_lease_def)
  then show "lease_path P m = lease_path P l" "lease_lock T P m = lease_lock T P l" "l_slot m = l_slot l"
    "l_instance m = l_instance l"
    by (simp_all add: lease_path_def lease_lock_def)
qed

definition lock_of :: "activity \<Rightarrow> path option" where
  "lock_of act = (case act of Idle \<Rightarrow> None | Locked k _ \<Rightarrow> Some k | Working k _ \<Rightarrow> Some k)"

lemma lock_of_simps [simp]:
  "lock_of Idle = None" "lock_of (Locked k x) = Some k" "lock_of (Working k l) = Some k"
  by (simp_all add: lock_of_def)

text \<open>What a process knows of the record \<open>p\<close> whose lock is \<open>k\<close>: it is, or was, a record of this lock.\<close>

definition marked :: "'h tools \<Rightarrow> policy \<Rightarrow> 'p arena \<Rightarrow> path \<Rightarrow> path \<Rightarrow> bool" where
  "marked T P a p k \<longleftrightarrow> p \<in> ar_used a \<and> (\<forall>l. ar_shelf a p = Some l \<longrightarrow> lease_lock T P l = k)"

definition shelf_ok :: "policy \<Rightarrow> (path \<Rightarrow> lease option) \<Rightarrow> path set \<Rightarrow> bool" where
  "shelf_ok P shelf used \<longleftrightarrow>
     (\<forall>p l. shelf p = Some l \<longrightarrow> wf_lease l \<and> lease_path P l = p \<and> p \<in> used)
     \<and> (\<forall>p q l m. shelf p = Some l \<longrightarrow> shelf q = Some m \<longrightarrow> l_slot l = l_slot m \<longrightarrow> p = q)"

definition locks_ok :: "'p arena \<Rightarrow> bool" where
  "locks_ok a \<longleftrightarrow> (\<forall>i k. lock_of (ar_act a i) = Some k \<longrightarrow> ar_held a k = Some i)"

definition marks_ok :: "'h tools \<Rightarrow> policy \<Rightarrow> 'p arena \<Rightarrow> bool" where
  "marks_ok T P a \<longleftrightarrow> (\<forall>i p k. (p, k) \<in> ar_seen a i \<longrightarrow> marked T P a p k)
     \<and> (\<forall>i p k. ar_act a i = Locked k (Some p) \<longrightarrow> marked T P a p k)"

definition on_shelf :: "policy \<Rightarrow> 'p arena \<Rightarrow> lease \<Rightarrow> bool" where
  "on_shelf P a l \<longleftrightarrow> (\<exists>l0. ar_shelf a (lease_path P l) = Some l0 \<and> same_lease l0 l \<and> rank (l_phase l0) \<le> rank (l_phase l))"

definition work_ok :: "'h tools \<Rightarrow> policy \<Rightarrow> 'p arena \<Rightarrow> bool" where
  "work_ok T P a \<longleftrightarrow> (\<forall>i k l. ar_act a i = Working k l \<longrightarrow> wf_lease l \<and> lease_lock T P l = k \<and> on_shelf P a l)"

definition arena_ok :: "'h tools \<Rightarrow> policy \<Rightarrow> 'p arena \<Rightarrow> bool" where
  "arena_ok T P a \<longleftrightarrow> shelf_ok P (ar_shelf a) (ar_used a) \<and> locks_ok a \<and> marks_ok T P a \<and> work_ok T P a"

lemma start_ok: "arena_start P a \<Longrightarrow> arena_ok T P a"
  by (simp add: arena_start_def arena_ok_def shelf_ok_def locks_ok_def marks_ok_def work_ok_def)

lemma working:
  assumes "arena_ok T P a" "ar_act a i = Working k l"
  obtains l0 where "wf_lease l" "lease_lock T P l = k" "ar_held a k = Some i" "ar_shelf a (lease_path P l) = Some l0"
    "same_lease l0 l" "rank (l_phase l0) \<le> rank (l_phase l)"
proof -
  have "wf_lease l \<and> lease_lock T P l = k \<and> on_shelf P a l"
    using assms unfolding arena_ok_def work_ok_def by blast
  moreover have "ar_held a k = Some i" using assms by (simp add: arena_ok_def locks_ok_def)
  ultimately show ?thesis using that by (auto simp: on_shelf_def)
qed

lemma shelved:
  assumes "arena_ok T P a" "ar_shelf a p = Some l"
  shows "wf_lease l" "lease_path P l = p" "p \<in> ar_used a"
  using assms by (auto simp: arena_ok_def shelf_ok_def)

text \<open>The process that works on a lease is alone with its record.\<close>

lemma alone:
  assumes ok: "arena_ok T P a" and i: "ar_act a i = Working k l" and j: "ar_act a j = Working k' m"
    and p: "lease_path P m = lease_path P l"
  shows "j = i"
proof -
  obtain l0 where l0: "ar_shelf a (lease_path P l) = Some l0" "same_lease l0 l" "lease_lock T P l = k" "ar_held a k = Some i"
    using working [OF ok i] by metis
  obtain m0 where m0: "ar_shelf a (lease_path P m) = Some m0" "same_lease m0 m" "lease_lock T P m = k'" "ar_held a k' = Some j"
    using working [OF ok j] by metis
  have "m0 = l0" using l0 m0 p by simp
  then have "k' = k" using l0 m0 same_lease_keys(2) by metis
  then show ?thesis using l0 m0 by simp
qed

section \<open>Every step keeps the invariant\<close>

lemma locks_move:
  assumes m: "move T P i a b" and ok: "arena_ok T P a" shows "locks_ok b"
proof -
  have held: "ar_held a k = Some j" if "lock_of (ar_act a j) = Some k" for j k
    using ok that by (simp add: arena_ok_def locks_ok_def)
  have free: "lock_of (ar_act a j) \<noteq> Some k" if "ar_held a k = None" for j k using held that by fastforce
  have one: "j = j'" if "lock_of (ar_act a j) = Some k" "lock_of (ar_act a j') = Some k" for j j' k
    using held [OF that(1)] held [OF that(2)] by simp
  from m show ?thesis
  proof cases
    case (stops_locked k x)
    then show ?thesis using held one [of i k] by (auto simp: locks_ok_def)
  next
    case (stops_working k l)
    then show ?thesis using held one [of i k] by (auto simp: locks_ok_def)
  qed (use held free in \<open>auto simp: locks_ok_def\<close>)
qed

lemma shelf_slots:
  assumes "shelf_ok P shelf used" "shelf p = Some l" "shelf q = Some m" "l_slot m = l_slot l"
  shows "q = p"
  using assms unfolding shelf_ok_def by metis

lemma shelf_add:
  assumes ok: "shelf_ok P shelf used" and l: "wf_lease l"
    and slot: "\<And>q m. shelf q = Some m \<Longrightarrow> l_slot m = l_slot l \<Longrightarrow> q = lease_path P l"
  shows "shelf_ok P (shelf(lease_path P l \<mapsto> l)) (insert (lease_path P l) used)"
proof -
  let ?k = "lease_path P l"
  have entry: "p = ?k \<and> x = l \<or> p \<noteq> ?k \<and> shelf p = Some x" if "(shelf(?k \<mapsto> l)) p = Some x" for p x
    using that by (cases "p = ?k") simp_all
  have 1: "\<forall>p x. (shelf(?k \<mapsto> l)) p = Some x \<longrightarrow> wf_lease x \<and> lease_path P x = p \<and> p \<in> insert ?k used"
    using entry l ok unfolding shelf_ok_def by blast
  have 2: "\<forall>p q x y. (shelf(?k \<mapsto> l)) p = Some x \<longrightarrow> (shelf(?k \<mapsto> l)) q = Some y \<longrightarrow> l_slot x = l_slot y \<longrightarrow> p = q"
    using entry slot shelf_slots [OF ok] by metis
  show ?thesis unfolding shelf_ok_def using 1 2 by blast
qed

lemma shelf_remove: "shelf_ok P shelf used \<Longrightarrow> shelf_ok P (shelf(k := None)) used"
proof -
  assume ok: "shelf_ok P shelf used"
  have old: "shelf p = Some x" if "(shelf(k := None)) p = Some x" for p x using that by (cases "p = k") simp_all
  show ?thesis using ok unfolding shelf_ok_def by (blast dest: old)
qed

lemma shelf_move:
  assumes "move T P i a b" "arena_ok T P a" shows "shelf_ok P (ar_shelf b) (ar_used b)"
proof -
  have ok: "shelf_ok P (ar_shelf a) (ar_used a)" using assms(2) by (simp add: arena_ok_def)
  from assms(1) show ?thesis
  proof cases
    case (reserves k l)
    have "q = lease_path P l" if "ar_shelf a q = Some m" "l_slot m = l_slot l" for q m
      using reserves(4) that unfolding allocatable_def by blast
    moreover have "wf_lease l" using reserves(4) by (simp add: allocatable_def)
    ultimately have "shelf_ok P ((ar_shelf a)(lease_path P l \<mapsto> l)) (insert (lease_path P l) (ar_used a))"
      by (intro shelf_add [OF ok])
    then show ?thesis unfolding reserves(1) by simp
  next
    case (saves k l)
    obtain l0 where l0: "wf_lease l" "ar_shelf a (lease_path P l) = Some l0" "same_lease l0 l"
      using working [OF assms(2) saves(2)] by metis
    have slot: "l_slot l = l_slot l0" using same_lease_keys(3) [OF l0(3)] .
    have "shelf_ok P ((ar_shelf a)(lease_path P l \<mapsto> l)) (insert (lease_path P l) (ar_used a))"
    proof (rule shelf_add [OF ok l0(1)])
      fix q m assume "ar_shelf a q = Some m" "l_slot m = l_slot l"
      then show "q = lease_path P l" using shelf_slots [OF ok l0(2)] slot by metis
    qed
    moreover have "insert (lease_path P l) (ar_used a) = ar_used a"
      using shelved(3) [OF assms(2) l0(2)] by (rule insert_absorb)
    ultimately show ?thesis unfolding saves(1) by simp
  next
    case (unlinks k l)
    then show ?thesis using shelf_remove [OF ok] by simp
  qed (simp_all add: ok)
qed

lemma marked_shelf:
  assumes "marked T P a p k" "ar_used a \<subseteq> ar_used b"
    "\<And>l. ar_shelf b p = Some l \<Longrightarrow> \<exists>m. ar_shelf a p = Some m \<and> lease_lock T P m = lease_lock T P l"
  shows "marked T P b p k"
  unfolding marked_def
proof (intro conjI allI impI)
  show "p \<in> ar_used b" using assms(1,2) by (auto simp: marked_def)
  fix l assume "ar_shelf b p = Some l"
  from assms(3) [OF this] obtain m where m: "ar_shelf a p = Some m" "lease_lock T P m = lease_lock T P l" by blast
  then show "lease_lock T P l = k" using assms(1) by (simp add: marked_def)
qed

text \<open>A step changes no lock of a record that is not new.\<close>

lemma lock_kept:
  assumes ok: "arena_ok T P a" and m: "move T P i a b" and l: "ar_shelf b p = Some l" and p: "p \<in> ar_used a"
  shows "\<exists>m. ar_shelf a p = Some m \<and> same_lease m l \<and> rank (l_phase m) \<le> rank (l_phase l)"
proof -
  have "ar_shelf a p = Some l \<or> (\<exists>k. ar_act a i = Working k l \<and> lease_path P l = p)"
    using m l p by (induction rule: move.induct) (auto split: if_splits)
  then show ?thesis
  proof
    assume "ar_shelf a p = Some l"
    then show ?thesis by (intro exI [of _ l]) simp
  next
    assume "\<exists>k. ar_act a i = Working k l \<and> lease_path P l = p"
    then have "on_shelf P a l" "lease_path P l = p" using ok unfolding arena_ok_def work_ok_def by blast+
    then show ?thesis by (simp add: on_shelf_def)
  qed
qed

lemma shelf_elsewhere:
  assumes "move T P i a b" "\<And>k m. ar_act a i = Working k m \<Longrightarrow> lease_path P m \<noteq> p" "p \<in> ar_used a"
    "ar_shelf a p = x"
  shows "ar_shelf b p = x"
  using assms by (induction rule: move.induct) auto

lemma used_grows: "move T P i a b \<Longrightarrow> ar_used a \<subseteq> ar_used b"
  by (induction rule: move.induct) auto

lemma marked_move:
  assumes "arena_ok T P a" "move T P i a b" "marked T P a p k"
  shows "marked T P b p k"
proof (rule marked_shelf [OF assms(3) used_grows [OF assms(2)]])
  fix l assume l: "ar_shelf b p = Some l"
  have "p \<in> ar_used a" using assms(3) by (simp add: marked_def)
  then obtain m where "ar_shelf a p = Some m" "same_lease m l"
    using lock_kept [OF assms(1,2) l] by metis
  then show "\<exists>m. ar_shelf a p = Some m \<and> lease_lock T P m = lease_lock T P l"
    using same_lease_keys(2) by metis
qed

lemma marks_move:
  assumes m: "move T P i a b" and ok: "arena_ok T P a" shows "marks_ok T P b"
proof -
  have old: "marked T P b p k" if "(p, k) \<in> ar_seen a j \<or> ar_act a j = Locked k (Some p)" for j p k
    using marked_move [OF ok m] ok that unfolding arena_ok_def marks_ok_def by blast
  from m show ?thesis
  proof cases
    case (look p l)
    have "marked T P a p (lease_lock T P l)" using shelved [OF ok look(3)] look(3) by (simp add: marked_def)
    then have "marked T P b p (lease_lock T P l)" by (rule marked_move [OF ok m])
    then show ?thesis using old unfolding look(1) marks_ok_def by (auto split: if_splits)
  next
    case (acquire_seen k p)
    then show ?thesis using old unfolding acquire_seen(1) marks_ok_def by (auto split: if_splits)
  qed (use old in \<open>auto simp: marks_ok_def split: if_splits\<close>)
qed

lemma work_move:
  assumes m: "move T P i a b" and ok: "arena_ok T P a" shows "work_ok T P b"
proof -
  have other: "wf_lease l \<and> lease_lock T P l = k \<and> on_shelf P b l"
    if j: "j \<noteq> i" "ar_act a j = Working k l" for j k l
  proof -
    obtain l0 where l0: "wf_lease l" "lease_lock T P l = k" "ar_shelf a (lease_path P l) = Some l0" "same_lease l0 l"
        "rank (l_phase l0) \<le> rank (l_phase l)"
      using working [OF ok j(2)] by metis
    have "lease_path P m \<noteq> lease_path P l" if "ar_act a i = Working k' m" for k' m
      using alone [OF ok j(2) that] j(1) by metis
    moreover have "lease_path P l \<in> ar_used a" using shelved [OF ok l0(3)] by simp
    ultimately have "ar_shelf b (lease_path P l) = Some l0"
      using l0(3) by (intro shelf_elsewhere [OF m])
    then show ?thesis using l0 by (simp add: on_shelf_def)
  qed
  have kept: "ar_act b j = ar_act a j" if "j \<noteq> i" for j using m that by cases auto
  have mine: "wf_lease l \<and> lease_lock T P l = k \<and> on_shelf P b l" if b: "ar_act b i = Working k l" for k l
    using m
  proof cases
    case (reserves k' l')
    then show ?thesis using b by (auto simp: on_shelf_def allocatable_def)
  next
    case (loads k' p l')
    have "marked T P a p k'" using ok loads(2) unfolding arena_ok_def marks_ok_def by blast
    then show ?thesis
      using b loads shelved [OF ok loads(3)] by (auto simp: on_shelf_def marked_def)
  next
    case (assigns k' l' m')
    obtain l0 where l0: "lease_lock T P l' = k'" "ar_shelf a (lease_path P l') = Some l0" "same_lease l0 l'"
        "rank (l_phase l0) \<le> rank (l_phase l')"
      using working [OF ok assigns(2)] by metis
    have m': "wf_lease m'" "same_lease l' m'" "rank (l_phase l') \<le> rank (l_phase m')"
      using assigns(3) stages_rank by (auto simp: advances_def)
    then show ?thesis
      using b assigns(1) l0 same_lease_keys [OF m'(2)] same_lease_trans [OF l0(3) m'(2)]
      by (auto simp: on_shelf_def intro: le_trans)
  next
    case (saves k' l')
    then show ?thesis using b working [OF ok saves(2)] by (auto simp: on_shelf_def)
  qed (use b in \<open>auto split: if_splits\<close>)
  show ?thesis unfolding work_ok_def using other mine kept by metis
qed

lemma move_ok: "move T P i a b \<Longrightarrow> arena_ok T P a \<Longrightarrow> arena_ok T P b"
  using locks_move shelf_move marks_move work_move unfolding arena_ok_def by metis

lemma reaches_ok: "arena_reaches T P a b \<Longrightarrow> arena_ok T P a \<Longrightarrow> arena_ok T P b"
  by (induction rule: arena_reaches.induct) (auto intro: move_ok)

section \<open>Properties\<close>


lemma record_history:
  assumes "arena_reaches T P b c" "arena_ok T P b" "ar_shelf b p = Some l" "ar_shelf c p = Some m"
  shows "same_lease l m \<and> rank (l_phase l) \<le> rank (l_phase m)"
  using assms
proof (induction arbitrary: m rule: arena_reaches.induct)
  case here
  then show ?case by simp
next
  case (onward c i d)
  have "p \<in> ar_used c"
    using onward.hyps(1) shelved(3) [OF onward.prems(1,2)]
    by (induction rule: arena_reaches.induct) (auto dest: used_grows)
  then obtain n where n: "ar_shelf c p = Some n" "same_lease n m" "rank (l_phase n) \<le> rank (l_phase m)"
    using lock_kept [OF reaches_ok [OF onward.hyps(1) onward.prems(1)] onward.hyps(2) onward.prems(3)] by blast
  with onward.IH [OF onward.prems(1,2) n(1)] show ?case using same_lease_trans le_trans by blast
qed

lemma shelf_change:
  assumes "move T P j b c" "ar_shelf b p = Some l" "ar_shelf c p \<noteq> Some l" "p \<in> ar_used b"
  shows "(\<exists>k m. ar_act b j = Working k m \<and> lease_path P m = p) \<and> (ar_shelf c p = None \<longrightarrow> l_phase l \<in> {Reserved, Revoked})"
  using assms by (induction rule: move.induct) (auto split: if_splits)


text \<open>Two processes and one active lease: the process \<open>True\<close> reads the record, takes its lock, reads it again and
  revokes it.\<close>

definition example_arena :: "bool arena" where
  "example_arena = \<lparr>ar_shelf = [lease_path example_policy example_lease \<mapsto> example_lease],
     ar_used = {lease_path example_policy example_lease}, ar_seen = (\<lambda>_. {}), ar_held = Map.empty, ar_act = (\<lambda>_. Idle)\<rparr>"

definition example_work :: "lease \<Rightarrow> bool arena" where
  "example_work l = example_arena\<lparr>
     ar_seen := (\<lambda>_. {})(True := {(lease_path example_policy example_lease, lease_lock sim example_policy example_lease)}),
     ar_held := [lease_lock sim example_policy example_lease \<mapsto> True],
     ar_act := (\<lambda>_. Idle)(True := Working (lease_lock sim example_policy example_lease) l)\<rparr>"

lemma example_arena_start: "arena_start example_policy example_arena"
  using wf_example_lease by (auto simp: arena_start_def example_arena_def split: if_splits)

lemma example_reaches: "arena_reaches sim example_policy example_arena (example_work example_lease)"
proof -
  let ?p = "lease_path example_policy example_lease" and ?k = "lease_lock sim example_policy example_lease"
  let ?a1 = "example_arena\<lparr>ar_seen := (ar_seen example_arena)(True := insert (?p, ?k) (ar_seen example_arena True))\<rparr>"
  let ?a2 = "?a1\<lparr>ar_held := (ar_held ?a1)(?k \<mapsto> True), ar_act := (ar_act ?a1)(True := Locked ?k (Some ?p))\<rparr>"
  let ?a3 = "?a2\<lparr>ar_act := (ar_act ?a2)(True := Working ?k example_lease)\<rparr>"
  have "move sim example_policy True example_arena ?a1" by (rule move.look) (simp_all add: example_arena_def)
  moreover have "move sim example_policy True ?a1 ?a2" by (rule move.acquire_seen) (simp_all add: example_arena_def)
  moreover have "move sim example_policy True ?a2 ?a3" by (rule move.loads) (simp_all add: example_arena_def)
  ultimately have "arena_reaches sim example_policy example_arena ?a3" by (meson here onward)
  moreover have "?a3 = example_work example_lease" by (simp add: example_work_def example_arena_def)
  ultimately show ?thesis by metis
qed



end
