(* ===== verification/NetworkRuns.thy ===== *)
theory NetworkRuns
  imports NetworkArena
begin

text \<open>
  The operations of the code are made of the steps of \<open>NetworkArena\<close>: whatever system call fails and
  wherever the process is killed, a request changes the journal the way one process of the arena can.  So what is
  proved there of interleaved processes is proved of interleaved requests.
\<close>

section \<open>Where a process is\<close>

definition at_act :: "'h tools \<Rightarrow> policy \<Rightarrow> 'p \<Rightarrow> 'p arena \<Rightarrow> path set \<Rightarrow> (path \<times> path) set \<Rightarrow> activity \<Rightarrow> 'h world \<Rightarrow> bool" where
  "at_act T P i a0 used marks act w \<longleftrightarrow> (\<exists>a. rtranclp (move T P i) a0 a
     \<and> ar_shelf a = leases P w \<and> ar_used a = used \<and> ar_seen a i = marks \<and> ar_act a i = act
     \<and> ar_held a = (case lock_of act of None \<Rightarrow> Map.empty | Some k \<Rightarrow> [k \<mapsto> i]))"

lemma at_step:
  assumes "at_act T P i a0 u sn act w"
    "\<And>a. ar_shelf a = leases P w \<Longrightarrow> ar_used a = u \<Longrightarrow> ar_seen a i = sn \<Longrightarrow> ar_act a i = act \<Longrightarrow>
       ar_held a = (case lock_of act of None \<Rightarrow> Map.empty | Some k \<Rightarrow> [k \<mapsto> i]) \<Longrightarrow>
       \<exists>b. move T P i a b \<and> ar_shelf b = leases P w' \<and> ar_used b = u' \<and> ar_seen b i = sn' \<and> ar_act b i = act'
         \<and> ar_held b = (case lock_of act' of None \<Rightarrow> Map.empty | Some k \<Rightarrow> [k \<mapsto> i])"
  shows "at_act T P i a0 u' sn' act' w'"
proof -
  obtain a where a: "rtranclp (move T P i) a0 a" "ar_shelf a = leases P w" "ar_used a = u" "ar_seen a i = sn"
      "ar_act a i = act" "ar_held a = (case lock_of act of None \<Rightarrow> Map.empty | Some k \<Rightarrow> [k \<mapsto> i])"
    using assms(1) unfolding at_act_def by blast
  from assms(2) [OF a(2-6)] obtain b where b: "move T P i a b" "ar_shelf b = leases P w'" "ar_used b = u'"
      "ar_seen b i = sn'" "ar_act b i = act'" "ar_held b = (case lock_of act' of None \<Rightarrow> Map.empty | Some k \<Rightarrow> [k \<mapsto> i])"
    by blast
  then show ?thesis using rtranclp.rtrancl_into_rtrancl [OF a(1) b(1)] unfolding at_act_def by blast
qed

lemma at_quiet: "quiet P has X u v \<Longrightarrow> at_act T P i a0 used sn act v = at_act T P i a0 used sn act u"
  by (simp add: at_act_def leases_quiet)

lemma at_look:
  "at_act T P i a0 u sn Idle w \<Longrightarrow> leases P w p = Some l \<Longrightarrow> at_act T P i a0 u (insert (p, lease_lock T P l) sn) Idle w"
  by (erule at_step) (auto intro!: exI move.look)

lemma at_acquire: "at_act T P i a0 u sn Idle w \<Longrightarrow> at_act T P i a0 u sn (Locked k None) w"
  by (erule at_step) (auto intro!: exI move.acquire)

lemma at_acquire_seen:
  "at_act T P i a0 u sn Idle w \<Longrightarrow> (p, k) \<in> sn \<Longrightarrow> at_act T P i a0 u sn (Locked k (Some p)) w"
  by (erule at_step) (auto intro!: exI move.acquire_seen)

lemma at_reserve:
  assumes "at_act T P i a0 u sn (Locked (lease_lock T P l) None) w" "allocatable P (leases P w) l" "lease_path P l \<notin> u"
    "leases P w' = (leases P w)(lease_path P l \<mapsto> l)"
  shows "at_act T P i a0 (insert (lease_path P l) u) sn (Working (lease_lock T P l) l) w'"
  by (rule at_step [OF assms(1)]) (use assms in \<open>auto intro!: exI move.reserves\<close>)

lemma at_load:
  "at_act T P i a0 u sn (Locked k (Some p)) w \<Longrightarrow> leases P w p = Some l \<Longrightarrow> at_act T P i a0 u sn (Working k l) w"
  by (erule at_step) (auto intro!: exI move.loads)

lemma at_assign:
  "at_act T P i a0 u sn (Working k l) w \<Longrightarrow> advances l m \<Longrightarrow> at_act T P i a0 u sn (Working k m) w"
  by (erule at_step) (auto intro!: exI move.assigns)

lemma at_save:
  assumes "at_act T P i a0 u sn (Working k l) w" "leases P w' = (leases P w)(lease_path P l \<mapsto> l)"
  shows "at_act T P i a0 u sn (Working k l) w'"
  by (rule at_step [OF assms(1)]) (use assms(2) in \<open>auto intro!: exI move.saves\<close>)

lemma at_unlink:
  assumes "at_act T P i a0 u sn (Working k l) w" "l_phase l \<in> {Reserved, Revoked}" "leases P w (lease_path P l) = Some l"
    "leases P w' = (leases P w)(lease_path P l := None)"
  shows "at_act T P i a0 u sn (Locked k None) w'"
  by (rule at_step [OF assms(1)]) (use assms(2-4) in \<open>auto intro!: exI move.unlinks\<close>)

lemma at_stop: "at_act T P i a0 u sn act w \<Longrightarrow> at_act T P i a0 u sn Idle w"
proof (cases act)
  case (Locked k x)
  assume "at_act T P i a0 u sn act w"
  then show ?thesis by (rule at_step) (auto simp: Locked intro!: exI move.stops_locked)
next
  case (Working k l)
  assume "at_act T P i a0 u sn act w"
  then show ?thesis by (rule at_step) (auto simp: Working intro!: exI move.stops_working)
qed simp

lemma at_cur [simp]: "at_act T P i a0 u sn act (w\<lparr>w_cur := l\<rparr>) = at_act T P i a0 u sn act w"
  by (simp add: at_act_def)

section \<open>Working on a lease\<close>

text \<open>The process is done for now.\<close>

definition rests :: "'h tools \<Rightarrow> policy \<Rightarrow> 'p \<Rightarrow> 'p arena \<Rightarrow> (path \<times> path) set \<Rightarrow> 'h world \<Rightarrow> bool" where
  "rests T P i a0 sn w \<longleftrightarrow> (\<exists>u. at_act T P i a0 u sn Idle w)"

definition works :: "'h tools \<Rightarrow> store \<Rightarrow> 'p \<Rightarrow> 'p arena \<Rightarrow> (path \<times> path) set \<Rightarrow> lease \<Rightarrow> 'h world \<Rightarrow> bool" where
  "works T S i a0 sn l w \<longleftrightarrow> w_cur w = l \<and> wf_lease l \<and> l_instance l = st_instance S
     \<and> (l_phase l = Reserved \<longrightarrow> leases (st_policy S) w (lease_path (st_policy S) l) = Some l)
     \<and> (\<exists>u k. at_act T (st_policy S) i a0 u sn (Working k l) w)"

definition saved :: "store \<Rightarrow> lease \<Rightarrow> 'h world \<Rightarrow> bool" where
  "saved S l w \<longleftrightarrow> leases (st_policy S) w (lease_path (st_policy S) l) = Some l"

abbreviation on_some :: "'h tools \<Rightarrow> store \<Rightarrow> 'p \<Rightarrow> 'p arena \<Rightarrow> (path \<times> path) set \<Rightarrow> 'h world \<Rightarrow> bool" where
  "on_some T S i a0 sn w \<equiv> \<exists>l. works T S i a0 sn l w"

lemma works_rests: "works T S i a0 sn l w \<Longrightarrow> rests T (st_policy S) i a0 sn w"
  unfolding works_def rests_def by (blast intro: at_stop)

lemma works_quiet:
  assumes "quiet (st_policy S) has X u v" shows "works T S i a0 sn l u \<Longrightarrow> works T S i a0 sn l v"
proof -
  have "w_cur v = w_cur u" using assms by (simp add: quiet_def)
  then show "works T S i a0 sn l u \<Longrightarrow> works T S i a0 sn l v"
    unfolding works_def at_quiet [OF assms] leases_quiet [OF assms] by simp
qed

lemma saved_quiet: "quiet (st_policy S) has X u v \<Longrightarrow> saved S l u \<Longrightarrow> saved S l v"
  using leases_quiet [of "st_policy S" has X u v] by (simp add: saved_def)

lemma rests_quiet: "quiet P has X u v \<Longrightarrow> rests T P i a0 sn u \<Longrightarrow> rests T P i a0 sn v"
  unfolding rests_def by (simp add: at_quiet)

lemma works_seq:
  assumes "moves (quiet (st_policy S) nothing X) m" "\<And>x. triple (works T S i a0 sn l) (k x) Q (on_some T S i a0 sn)"
  shows "triple (works T S i a0 sn l) (seq m k) Q (on_some T S i a0 sn)"
proof (rule triple_seq [OF _ assms(2)])
  have "triple (works T S i a0 sn l) m (\<lambda>_. works T S i a0 sn l) (works T S i a0 sn l)"
    by (rule quiet.triple_moves [OF assms(1)]) (rule works_quiet)
  then show "triple (works T S i a0 sn l) m (\<lambda>_. works T S i a0 sn l) (on_some T S i a0 sn)"
    by (rule triple_weaken) auto
qed

lemma works_assign:
  assumes "advances l m"
  shows "triple (works T S i a0 sn l) (set_cur m) (\<lambda>_. works T S i a0 sn m) E"
proof (rule triple_set_cur)
  fix w assume w: "works T S i a0 sn l w"
  have "l_instance m = l_instance l" "l_phase m \<noteq> Reserved" "wf_lease m"
    using assms same_lease_keys(4) [of l m] by (auto simp: advances_def stages_def)
  moreover obtain u k where "at_act T (st_policy S) i a0 u sn (Working k l) w" using w by (auto simp: works_def)
  then have "at_act T (st_policy S) i a0 u sn (Working k m) w" by (rule at_assign [OF _ assms])
  ultimately show "works T S i a0 sn m (w\<lparr>w_cur := m\<rparr>)" using w by (auto simp: works_def)
qed

lemmas works_tap = works_seq [where X = "{l_tap l}" and l = l for l]

lemma works_admissible: "wf_store S \<Longrightarrow> works T S i a0 sn l w \<Longrightarrow> admissible S l"
  by (simp add: works_def admissible_def wf_lease_def)

lemma works_replaced:
  assumes S: "wf_store S" and w: "works T S i a0 sn l w"
    and step: "replaced (st_policy S) has (json_path S (l_lease l)) (Some (LeaseRecord l)) w v"
  shows "works T S i a0 sn l v \<and> saved S l v"
proof -
  note path = admissible_path [OF works_admissible [OF S w]]
  have ls: "leases (st_policy S) v = (leases (st_policy S) w)(lease_path (st_policy S) l \<mapsto> l)"
    using leases_replaced [OF step] path by (auto simp: fun_eq_iff)
  obtain u k where "at_act T (st_policy S) i a0 u sn (Working k l) w" using w by (auto simp: works_def)
  then have "at_act T (st_policy S) i a0 u sn (Working k l) v" by (rule at_save [OF _ ls])
  moreover have "w_cur v = w_cur w" using step by (simp add: replaced_def)
  ultimately show ?thesis using w ls by (auto simp: works_def saved_def)
qed

lemma works_save:
  assumes S: "wf_store S"
  shows "triple (works T S i a0 sn l) (save S l) (\<lambda>_ w. works T S i a0 sn l w \<and> saved S l w) (works T S i a0 sn l)"
  unfolding triple_def
proof (intro allI impI)
  fix w assume w: "works T S i a0 sn l w"
  note adm = works_admissible [OF S w]
  obtain r v where eq: "save S l w = (r, v)" by fastforce
  have "works T S i a0 sn l v"
    using save_cases [OF adm, of nothing w] works_quiet [OF _ w] works_replaced [OF S w] unfolding eq snd_conv by blast
  moreover have "saved S l v" if "r = Inr ()"
    using save_replaces [OF adm, of w _ v nothing] works_replaced [OF S w] eq that by blast
  ultimately show "case save S l w of (Inl e, v) \<Rightarrow> works T S i a0 sn l v
      | (Inr x, v) \<Rightarrow> works T S i a0 sn l v \<and> saved S l v"
    unfolding eq by (cases r) simp_all
qed

lemma works_save_seq:
  assumes "wf_store S" "triple (works T S i a0 sn l) (k ()) Q (on_some T S i a0 sn)"
  shows "triple (works T S i a0 sn l) (seq (save S l) k) Q (on_some T S i a0 sn)"
proof (rule triple_seq)
  show "triple (works T S i a0 sn l) (save S l) (\<lambda>_. works T S i a0 sn l) (on_some T S i a0 sn)"
    by (rule triple_weaken [OF works_save [OF assms(1)]]) auto
qed (simp add: assms(2))

lemma works_assign_seq:
  assumes "advances l m" "triple (works T S i a0 sn m) (k ()) Q E"
  shows "triple (works T S i a0 sn l) (seq (set_cur m) k) Q E"
  by (rule triple_seq [OF works_assign [OF assms(1)]]) (simp add: assms(2))

section \<open>The host is prepared, a lease revoked and released\<close>


lemmas quiet_calls = quiet_host_calls [OF no_laws] quiet_install_guard [OF no_laws] quiet.moves_rules

lemma works_wf: "works T S i a0 sn l w \<Longrightarrow> wf_lease l" by (simp add: works_def)

lemma triple_wf:
  "(wf_lease l \<Longrightarrow> triple (works T S i a0 sn l) m Q E) \<Longrightarrow> triple (works T S i a0 sn l) m Q E"
  unfolding triple_def by (intro allI impI) (metis works_wf)

lemma advances_phase: "wf_lease l \<Longrightarrow> (l_phase l, ph) \<in> stages \<Longrightarrow> advances l (l\<lparr>l_phase := ph\<rparr>)"
  by (simp add: advances_def same_lease_def)

lemma create_tap_works:
  assumes "l_phase l = Allocated"
  shows "triple (works T S i a0 sn l) (create_tap T)
    (\<lambda>_ w. \<exists>mac. works T S i a0 sn (l\<lparr>l_host_mac := Some mac\<rparr>) w) (on_some T S i a0 sn)" (is "triple _ _ ?Q ?E")
proof (rule triple_wf)
  assume wf: "wf_lease l"
  have tail: "triple (works T S i a0 sn l) (seq (check (valid_mac mac) msg) (\<lambda>_.
      seq (set_cur (l\<lparr>l_host_mac := Some mac\<rparr>)) (\<lambda>_. seq (command T ''ip'' args) (\<lambda>_. ret ())))) ?Q ?E"
    if "take 2 args \<noteq> [''tuntap'', ''add'']" for mac msg args
  proof (rule triple_seq_check)
    assume mac: "valid_mac mac"
    have "advances l (l\<lparr>l_host_mac := Some mac\<rparr>)"
      using wf_lease_host_mac [OF wf mac] assms by (simp add: advances_def same_lease_def stages_def)
    then show "triple (works T S i a0 sn l) (seq (set_cur (l\<lparr>l_host_mac := Some mac\<rparr>)) (\<lambda>_.
        seq (command T ''ip'' args) (\<lambda>_. ret ()))) ?Q ?E"
      by (rule works_assign_seq, intro works_seq [OF quiet_command [OF no_laws]])
        (use that in \<open>auto intro: triple_ret\<close>)
  qed auto
  show "triple (works T S i a0 sn l) (create_tap T) ?Q ?E"
    unfolding create_tap_def
    by (rule triple_cur [where l = l], intro tail works_tap quiet_command [OF no_laws] quiet_calls)
      (simp_all add: works_def)
qed

lemma prepare_host_works:
  assumes S: "wf_store S" and l: "l_phase l = Reserved"
  shows "triple (works T S i a0 sn l) (prepare_host T S) (\<lambda>_. on_some T S i a0 sn) (on_some T S i a0 sn)"
proof (rule triple_wf)
  assume wf: "wf_lease l"
  let ?E = "on_some T S i a0 sn"
  have final: "triple (works T S i a0 sn m) act (\<lambda>_. ?E) ?E"
    if "moves (quiet (st_policy S) nothing {l_tap m}) act" for m and act :: "('a, unit) io"
    by (rule triple_weaken [OF quiet.triple_moves [OF that works_quiet]]) auto
  have active: "triple (works T S i a0 sn m) (seq (save S m) (\<lambda>_. seq (install_ingress T m) (\<lambda>_.
      seq (set_cur (m\<lparr>l_phase := Active\<rparr>)) (\<lambda>_. seq (save S (m\<lparr>l_phase := Active\<rparr>)) (\<lambda>_.
      seq (install_guard T (st_policy S) [m\<lparr>l_phase := Active\<rparr>]) (\<lambda>_.
      set_up T (m\<lparr>l_phase := Active\<rparr>))))))) (\<lambda>_. ?E) ?E" if "l_phase m = Allocated" for m
  proof (rule triple_wf)
    assume "wf_lease m"
    then have "advances m (m\<lparr>l_phase := Active\<rparr>)" using that by (intro advances_phase) (simp_all add: stages_def)
    then show ?thesis
      by (intro works_save_seq S works_assign_seq works_seq quiet_calls final)
  qed
  have allocated: "triple (works T S i a0 sn m) (seq (install_guard T (st_policy S) [m]) (\<lambda>_.
      seq (purge_connections T m) (\<lambda>_. seq (create_tap T) (\<lambda>_. seq cur k)))) (\<lambda>_. ?E) ?E"
    if m: "l_phase m = Allocated" and k: "\<And>l2. l_phase l2 = Allocated \<Longrightarrow> triple (works T S i a0 sn l2) (k l2) (\<lambda>_. ?E) ?E"
    for m and k :: "lease \<Rightarrow> ('a, unit) io"
  proof -
    have "triple (\<lambda>w. \<exists>mac. works T S i a0 sn (m\<lparr>l_host_mac := Some mac\<rparr>) w) (seq cur k) (\<lambda>_. ?E) ?E"
      unfolding triple_def
    proof (intro allI impI, elim exE)
      fix w mac assume w: "works T S i a0 sn (m\<lparr>l_host_mac := Some mac\<rparr>) w"
      then have "w_cur w = m\<lparr>l_host_mac := Some mac\<rparr>" by (simp add: works_def)
      then show "case seq cur k w of (Inl e, w') \<Rightarrow> ?E w' | (Inr x, w') \<Rightarrow> ?E w'"
        using k [of "m\<lparr>l_host_mac := Some mac\<rparr>"] w m by (simp add: triple_def)
    qed
    then have "triple (works T S i a0 sn m) (seq (create_tap T) (\<lambda>_. seq cur k)) (\<lambda>_. ?E) ?E"
      by (rule triple_seq [OF create_tap_works [OF m]])
    then show ?thesis
      by (intro works_seq [OF quiet_install_guard [OF no_laws]] works_seq [OF quiet_host_calls(6) [OF no_laws]])
  qed
  have "advances l (l\<lparr>l_phase := Allocated\<rparr>)" using wf l by (intro advances_phase) (simp_all add: stages_def)
  then show "triple (works T S i a0 sn l) (prepare_host T S) (\<lambda>_. ?E) ?E"
    unfolding prepare_host_def
    by (intro triple_cur [where l = l] works_assign_seq works_save_seq S allocated active works_seq quiet_calls)
      (simp_all add: works_def)
qed

definition revoked :: "'h tools \<Rightarrow> store \<Rightarrow> 'p \<Rightarrow> 'p arena \<Rightarrow> (path \<times> path) set \<Rightarrow> lease \<Rightarrow> 'h world \<Rightarrow> bool" where
  "revoked T S i a0 sn l w \<longleftrightarrow> works T S i a0 sn l w \<and> saved S l w \<and> l_phase l \<in> {Reserved, Revoked}"

lemma revoke_works:
  assumes S: "wf_store S"
  shows "triple (works T S i a0 sn l) (revoke T S) (\<lambda>_ w. \<exists>m. revoked T S i a0 sn m w) (on_some T S i a0 sn)"
proof (rule triple_wf)
  assume wf: "wf_lease l"
  let ?m = "l\<lparr>l_phase := Revoked\<rparr>" and ?E = "on_some T S i a0 sn"
  let ?H = "\<lambda>(r :: unit result) w. works T S i a0 sn ?m w \<and> (r = Inr () \<longrightarrow> saved S ?m w)"
  have quiet_H: "triple (?H r) (seq (attempt act) k) Q ?E"
    if "moves (quiet (st_policy S) nothing {}) act" "\<And>x. triple (?H r) (k x) Q ?E"
    for act :: "('a, unit) io" and k Q and r :: "unit result"
  proof (rule triple_seq [OF _ that(2)])
    have "triple (?H r) (attempt act) (\<lambda>_. ?H r) (?H r)"
      by (rule quiet.triple_moves [OF quiet.attempt_moves [OF that(1)]]) (auto intro: works_quiet saved_quiet)
    then show "triple (?H r) (attempt act) (\<lambda>_. ?H r) ?E" by (rule triple_weaken) auto
  qed
  have save: "triple (works T S i a0 sn ?m) (attempt (save S ?m)) ?H ?E"
    by (rule triple_attempt [OF works_save [OF S]]) auto
  have rest: "triple (?H r) (seq (lift_r r) (\<lambda>_. seq (lift_r q) (\<lambda>_. lift_r p))) (\<lambda>_ w. \<exists>m. revoked T S i a0 sn m w) ?E"
    for r q p :: "unit result"
    by (cases r; cases q; cases p) (auto simp: triple_def revoked_def intro!: exI [of _ ?m])
  have body: "triple (works T S i a0 sn l) (seq (set_cur ?m) (\<lambda>_. seq (attempt (save S ?m)) (\<lambda>saved.
      seq (attempt (set_down T ?m)) (\<lambda>down. seq (attempt (install_guard T (st_policy S) [?m])) (\<lambda>guard.
      seq (lift_r saved) (\<lambda>_. seq (lift_r down) (\<lambda>_. lift_r guard)))))))
      (\<lambda>_ w. \<exists>m. revoked T S i a0 sn m w) ?E" if "l_phase l \<noteq> Reserved"
  proof (rule works_assign_seq)
    show "advances l ?m" using wf that by (intro advances_phase) (cases "l_phase l"; simp add: stages_def)+
  qed (intro triple_seq [OF save] quiet_H quiet_calls rest)
  have none: "triple (works T S i a0 sn l) (ret ()) (\<lambda>_ w. \<exists>m. revoked T S i a0 sn m w) ?E" if "l_phase l = Reserved"
    using that by (auto simp: triple_def revoked_def works_def saved_def intro!: exI [of _ l])
  have "triple (works T S i a0 sn l) (if l_phase l = Reserved then ret () else (seq (set_cur ?m) (\<lambda>_. seq (attempt (save S ?m)) (\<lambda>saved.
      seq (attempt (set_down T ?m)) (\<lambda>down. seq (attempt (install_guard T (st_policy S) [?m])) (\<lambda>guard.
      seq (lift_r saved) (\<lambda>_. seq (lift_r down) (\<lambda>_. lift_r guard))))))))
      (\<lambda>_ w. \<exists>m. revoked T S i a0 sn m w) ?E"
    by (intro triple_if none body)
  then show "triple (works T S i a0 sn l) (revoke T S) (\<lambda>_ w. \<exists>m. revoked T S i a0 sn m w) ?E"
    unfolding revoke_def by (rule triple_cur) (simp add: works_def)
qed

end
