(* ===== verification/NetworkRequests.thy ===== *)
theory NetworkRequests
  imports NetworkRuns NetworkService
begin

text \<open>
  From the system calls of a request to the steps of a process: release, operation, cleanup, reservation and
  provisioning consist of the steps of \<open>NetworkArena\<close>, and so does every request of a client.
\<close>

section \<open>A lease is released\<close>

abbreviation (input) at_rest :: "'h tools \<Rightarrow> store \<Rightarrow> 'p \<Rightarrow> 'p arena \<Rightarrow> 'h world \<Rightarrow> bool" where
  "at_rest T S i a0 w \<equiv> \<exists>sn. rests T (st_policy S) i a0 sn w"

lemma works_at_rest: "works T S i a0 sn l w \<Longrightarrow> at_rest T S i a0 w"
  by (rule exI, rule works_rests)

lemma unlink_rests:
  assumes S: "wf_store S"
  shows "triple (revoked T S i a0 sn l) (unlink_lease S (l_lease l)) (\<lambda>_. at_rest T S i a0) (at_rest T S i a0)"
  unfolding triple_def
proof (intro allI impI)
  fix w assume r: "revoked T S i a0 sn l w"
  then have w: "works T S i a0 sn l w" and shelf: "saved S l w" and ph: "l_phase l \<in> {Reserved, Revoked}"
    by (simp_all add: revoked_def)
  have adm: "admissible S l" by (rule works_admissible [OF S w])
  have "at_rest T S i a0 v"
    if "replaced (st_policy S) nothing (json_path S (l_lease l)) None w v" for v
  proof -
    have ls: "leases (st_policy S) v = (leases (st_policy S) w)(lease_path (st_policy S) l := None)"
      using leases_removed [OF that] admissible_path [OF adm] by simp
    obtain u k where "at_act T (st_policy S) i a0 u sn (Working k l) w" using w by (auto simp: works_def)
    from at_stop [OF at_unlink [OF this ph _ ls]] shelf show ?thesis by (auto simp: saved_def rests_def)
  qed
  then have "at_rest T S i a0 (snd (unlink_lease S (l_lease l) w))"
    using unlink_cases [OF adm, of nothing w] works_at_rest [OF works_quiet [OF _ w]] by blast
  then show "case unlink_lease S (l_lease l) w of (Inl e, v) \<Rightarrow> at_rest T S i a0 v | (Inr x, v) \<Rightarrow> at_rest T S i a0 v"
    by (auto split: prod.splits sum.splits)
qed

lemma quarantine_rests:
  assumes S: "wf_store S" and p: "l_phase l = Revoked"
  shows "triple (works T S i a0 sn l)
    (seq (set_cur (l\<lparr>l_phase := Quarantined\<rparr>)) (\<lambda>_. seq (save S (l\<lparr>l_phase := Quarantined\<rparr>)) (\<lambda>_. lift_r (Inl e) :: ('h, unit) io)))
    (\<lambda>_. at_rest T S i a0) (at_rest T S i a0)"
proof (rule triple_wf, rule works_assign_seq)
  let ?m = "l\<lparr>l_phase := Quarantined\<rparr>"
  show "advances l ?m" if "wf_lease l" using that p by (intro advances_phase) (simp_all add: stages_def)
  have "triple (works T S i a0 sn ?m) (seq (save S ?m) (\<lambda>_. lift_r (Inl e) :: ('h, unit) io)) (\<lambda>_. at_rest T S i a0)
      (on_some T S i a0 sn)"
    by (rule works_save_seq [OF S], rule triple_lift) auto
  then show "triple (works T S i a0 sn ?m) (seq (save S ?m) (\<lambda>_. lift_r (Inl e) :: ('h, unit) io)) (\<lambda>_. at_rest T S i a0)
      (at_rest T S i a0)"
    by (rule triple_weaken) (auto intro: works_rests)
qed

lemma removed_rests:
  "triple (revoked T S i a0 sn l) (if l_phase l = Reserved then ret (Inr ()) else attempt (remove_resources T l))
     (\<lambda>r w. revoked T S i a0 sn l w \<and> (\<forall>e. r = Inl e \<longrightarrow> l_phase l = Revoked)) (at_rest T S i a0)"
proof (rule triple_if)
  assume p: "l_phase l \<noteq> Reserved"
  have "triple (revoked T S i a0 sn l) (attempt (remove_resources T l)) (\<lambda>_. revoked T S i a0 sn l) (revoked T S i a0 sn l)"
    by (rule quiet.triple_moves [OF quiet.attempt_moves [OF quiet_remove_resources [OF no_laws]]])
      (auto simp: revoked_def intro: works_quiet saved_quiet)
  then show "triple (revoked T S i a0 sn l) (attempt (remove_resources T l))
      (\<lambda>r w. revoked T S i a0 sn l w \<and> (\<forall>e. r = Inl e \<longrightarrow> l_phase l = Revoked)) (at_rest T S i a0)"
    by (rule triple_weaken) (use p in \<open>auto simp: revoked_def dest: works_at_rest\<close>)
qed (rule triple_ret, simp)

lemma release_rests:
  assumes S: "wf_store S"
  shows "triple (revoked T S i a0 sn l) (release T S) (\<lambda>_. at_rest T S i a0) (at_rest T S i a0)"
proof -
  let ?R = "at_rest T S i a0 :: 'a world \<Rightarrow> bool" and ?m = "l\<lparr>l_phase := Quarantined\<rparr>"
  have settled: "triple (\<lambda>w. revoked T S i a0 sn l w \<and> (\<forall>e. r = Inl e \<longrightarrow> l_phase l = Revoked)) (case r of
       Inl e \<Rightarrow> seq (set_cur ?m) (\<lambda>_. seq (save S ?m) (\<lambda>_. lift_r (Inl e)))
     | Inr _ \<Rightarrow> unlink_lease S (l_lease l)) (\<lambda>_. ?R) ?R" for r :: "unit result"
  proof (cases r)
    case (Inl e)
    show ?thesis
    proof (cases "l_phase l = Revoked")
      case True
      show ?thesis unfolding Inl sum.case by (rule triple_pre [OF quarantine_rests [OF S True, where sn = sn]]) (simp add: revoked_def)
    qed (simp add: Inl triple_def)
  next
    case (Inr u)
    show ?thesis unfolding Inr sum.case by (rule triple_pre [OF unlink_rests [OF S]]) simp
  qed
  have "triple (revoked T S i a0 sn l) (seq (check (l_phase l = Reserved \<or> l_phase l = Revoked) msg) (\<lambda>_.
     seq (if l_phase l = Reserved then ret (Inr ()) else attempt (remove_resources T l)) (\<lambda>removed.
     case removed of
       Inl e \<Rightarrow> seq (set_cur ?m) (\<lambda>_. seq (save S ?m) (\<lambda>_. lift_r (Inl e)))
     | Inr _ \<Rightarrow> unlink_lease S (l_lease l)))) (\<lambda>_. ?R) ?R" for msg
    by (rule triple_seq_check, rule triple_seq [OF removed_rests settled]) (auto simp: revoked_def dest: works_at_rest)
  then show ?thesis
    unfolding release_def by (rule triple_cur) (simp add: revoked_def works_def)
qed

lemma revoke_rests:
  assumes "wf_store S"
  shows "triple (works T S i a0 sn l) (revoke T S) (\<lambda>_. at_rest T S i a0) (at_rest T S i a0)"
  by (rule triple_weaken [OF revoke_works [OF assms]]) (auto simp: revoked_def dest: works_at_rest)

lemma revoke_and_release_rests:
  assumes S: "wf_store S"
  shows "triple (works T S i a0 sn l) (revoke_and_release T S) (\<lambda>_. at_rest T S i a0) (at_rest T S i a0)"
  unfolding revoke_and_release_def
proof (rule triple_seq)
  show "triple (works T S i a0 sn l) (revoke T S) (\<lambda>_ w. \<exists>m. revoked T S i a0 sn m w) (at_rest T S i a0)"
    by (rule triple_weaken [OF revoke_works [OF S]]) (auto dest: works_at_rest)
  show "triple (\<lambda>w. \<exists>m. revoked T S i a0 sn m w) (release T S) (\<lambda>_. at_rest T S i a0) (at_rest T S i a0)"
    by (rule triple_ex [OF release_rests [OF S]])
qed

section \<open>Locks and records\<close>

lemma at_rests: "at_act T P i a0 u sn act w \<Longrightarrow> rests T P i a0 sn w"
  by (auto simp: rests_def intro: at_stop)

lemma at_moves:
  assumes "moves (quiet P nothing X) m"
  shows "triple (at_act T P i a0 u sn act) m (\<lambda>_. at_act T P i a0 u sn act) (at_act T P i a0 u sn act)"
  by (rule quiet.triple_moves [OF assms]) (simp add: at_quiet)

lemma at_seq:
  assumes "moves (quiet (st_policy S) nothing X) m"
    "\<And>x. triple (at_act T (st_policy S) i a0 u sn act) (k x) Q (at_rest T S i a0)"
  shows "triple (at_act T (st_policy S) i a0 u sn act) (seq m k) Q (at_rest T S i a0)"
  by (rule triple_seq [OF triple_weaken [OF at_moves [OF assms(1)]] assms(2)]) (auto intro: at_rests)

lemma at_done: "triple (at_act T (st_policy S) i a0 u sn act) (ret x) (\<lambda>_. at_rest T S i a0) E"
  by (rule triple_ret) (auto intro: at_rests)

text \<open>The lock that \<open>execution_lock\<close> takes is the lock of the arena's step.\<close>

lemma at_lock:
  assumes "\<And>p. x = Some p \<Longrightarrow> (p, lock_path T (st_policy S) (st_instance S) e) \<in> sn"
  shows "triple (at_act T (st_policy S) i a0 u sn Idle) (execution_lock T S e nb)
    (\<lambda>got. at_act T (st_policy S) i a0 u sn (if got then Locked (lock_path T (st_policy S) (st_instance S) e) x else Idle))
    (at_rest T S i a0)"
proof (rule triple_weaken [OF at_moves [where act = Idle, OF quiet_execution_lock]])
  fix got w assume "at_act T (st_policy S) i a0 u sn Idle w"
  then show "at_act T (st_policy S) i a0 u sn
      (if got then Locked (lock_path T (st_policy S) (st_instance S) e) x else Idle) w"
    using assms by (cases x) (auto intro: at_acquire at_acquire_seen)
qed (auto intro: at_rests)

lemma load_moves_to:
  assumes S: "wf_store S"
    and none: "\<And>w. at_act T (st_policy S) i a0 u sn act w \<Longrightarrow> Q None w"
    and some: "\<And>l w. at_act T (st_policy S) i a0 u sn act w \<Longrightarrow> loaded S l w \<Longrightarrow> l_lease l = token \<Longrightarrow> Q (Some l) w"
  shows "triple (at_act T (st_policy S) i a0 u sn act) (load S token) Q (at_rest T S i a0)"
  unfolding triple_def
proof (intro allI impI)
  fix w assume w: "at_act T (st_policy S) i a0 u sn act w"
  obtain r v where eq: "load S token w = (r, v)" by fastforce
  have v: "at_act T (st_policy S) i a0 u sn act v"
    using w by (simp add: at_quiet [OF quiet_result [OF quiet_load [of "st_policy S" nothing "{}" S token] eq]])
  have "Q x v" if "r = Inr x" for x
    using none [OF v] some [OF v] load_loaded [OF _ S, of token w _ v] eq that by (cases x) auto
  then show "case load S token w of (Inl e, v) \<Rightarrow> at_rest T S i a0 v | (Inr x, v) \<Rightarrow> Q x v"
    using at_rests [OF v] eq by (cases r) auto
qed

text \<open>The record is read under its lock.\<close>

definition picked :: "'h tools \<Rightarrow> store \<Rightarrow> 'p \<Rightarrow> 'p arena \<Rightarrow> (path \<times> path) set \<Rightarrow> lease \<Rightarrow> 'h world \<Rightarrow> bool" where
  "picked T S i a0 sn l w \<longleftrightarrow> loaded S l w \<and> (\<exists>u k. at_act T (st_policy S) i a0 u sn (Working k l) w)"

lemma picked_rests: "picked T S i a0 sn l w \<Longrightarrow> rests T (st_policy S) i a0 sn w"
  by (auto simp: picked_def intro: at_rests)

lemma loaded_json: "wf_store S \<Longrightarrow> loaded S l w \<Longrightarrow> leases (st_policy S) w (json_path S (l_lease l)) = Some l"
  by (auto simp: loaded_def lease_path_json)

lemma loaded_lock:
  "loaded S l w \<Longrightarrow> lease_lock T (st_policy S) l = lock_path T (st_policy S) (st_instance S) (l_execution_id l)"
  by (simp add: loaded_def lease_lock_def)

lemma load_picks:
  assumes S: "wf_store S"
  shows "triple (at_act T (st_policy S) i a0 u sn (Locked k (Some (json_path S token)))) (load S token)
    (\<lambda>r w. case r of None \<Rightarrow> at_rest T S i a0 w | Some l \<Rightarrow> picked T S i a0 sn l w \<and> l_lease l = token) (at_rest T S i a0)"
proof (rule load_moves_to [OF S])
  fix l w assume w: "at_act T (st_policy S) i a0 u sn (Locked k (Some (json_path S token))) w" "loaded S l w"
    "l_lease l = token"
  then have "at_act T (st_policy S) i a0 u sn (Working k l) w" using loaded_json [OF S w(2)] by (auto intro: at_load)
  then show "case Some l of None \<Rightarrow> at_rest T S i a0 w | Some l \<Rightarrow> picked T S i a0 sn l w \<and> l_lease l = token"
    using w by (auto simp: picked_def)
qed (auto intro: at_rests)

lemma picked_set:
  assumes "triple (works T S i a0 sn l) (k ()) Q E"
  shows "triple (picked T S i a0 sn l) (seq (set_cur l) k) Q E"
proof (rule triple_seq [OF triple_set_cur])
  show "works T S i a0 sn l (w\<lparr>w_cur := l\<rparr>)" if "picked T S i a0 sn l w" for w
    using that by (auto simp: picked_def loaded_def works_def leases_def journal_def)
qed (simp add: assms)

lemma picked_seq:
  assumes "moves (quiet (st_policy S) nothing X) m" "\<And>x. triple (picked T S i a0 sn l) (k x) Q (at_rest T S i a0)"
  shows "triple (picked T S i a0 sn l) (seq m k) Q (at_rest T S i a0)"
proof (rule triple_seq [OF _ assms(2)])
  have "triple (picked T S i a0 sn l) m (\<lambda>_. picked T S i a0 sn l) (picked T S i a0 sn l)"
    by (rule quiet.triple_moves [OF assms(1)]) (auto simp: picked_def at_quiet intro: loaded_quiet)
  then show "triple (picked T S i a0 sn l) m (\<lambda>_. picked T S i a0 sn l) (at_rest T S i a0)"
    by (rule triple_weaken) (auto intro: picked_rests)
qed

lemma picked_done: "triple (picked T S i a0 sn l) (ret x) (\<lambda>_. at_rest T S i a0) E"
  by (rule triple_ret) (auto intro: picked_rests)

section \<open>The operations of a client and the cleanup\<close>

lemma take_down_rests:
  assumes S: "wf_store S"
  shows "triple (picked T S i a0 sn l) (take_down T S rel l) (\<lambda>_. at_rest T S i a0) (at_rest T S i a0)"
  unfolding take_down_def
  by (rule picked_set, intro triple_if triple_seq_check revoke_rests [OF S] revoke_and_release_rests [OF S])
    (auto dest: works_at_rest)

lemma operate_again_rests:
  assumes S: "wf_store S"
  shows "triple (at_act T (st_policy S) i a0 u sn (Locked k (Some (json_path S token)))) (operate_again T S own token rel)
    (\<lambda>_. at_rest T S i a0) (at_rest T S i a0)"
proof -
  have found: "triple (\<lambda>w. case r of None \<Rightarrow> at_rest T S i a0 w | Some l \<Rightarrow> picked T S i a0 sn l w \<and> l_lease l = token)
      (case r of None \<Rightarrow> ret () | Some l \<Rightarrow> seq (lift_r (require_owner l own)) (\<lambda>_. take_down T S rel l))
      (\<lambda>_. at_rest T S i a0) (at_rest T S i a0)" for r
    by (cases r) (auto intro: triple_ret triple_pre [OF picked_seq [OF quiet.lift_moves take_down_rests [OF S]]])
  show ?thesis
    unfolding operate_again_def by (rule at_seq [OF quiet_global_lock triple_seq [OF load_picks [OF S] found]])
qed

lemma operate_rests:
  fixes T :: "'h tools"
  assumes S: "wf_store S"
  shows "triple (at_act T (st_policy S) i a0 u sn Idle) (operate T S own token rel) (\<lambda>_. at_rest T S i a0) (at_rest T S i a0)"
proof -
  let ?R = "at_rest T S i a0 :: 'h world \<Rightarrow> bool" and ?p = "json_path S token"
  let ?noted = "\<lambda>l. insert (?p, lock_path T (st_policy S) (st_instance S) (l_execution_id l)) sn"
  let ?again = "operate_again T S own token rel :: ('h, unit) io"
  have locked: "triple (at_act T (st_policy S) i a0 u sn' Idle) (seq (execution_lock T S e False) (\<lambda>got.
      seq (check got msg) (\<lambda>_. ?again))) (\<lambda>_. ?R) ?R"
    if "(?p, lock_path T (st_policy S) (st_instance S) e) \<in> sn'" for sn' e msg
  proof (rule triple_seq [OF at_lock [where x = "Some ?p"]])
    fix got
    show "triple (at_act T (st_policy S) i a0 u sn'
        (if got then Locked (lock_path T (st_policy S) (st_instance S) e) (Some ?p) else Idle))
        (seq (check got msg) (\<lambda>_. ?again)) (\<lambda>_. ?R) ?R"
      by (rule triple_seq_check) (auto intro: operate_again_rests [OF S] at_rests)
  qed (use that in auto)
  have first: "triple (at_act T (st_policy S) i a0 u sn Idle) (load S token)
      (\<lambda>r w. case r of None \<Rightarrow> ?R w | Some l \<Rightarrow> l_lease l = token \<and> at_act T (st_policy S) i a0 u (?noted l) Idle w) ?R"
    by (rule load_moves_to [OF S]) (auto intro: at_rests at_look dest: loaded_json [OF S] simp: loaded_lock [symmetric])
  have found: "triple (\<lambda>w. case r of None \<Rightarrow> ?R w | Some l \<Rightarrow> l_lease l = token \<and> at_act T (st_policy S) i a0 u (?noted l) Idle w)
     (case r of None \<Rightarrow> ret () | Some l \<Rightarrow> seq (lift_r (require_owner l own)) (\<lambda>_.
         seq (execution_lock T S (l_execution_id l) False) (\<lambda>got. seq (check got msg) (\<lambda>_. ?again)))) (\<lambda>_. ?R) ?R" for r msg
  proof (cases r)
    case (Some l)
    have "(?p, lock_path T (st_policy S) (st_instance S) (l_execution_id l)) \<in> ?noted l" by simp
    from at_seq [OF quiet.lift_moves locked [OF this]] show ?thesis
      unfolding Some option.case by (rule triple_pre) simp
  qed (simp add: triple_def)
  show ?thesis unfolding operate_def by (rule at_seq [OF quiet_global_lock triple_seq [OF first found]])
qed

lemma cleanup_found_rests:
  assumes S: "wf_store S"
  shows "triple (picked T S i a0 sn l) (cleanup_found T S root_hook l) (\<lambda>_. at_rest T S i a0) (at_rest T S i a0)"
  unfolding cleanup_found_def
  by (rule picked_seq [OF quiet.attempt_moves [OF quiet_process_starttime]],
      intro triple_if picked_done picked_set triple_seq_attempt [OF revoke_and_release_rests [OF S]] triple_ret)

lemma cleanup_one_rests:
  fixes T :: "'h tools"
  assumes S: "wf_store S"
    and old: "(json_path S (l_lease old), lock_path T (st_policy S) (st_instance S) (l_execution_id old)) \<in> sn"
  shows "triple (at_act T (st_policy S) i a0 u sn Idle) (cleanup_one T S root_hook old) (\<lambda>_. at_rest T S i a0) (at_rest T S i a0)"
proof -
  let ?R = "at_rest T S i a0 :: 'h world \<Rightarrow> bool" and ?p = "json_path S (l_lease old)"
  let ?k = "lock_path T (st_policy S) (st_instance S) (l_execution_id old)"
  let ?found = "\<lambda>r. case r of None \<Rightarrow> ret [] | Some l \<Rightarrow> (cleanup_found T S root_hook l :: ('h, string list) io)"
  have found: "triple (\<lambda>w. case r of None \<Rightarrow> ?R w | Some l \<Rightarrow> picked T S i a0 sn l w \<and> l_lease l = l_lease old)
      (?found r) (\<lambda>_. ?R) ?R" for r
    by (cases r) (auto intro: triple_ret triple_pre [OF cleanup_found_rests [OF S]])
  have locked: "triple (at_act T (st_policy S) i a0 u sn (if got then Locked ?k (Some ?p) else Idle))
      (if \<not> got then ret (if root_hook then [l_lease old @ '': operation is active''] else [])
       else seq global_lock (\<lambda>_. seq (load S (l_lease old)) ?found)) (\<lambda>_. ?R) ?R" for got
    by (cases got) (simp_all only: if_True if_False not_True_eq_False not_False_eq_True at_done
        at_seq [OF quiet_global_lock triple_seq [OF load_picks [OF S] found]])
  show ?thesis
    unfolding cleanup_one_def
    by (rule triple_seq [OF at_lock [where x = "Some ?p"] locked]) (use old in auto)
qed

text \<open>A process remembers what it has seen, so the cleanup may start from the arena it reaches by looking at all records.\<close>

lemma seen_grows: "rtranclp (move T P i) a b \<Longrightarrow> ar_seen a i \<subseteq> ar_seen b i"
  by (induction rule: rtranclp_induct) (auto elim!: move.cases)

lemma at_seen: "at_act T P i a0 u sn act w \<Longrightarrow> ar_seen a0 i \<subseteq> sn"
  using seen_grows by (fastforce simp: at_act_def)

lemma at_restart:
  assumes "at_act T P i a0 u sn Idle w"
  shows "\<exists>a1. at_act T P i a1 u sn Idle w \<and> ar_seen a1 i = sn \<and> (\<forall>sn' v. rests T P i a1 sn' v \<longrightarrow> rests T P i a0 sn' v)"
proof -
  obtain a1 where a1: "rtranclp (move T P i) a0 a1" "ar_shelf a1 = leases P w" "ar_used a1 = u" "ar_seen a1 i = sn"
      "ar_act a1 i = Idle" "ar_held a1 = Map.empty"
    using assms by (auto simp: at_act_def)
  have "at_act T P i a1 u sn Idle w" using a1 by (auto simp: at_act_def)
  moreover have "rests T P i a0 sn' v" if "rests T P i a1 sn' v" for sn' v
    using that rtranclp_trans [OF a1(1)] unfolding rests_def at_act_def by blast
  ultimately show ?thesis using a1(4) by blast
qed

lemma at_look_all:
  assumes "at_act T P i a0 u sn Idle w" "\<forall>l \<in> set ls. leases P w (lease_path P l) = Some l"
  shows "at_act T P i a0 u (sn \<union> (\<lambda>l. (lease_path P l, lease_lock T P l)) ` set ls) Idle w"
  using assms
proof (induction ls arbitrary: sn)
  case (Cons l ls)
  have "at_act T P i a0 u (insert (lease_path P l, lease_lock T P l) sn) Idle w"
    using Cons.prems by (intro at_look) auto
  from Cons.IH [OF this] Cons.prems(2) show ?case by simp
qed simp

lemma cleanup_each_rests:
  assumes S: "wf_store S"
    and ls: "\<forall>l \<in> set ls. (json_path S (l_lease l), lock_path T (st_policy S) (st_instance S) (l_execution_id l)) \<in> ar_seen a0 i"
  shows "triple (at_rest T S i a0) (cleanup_each T S root_hook ls) (\<lambda>_. at_rest T S i a0) (at_rest T S i a0)"
  using ls
proof (induction ls)
  case Nil
  show ?case unfolding cleanup_each.simps by (rule triple_ret)
next
  case (Cons l ls)
  have from_idle: "triple (at_act T (st_policy S) i a0 u sn Idle) (cleanup_one T S root_hook l)
      (\<lambda>_. at_rest T S i a0) (at_rest T S i a0)" for u sn
  proof (cases "ar_seen a0 i \<subseteq> sn")
    case True
    then show ?thesis using Cons.prems by (intro cleanup_one_rests [OF S]) auto
  next
    case False
    then have "\<not> at_act T (st_policy S) i a0 u sn Idle w" for w :: "'a world" using at_seen by metis
    then show ?thesis by (simp add: triple_def)
  qed
  have one: "triple (at_rest T S i a0) (cleanup_one T S root_hook l) (\<lambda>_. at_rest T S i a0) (at_rest T S i a0)"
    by (rule triple_pre [where P' = "\<lambda>w. \<exists>sn u. at_act T (st_policy S) i a0 u sn Idle w"],
        intro triple_ex from_idle) (simp add: rests_def)
  show ?case
    unfolding cleanup_each.simps
    by (rule triple_seq [OF one], rule triple_seq [OF Cons.IH]) (use Cons.prems in \<open>auto intro: triple_ret\<close>)
qed

lemma records_in_leases:
  assumes S: "wf_store S" and ok: "journal_ok (st_policy S) w"
    and ls: "records_in (st_directory S) w = (Inr ls, v)" and l: "l \<in> set ls"
  shows "leases (st_policy S) w (lease_path (st_policy S) l) = Some l \<and> l_instance l = st_instance S"
proof -
  obtain name where "journal w (st_directory S @ [name]) = Some (LeaseRecord l)"
    using records_in_sound [OF ls l] by blast
  then have shelf: "leases (st_policy S) w (st_directory S @ [name]) = Some l"
    using S by (auto simp: leases_journal in_state_def wf_store_def)
  then have "st_directory S @ [name] = lease_path (st_policy S) l" using leases_ok [OF ok] by blast
  then show ?thesis using shelf S by (auto simp: lease_path_def wf_store_def)
qed

text \<open>The process has changed nothing yet.\<close>

definition opens :: "'h tools \<Rightarrow> policy \<Rightarrow> 'p \<Rightarrow> 'p arena \<Rightarrow> activity \<Rightarrow> 'h world \<Rightarrow> bool" where
  "opens T P i a0 act w \<longleftrightarrow> journal_ok P w \<and> (\<exists>sn. at_act T P i a0 (dom (leases P w)) sn act w)"

lemma opens_quiet: "quiet P nothing X v w \<Longrightarrow> opens T P i a0 act v \<Longrightarrow> opens T P i a0 act w"
  using journal_ok_quiet [of P nothing X v w] leases_quiet [of P nothing X v w] by (auto simp: opens_def at_quiet)

lemma opens_rests: "opens T (st_policy S) i a0 act w \<Longrightarrow> at_rest T S i a0 w"
  by (auto simp: opens_def intro: at_rests)

lemma opens_seq:
  assumes "moves (quiet (st_policy S) nothing X) m"
    "\<And>x. triple (opens T (st_policy S) i a0 act) (k x) Q (at_rest T S i a0)"
  shows "triple (opens T (st_policy S) i a0 act) (seq m k) Q (at_rest T S i a0)"
  by (rule triple_seq [OF triple_weaken [OF quiet.triple_moves [OF assms(1) opens_quiet]] assms(2)])
    (auto intro: opens_rests)

lemma store_cleanup_rests:
  fixes T :: "'h tools"
  assumes S: "wf_store S"
  shows "triple (opens T (st_policy S) i a0 Idle) (store_cleanup T S root_hook) (\<lambda>_. at_rest T S i a0) (at_rest T S i a0)"
proof -
  let ?each = "\<lambda>ls. seq (cleanup_each T S root_hook ls) (\<lambda>failures.
     check (failures = []) (''network cleanup incomplete: '' @ join_with ''; '' failures)) :: ('h, unit) io"
  have scan: "triple (opens T (st_policy S) i a0 Idle) (seq (records_in (st_directory S)) ?each)
      (\<lambda>_. at_rest T S i a0) (at_rest T S i a0)"
    unfolding triple_def
  proof (intro allI impI)
    fix w :: "'h world" assume w: "opens T (st_policy S) i a0 Idle w"
    obtain r v where eq: "records_in (st_directory S) w = (r, v)" by fastforce
    note q = quiet_result [OF quiet_records_in [of "st_policy S" nothing "{}"] eq]
    have v: "opens T (st_policy S) i a0 Idle v" by (rule opens_quiet [OF q w])
    show "case seq (records_in (st_directory S)) ?each w of (Inl e, v) \<Rightarrow> at_rest T S i a0 v | (Inr x, v) \<Rightarrow> at_rest T S i a0 v"
    proof (cases r)
      case (Inl e)
      then show ?thesis using eq opens_rests [OF v] by (simp add: seq_Inl)
    next
      case (Inr ls)
      let ?marks = "(\<lambda>l. (lease_path (st_policy S) l, lease_lock T (st_policy S) l)) ` set ls"
      have rec: "leases (st_policy S) v (lease_path (st_policy S) l) = Some l \<and> l_instance l = st_instance S" if "l \<in> set ls" for l
        using records_in_leases [OF S _ _ that, of w v] eq Inr w leases_quiet [OF q] by (simp add: opens_def)
      obtain u sn where "at_act T (st_policy S) i a0 u sn Idle v" using v by (auto simp: opens_def)
      then have "at_act T (st_policy S) i a0 u (sn \<union> ?marks) Idle v" using rec by (intro at_look_all) auto
      from at_restart [OF this] obtain a1 where a1: "at_act T (st_policy S) i a1 u (sn \<union> ?marks) Idle v" "ar_seen a1 i = sn \<union> ?marks"
        and again: "\<forall>sn' v. rests T (st_policy S) i a1 sn' v \<longrightarrow> rests T (st_policy S) i a0 sn' v"
        by (elim exE conjE)
      have mark: "(json_path S (l_lease l), lock_path T (st_policy S) (st_instance S) (l_execution_id l)) \<in> ?marks"
        if "l \<in> set ls" for l
        using rec [OF that] that lease_path_json [OF S, of l] by (intro image_eqI [of _ _ l]) (simp_all add: lease_lock_def)
      have "triple (at_rest T S i a1) (?each ls) (\<lambda>_. at_rest T S i a1) (at_rest T S i a1)"
        by (rule triple_seq [OF cleanup_each_rests [OF S]]) (simp_all add: a1(2) mark triple_check)
      then have "triple (at_rest T S i a1) (?each ls) (\<lambda>_. at_rest T S i a0) (at_rest T S i a0)"
        by (rule triple_weaken) (simp_all, (elim exE, intro exI, erule again [rule_format])+)
      moreover have "at_rest T S i a1 v" using at_rests [OF a1(1)] by blast
      ultimately show ?thesis using eq Inr by (simp add: seq_Inr triple_def)
    qed
  qed
  show ?thesis unfolding store_cleanup_def by (rule opens_seq [OF quiet_global_lock scan])
qed

section \<open>A reservation\<close>

definition novel :: "store \<Rightarrow> string \<Rightarrow> 'h world \<Rightarrow> lease \<Rightarrow> bool" where
  "novel S e w0 l \<longleftrightarrow> wf_lease l \<and> l_phase l = Reserved \<and> l_instance l = st_instance S \<and> l_execution_id l = e
     \<and> (\<forall>p m. leases (st_policy S) w0 p = Some m \<longrightarrow> l_slot m \<noteq> l_slot l \<and> l_lease m \<noteq> l_lease l)"

definition added :: "store \<Rightarrow> string \<Rightarrow> 'h world \<Rightarrow> lease \<Rightarrow> 'h world \<Rightarrow> bool" where
  "added S e w0 l w \<longleftrightarrow> novel S e w0 l
     \<and> replaced (st_policy S) nothing (json_path S (l_lease l)) (Some (LeaseRecord l)) w0 w"

abbreviation (input) reserving :: "store \<Rightarrow> string \<Rightarrow> 'h world \<Rightarrow> 'h world \<Rightarrow> bool" where
  "reserving S e w0 w \<equiv> quiet (st_policy S) nothing {} w0 w \<or> (\<exists>l. added S e w0 l w)"

lemma still_quiet:
  assumes "moves (quiet (st_policy S) nothing {}) m"
    "\<And>x. triple (quiet (st_policy S) nothing {} w0) (k x) Q (reserving S e w0)"
  shows "triple (quiet (st_policy S) nothing {} w0) (seq m k) Q (reserving S e w0)"
proof (rule triple_seq [OF _ assms(2)])
  have "triple (quiet (st_policy S) nothing {} w0) m (\<lambda>_. quiet (st_policy S) nothing {} w0) (quiet (st_policy S) nothing {} w0)"
    by (rule quiet.triple_moves [OF assms(1)]) (rule quiet.step_trans)
  then show "triple (quiet (st_policy S) nothing {} w0) m (\<lambda>_. quiet (st_policy S) nothing {} w0) (reserving S e w0)"
    by (rule triple_weaken) auto
qed

lemma save_adds:
  assumes S: "wf_store S" and l: "novel S e w0 l"
  shows "triple (quiet (st_policy S) nothing {} w0) (seq (save S l) (\<lambda>_. ret l)) (added S e w0) (reserving S e w0)"
  unfolding triple_def
proof (intro allI impI)
  fix w assume q: "quiet (st_policy S) nothing {} w0 w"
  have adm: "admissible S l" using S l by (auto simp: admissible_def novel_def wf_lease_def)
  have rep: "added S e w0 l v" if "replaced (st_policy S) nothing (json_path S (l_lease l)) (Some (LeaseRecord l)) w v" for v
    using quiet_replaced [OF q that] l by (simp add: added_def)
  obtain r v where eq: "save S l w = (r, v)" by fastforce
  have "reserving S e w0 v"
    using save_cases [OF adm, of nothing w] rep quiet.step_trans [OF q] unfolding eq snd_conv by blast
  moreover have "added S e w0 l v" if "r = Inr ()"
    using save_replaces [OF adm, of w _ v nothing] rep eq that by blast
  ultimately show "case seq (save S l) (\<lambda>_. ret l) w of (Inl e', v) \<Rightarrow> reserving S e w0 v | (Inr x, v) \<Rightarrow> added S e w0 x v"
    using eq by (cases r) (simp_all add: seq_def)
qed

lemma scan_seq:
  assumes ok: "journal_ok (st_policy S) w0"
    and k: "\<And>ls. \<forall>p m. leases (st_policy S) w0 p = Some m \<longrightarrow> m \<in> set ls \<Longrightarrow>
      triple (quiet (st_policy S) nothing {} w0) (k ls) Q (reserving S e w0)"
  shows "triple (quiet (st_policy S) nothing {} w0) (seq (all_records S) k) Q (reserving S e w0)"
  unfolding triple_def
proof (intro allI impI)
  fix w assume q: "quiet (st_policy S) nothing {} w0 w"
  obtain r v where eq: "all_records S w = (r, v)" by fastforce
  note q2 = quiet.step_trans [OF q quiet_result [OF quiet_all_records eq]]
  have "\<forall>p m. leases (st_policy S) w0 p = Some m \<longrightarrow> m \<in> set ls" if "r = Inr ls" for ls
    using all_records_seen [of S w ls v] journal_ok_quiet [OF q ok] eq that leases_quiet [OF q2] by (simp add: seen_def)
  then show "case seq (all_records S) k w of (Inl e', v) \<Rightarrow> reserving S e w0 v | (Inr x, v) \<Rightarrow> Q x v"
    using eq q2 k by (cases r) (simp_all add: seq_Inl seq_Inr triple_def)
qed

lemma draw_seq:
  fixes k :: "8 word list \<Rightarrow> ('h, 'b) io"
  assumes k: "\<And>random. length random = 16 \<Longrightarrow> triple (quiet (st_policy S) nothing {} w0) (k random) Q (reserving S e w0)"
  shows "triple (quiet (st_policy S) nothing {} w0) (seq draw16 k) Q (reserving S e w0)"
  unfolding triple_def
proof (intro allI impI)
  fix w :: "'h world" assume q: "quiet (st_policy S) nothing {} w0 w"
  obtain r v where eq: "draw16 w = (r, v)" by fastforce
  note q2 = quiet.step_trans [OF q quiet_result [OF quiet_draw16 eq]]
  have "triple (quiet (st_policy S) nothing {} w0) (k random) Q (reserving S e w0)" if "r = Inr random" for random
    by (rule k, rule draw16_length [of w _ v]) (simp add: eq that)
  then show "case seq draw16 k w of (Inl e', v) \<Rightarrow> reserving S e w0 v | (Inr x, v) \<Rightarrow> Q x v"
    using eq q2 by (cases r) (simp_all add: seq_Inl seq_Inr triple_def)
qed

lemma reserve_adds:
  assumes S: "wf_store S" and own: "owner_ok own" and ex: "validate_execution e = Inr ()"
    and ok: "journal_ok (st_policy S) w0"
  shows "triple (quiet (st_policy S) nothing {} w0) (reserve S own e) (added S e w0) (reserving S e w0)"
proof -
  let ?q = "quiet (st_policy S) nothing {} w0"
  let ?new = "\<lambda>slot g ad random. new_lease S own e (word_of_nat slot) g ad random"
  let ?tail = "\<lambda>ls slot g ad. seq draw16 (\<lambda>random.
     seq (check (\<not> list_ex (\<lambda>l. l_lease l = token_of (map unat random)) ls) ''lease identifier collision'') (\<lambda>_.
     seq (ret (?new slot g ad random)) (\<lambda>l. seq (save S l) (\<lambda>_. ret l))))"
  have tail: "triple ?q (?tail ls slot g ad) (added S e w0) (reserving S e w0)"
    if all: "\<forall>p m. leases (st_policy S) w0 p = Some m \<longrightarrow> m \<in> set ls"
      and free: "free_slot (st_policy S) ls = Some slot"
      and addr: "addresses (st_policy S) (word_of_nat slot) = Inr (g, ad)" for ls slot g ad
  proof (rule draw_seq, rule triple_seq_check, unfold seq_ret, rule save_adds [OF S])
    fix random :: "8 word list"
    assume n: "length random = 16" and fresh: "\<not> list_ex (\<lambda>l. l_lease l = token_of (map unat random)) ls"
    have "l_slot m \<noteq> word_of_nat slot \<and> l_lease m \<noteq> token_of (map unat random)"
      if "leases (st_policy S) w0 p = Some m" for p m
      using all that fresh free_slot_fresh [OF free] by (auto simp: list_ex_iff)
    then show "novel S e w0 (?new slot g ad random)"
      using wf_new_lease [OF S own ex addr n] by (simp add: novel_def new_lease_def)
  qed auto
  show ?thesis
    unfolding reserve_def
  proof (rule still_quiet [OF quiet_global_lock], rule still_quiet [OF quiet.attempt_moves [OF quiet_process_starttime]],
      rule still_quiet [OF quiet.check_moves], rule scan_seq [OF ok], rule still_quiet [OF quiet.check_moves],
      rule triple_seq_lift)
    fix ls slot assume all: "\<forall>p m. leases (st_policy S) w0 p = Some m \<longrightarrow> m \<in> set ls"
      and "ok_or ''network address pool exhausted (including quarantined allocations)''
        (free_slot (st_policy S) ls) = Inr slot"
    then have free: "free_slot (st_policy S) ls = Some slot" by (simp add: ok_or_eq_Inr)
    show "triple ?q (seq (lift_r (addresses (st_policy S) (word_of_nat slot))) (\<lambda>(g, ad). ?tail ls slot g ad))
        (added S e w0) (reserving S e w0)"
      by (rule triple_seq_lift) (auto split: prod.split intro: tail [OF all free, unfolded seq_ret])
  qed simp
qed

section \<open>Provisioning\<close>

lemma opens_lock:
  "triple (opens T (st_policy S) i a0 Idle) (execution_lock T S e nb)
    (\<lambda>got. opens T (st_policy S) i a0 (if got then Locked (lock_path T (st_policy S) (st_instance S) e) None else Idle))
    (at_rest T S i a0)"
proof (rule triple_weaken [OF quiet.triple_moves [OF quiet_execution_lock opens_quiet [where act = Idle]]])
  fix got w assume "opens T (st_policy S) i a0 Idle w"
  then show "opens T (st_policy S) i a0
      (if got then Locked (lock_path T (st_policy S) (st_instance S) e) None else Idle) w"
    by (auto simp: opens_def intro: at_acquire)
qed (auto intro: opens_rests)

definition granted :: "'h tools \<Rightarrow> store \<Rightarrow> 'p \<Rightarrow> 'p arena \<Rightarrow> lease \<Rightarrow> 'h world \<Rightarrow> bool" where
  "granted T S i a0 l w \<longleftrightarrow> l_phase l = Reserved \<and> (\<exists>sn. picked T S i a0 sn l w)"

lemma added_granted:
  assumes S: "wf_store S" and w0: "opens T (st_policy S) i a0 (Locked (lock_path T (st_policy S) (st_instance S) e) None) w0"
    and l: "added S e w0 l w"
  shows "granted T S i a0 l w"
proof -
  let ?P = "st_policy S"
  have n: "wf_lease l" "l_phase l = Reserved" "l_instance l = st_instance S" "l_execution_id l = e"
    and new: "\<forall>p m. leases ?P w0 p = Some m \<longrightarrow> l_slot m \<noteq> l_slot l \<and> l_lease m \<noteq> l_lease l"
    and step: "replaced ?P nothing (json_path S (l_lease l)) (Some (LeaseRecord l)) w0 w"
    using l by (simp_all add: added_def novel_def)
  have path: "lease_path ?P l = json_path S (l_lease l)" by (rule lease_path_json [OF S n(3)])
  have ls: "leases ?P w = (leases ?P w0)(lease_path ?P l \<mapsto> l)"
    using leases_replaced [OF step json_in_state [OF S]] path by simp
  obtain sn where at: "at_act T ?P i a0 (dom (leases ?P w0)) sn (Locked (lease_lock T ?P l) None) w0"
    and ok: "journal_ok ?P w0"
    using w0 n(3,4) by (auto simp: opens_def lease_lock_def)
  have "lease_path ?P l \<notin> dom (leases ?P w0)"
  proof
    assume "lease_path ?P l \<in> dom (leases ?P w0)"
    then obtain m where m: "leases ?P w0 (lease_path ?P l) = Some m" by auto
    then have "lease_path ?P l = lease_path ?P m" using leases_ok [OF ok m] by simp
    then have "l_lease m = l_lease l" by (simp add: lease_path_def)
    then show False using new m by blast
  qed
  moreover have "allocatable ?P (leases ?P w0) l" using n(1,2) new by (simp add: allocatable_def)
  ultimately have "at_act T ?P i a0 (insert (lease_path ?P l) (dom (leases ?P w0))) sn (Working (lease_lock T ?P l) l) w"
    using at_reserve [OF at _ _ ls] by simp
  then show ?thesis using n ls by (auto simp: granted_def picked_def loaded_def)
qed

lemma granted_rests: "granted T S i a0 l w \<Longrightarrow> at_rest T S i a0 w"
  by (auto simp: granted_def intro: picked_rests)

lemma reserve_grants:
  assumes S: "wf_store S" and own: "owner_ok own" and ex: "validate_execution e = Inr ()"
  shows "triple (opens T (st_policy S) i a0 (Locked (lock_path T (st_policy S) (st_instance S) e) None)) (reserve S own e)
    (granted T S i a0) (at_rest T S i a0)"
  unfolding triple_def
proof (intro allI impI)
  fix w0 assume w0: "opens T (st_policy S) i a0 (Locked (lock_path T (st_policy S) (st_instance S) e) None) w0"
  then have ok: "journal_ok (st_policy S) w0" by (simp add: opens_def)
  obtain r v where eq: "reserve S own e w0 = (r, v)" by fastforce
  have "at_rest T S i a0 v" if "reserving S e w0 v"
    using that opens_rests [OF opens_quiet [OF _ w0]] granted_rests [OF added_granted [OF S w0]] by blast
  moreover have "case r of Inl _ \<Rightarrow> reserving S e w0 v | Inr l \<Rightarrow> added S e w0 l v"
    using reserve_adds [OF S own ex ok] quiet.step_refl [of "st_policy S" nothing "{}" w0] eq by (auto simp: triple_def split: sum.splits)
  ultimately show "case reserve S own e w0 of (Inl e', v) \<Rightarrow> at_rest T S i a0 v | (Inr l, v) \<Rightarrow> granted T S i a0 l v"
    using eq added_granted [OF S w0] by (cases r) auto
qed

lemma provision_end_rests:
  assumes S: "wf_store S"
  shows "triple (on_some T S i a0 sn) (provision_end T S r) (\<lambda>_. at_rest T S i a0) (at_rest T S i a0)"
proof (cases r)
  case (Inl e)
  have "triple (works T S i a0 sn l) (seq (attempt (revoke_and_release T S)) (\<lambda>_. lift_r (Inl e') :: ('a, string) io))
      (\<lambda>_. at_rest T S i a0) (at_rest T S i a0)" for l e'
    by (rule triple_seq_attempt [OF revoke_and_release_rests [OF S]]; rule triple_lift) simp_all
  then show ?thesis unfolding provision_end_def Inl sum.case by (rule triple_ex)
qed (auto simp: provision_end_def triple_def intro: works_rests)

lemma fill_rests:
  fixes T :: "'h tools"
  assumes S: "wf_store S"
  shows "triple (granted T S i a0 l) (seq (set_cur l) (\<lambda>_. seq (attempt (prepare_host T S)) (provision_end T S)))
    (\<lambda>_. at_rest T S i a0) (at_rest T S i a0 :: 'h world \<Rightarrow> bool)"
proof (cases "l_phase l = Reserved")
  case True
  have "triple (picked T S i a0 sn l) (seq (set_cur l) (\<lambda>_. seq (attempt (prepare_host T S)) (provision_end T S)))
      (\<lambda>_. at_rest T S i a0) (at_rest T S i a0)" for sn
    by (rule picked_set, rule triple_seq_attempt [OF prepare_host_works [OF S True]]) (rule provision_end_rests [OF S])+
  then show ?thesis by (rule triple_pre [OF triple_ex]) (auto simp: granted_def)
qed (simp add: granted_def triple_def)

lemma provision_rests:
  fixes T :: "'h tools"
  assumes S: "wf_store S" and own: "owner_ok own"
  shows "triple (opens T (st_policy S) i a0 Idle) (provision T S own e) (\<lambda>_. at_rest T S i a0) (at_rest T S i a0)"
proof -
  let ?R = "at_rest T S i a0 :: 'h world \<Rightarrow> bool"
  let ?k = "lock_path T (st_policy S) (st_instance S) e"
  let ?fill = "\<lambda>l. seq (set_cur l) (\<lambda>_. seq (attempt (prepare_host T S)) (provision_end T S))"
  have found: "triple (opens T (st_policy S) i a0 (Locked ?k None)) (case f of
       Some l \<Rightarrow> seq (lift_r (require_owner l own)) (\<lambda>_.
         seq (check (l_phase l = Active) msg) (\<lambda>_. ret (print_json T (lease_output (st_policy S) l))))
     | None \<Rightarrow> seq (reserve S own e) ?fill) (\<lambda>_. ?R) ?R" if "validate_execution e = Inr ()" for f msg
  proof (cases f)
    case None
    show ?thesis unfolding None option.case by (rule triple_seq [OF reserve_grants [OF S own that] fill_rests [OF S]])
  next
    case (Some l)
    show ?thesis unfolding Some option.case
      by (rule triple_seq_lift, rule triple_seq_check, rule triple_ret) (auto intro: opens_rests)
  qed
  have locked: "triple (opens T (st_policy S) i a0 (if got then Locked ?k None else Idle))
      (seq (check got msg) (\<lambda>_. seq global_lock (\<lambda>_. seq (records_in (st_directory S)) k))) (\<lambda>_. ?R) ?R"
    if "\<And>ls. triple (opens T (st_policy S) i a0 (Locked ?k None)) (k ls) (\<lambda>_. ?R) ?R" for got msg and k :: "lease list \<Rightarrow> ('h, string) io"
    by (rule triple_seq_check)
      (auto intro: opens_rests opens_seq [OF quiet_global_lock] opens_seq [OF quiet_records_in] that)
  show ?thesis
    unfolding provision_def
    by (rule triple_seq_lift, rule triple_seq [OF opens_lock], rule locked, rule found) (auto intro: opens_rests)
qed

section \<open>Requests\<close>

lemma dispatch_rests:
  fixes T :: "'h tools"
  assumes S: "wf_store S" and own: "owner_ok own"
  shows "triple (opens T (st_policy S) i a0 Idle) (network_dispatch T S own req) (\<lambda>_. at_rest T S i a0) (at_rest T S i a0)"
proof -
  let ?R = "at_rest T S i a0 :: 'h world \<Rightarrow> bool"
  have out: "triple ?R (ret x) (\<lambda>_. ?R) ?R" for x :: "string option" by (rule triple_ret)
  have bad: "triple (opens T (st_policy S) i a0 Idle) (lift_r r) (\<lambda>_. ?R) ?R" for r :: "string option result"
    by (rule triple_lift) (auto intro: opens_rests)
  have operate: "triple (opens T (st_policy S) i a0 Idle) (operate T S own token rel) (\<lambda>_. ?R) ?R" for token rel
  proof -
    have "triple (\<lambda>w. \<exists>u sn. at_act T (st_policy S) i a0 u sn Idle w) (operate T S own token rel) (\<lambda>_. ?R) ?R"
      by (intro triple_ex operate_rests S)
    then show ?thesis by (rule triple_pre) (auto simp: opens_def)
  qed
  show ?thesis
    unfolding network_dispatch_def
    by (intro opens_seq [OF quiet.lift_moves] opens_seq [OF quiet.check_moves] triple_if bad
        triple_seq [OF provision_rests [OF S own] out] triple_seq [OF operate out]
        triple_seq [OF store_cleanup_rests [OF S] out])
qed

lemma store_open_rests:
  assumes p: "wf_policy p"
    and k: "\<And>S. wf_store S \<Longrightarrow> st_policy S = p \<Longrightarrow> triple (opens T p i a0 Idle) (k S) (\<lambda>_ w. \<exists>sn. rests T p i a0 sn w) (\<lambda>w. \<exists>sn. rests T p i a0 sn w)"
  shows "triple (opens T p i a0 Idle) (seq (store_open p inst) k) (\<lambda>_ w. \<exists>sn. rests T p i a0 sn w) (\<lambda>w. \<exists>sn. rests T p i a0 sn w)"
  unfolding triple_def
proof (intro allI impI)
  fix w :: "'a world" assume w: "opens T p i a0 Idle w"
  obtain r v where eq: "store_open p inst w = (r, v)" by fastforce
  have v: "opens T p i a0 Idle v" by (rule opens_quiet [OF quiet_result [OF quiet_store_open eq] w])
  show "case seq (store_open p inst) k w of (Inl e, v) \<Rightarrow> \<exists>sn. rests T p i a0 sn v | (Inr x, v) \<Rightarrow> \<exists>sn. rests T p i a0 sn v"
  proof (cases r)
    case (Inl e)
    then show ?thesis using eq v at_rests by (fastforce simp: seq_Inl opens_def)
  next
    case (Inr S)
    then have "wf_store S" "st_policy S = p" using store_open_wf [of p inst w S v] eq p by simp_all
    from k [OF this] show ?thesis using eq v Inr by (simp add: seq_Inr triple_def)
  qed
qed

definition run_to :: "'h tools \<Rightarrow> policy \<Rightarrow> 'p \<Rightarrow> 'p arena \<Rightarrow> 'h world \<Rightarrow> bool" where
  "run_to T P i a0 w \<longleftrightarrow>
     (\<exists>a. rtranclp (move T P i) a0 a \<and> ar_shelf a = leases P w \<and> ar_act a i = Idle \<and> ar_held a = Map.empty)"

lemma rests_run_to: "rests T P i a0 sn w \<Longrightarrow> run_to T P i a0 w"
  by (auto simp: rests_def at_act_def run_to_def)

lemma requests_rest:
  fixes w :: "'h world"
  assumes P: "store_policy root path w = (Inr P, w1)" and w: "opens T P i a0 Idle w"
    and own: "\<And>own. authenticate P peer reads = Inr own \<Longrightarrow> owner_ok own"
  shows "run_to T P i a0 (snd (network_request T root path peer reads req w))"
    and "run_to T P i a0 (snd (network_cleanup T real_root root path inst w))"
proof -
  let ?R = "\<lambda>w :: 'h world. \<exists>sn. rests T P i a0 sn w"
  have wf: "wf_policy P" by (rule store_policy_wf [OF P])
  have w1: "opens T P i a0 Idle w1" by (rule opens_quiet [OF quiet_result [OF quiet_store_policy P] w])
  have stay: "opens T P i a0 Idle v \<Longrightarrow> ?R v" for v :: "'h world" by (auto simp: opens_def intro: at_rests)
  have after: "?R (snd (m v))" if "triple (opens T P i a0 Idle) m (\<lambda>_. ?R) ?R" "opens T P i a0 Idle v"
    for v and m :: "('h, 'b) io"
    using that unfolding triple_def by (fastforce split: prod.splits sum.splits)
  let ?k = "seq (lift_r (authenticate P peer reads)) (\<lambda>own.
     seq (store_open P (o_instance own)) (\<lambda>S. network_dispatch T S own req))"
  have "triple (opens T P i a0 Idle) ?k (\<lambda>_. ?R) ?R"
  proof (rule triple_seq_lift)
    fix x assume "authenticate P peer reads = Inr x"
    from dispatch_rests [OF _ own [OF this], where req = req]
    show "triple (opens T P i a0 Idle) (seq (store_open P (o_instance x)) (\<lambda>S. network_dispatch T S x req)) (\<lambda>_. ?R) ?R"
      by (intro store_open_rests [OF wf]) auto
  qed (rule stay)
  moreover have "network_request T root path peer reads req w = ?k w1"
    unfolding network_request_def by (simp add: seq_def P)
  ultimately show "run_to T P i a0 (snd (network_request T root path peer reads req w))"
    using after [of ?k w1] w1 rests_run_to by metis
  have "triple (opens T P i a0 Idle) (seq (store_open P inst) (\<lambda>S. store_cleanup T S True)) (\<lambda>_. ?R) ?R"
    by (rule store_open_rests [OF wf]) (use store_cleanup_rests in auto)
  then have "run_to T P i a0 (snd (seq (store_open P inst) (\<lambda>S. store_cleanup T S True) w1))"
    using after [of "seq (store_open P inst) (\<lambda>S. store_cleanup T S True)" w1] w1 rests_run_to by metis
  moreover have "run_to T P i a0 w" using stay [OF w] rests_run_to by metis
  ultimately show "run_to T P i a0 (snd (network_cleanup T real_root root path inst w))"
    unfolding network_cleanup_def seq_check seq_Inr [of "store_policy root path", OF P]
    by (simp split: if_split)
qed



end
