(* ===== verification/Activator.thy ===== *)
theory Activator
  imports Handler NetworkRequests
begin

text \<open>
  \<open>sower activator\<close> as a whole: \<open>run\<close> of \<open>src/src/commands/activator/mod.rs\<close> with its two modes, over the
  network commands and the activations.  The set-up of \<open>tracing\<close> is not modelled; its filter is part of \<open>env\<close>.
\<close>

section \<open>The run\<close>

record activator_args =
  aa_allowed_gids :: string
  aa_debug :: bool
  aa_network_policy :: "path option"
  aa_network_cleanup :: bool
  aa_network_instance :: "string option"

text \<open>\<open>requires\<close> of clap: the command line is refused otherwise.\<close>

definition activator_args_ok :: "activator_args \<Rightarrow> bool" where
  "activator_args_ok A \<longleftrightarrow>
     (aa_network_cleanup A \<longrightarrow> aa_network_policy A \<noteq> None) \<and> (aa_network_instance A \<noteq> None \<longrightarrow> aa_network_cleanup A)"

text \<open>
  The process: who it is, what its standard input is and who is at the other end (\<open>pr_creds\<close> and \<open>pr_groups\<close> are
  answers of the kernel about the socket, \<open>pr_files\<close> what \<open>/proc\<close> tells of the peer), what is read from
  it, and whether the \<open>n\<close>-th response can be written.
\<close>

record 'h process =
  pr_root :: bool
  pr_real_root :: bool
  pr_socket :: "bool result"
  pr_cloned :: "unit result"
  pr_creds :: "peer_credentials result"
  pr_groups :: "nat \<Rightarrow> nat \<Rightarrow> sockopt_reply"
  pr_files :: proc_reads
  pr_line :: "string result"
  pr_writes :: "nat \<Rightarrow> bool"
  pr_parse :: "string \<Rightarrow> request result"
  pr_tools :: "'h tools"
  pr_env :: env

definition network_handler :: "'h process \<Rightarrow> network_context \<Rightarrow> request \<Rightarrow> ('h, string option) io" where
  "network_handler M c req = network_request (pr_tools M) (pr_root M) (nc_policy c) (nc_peer c) (pr_files M) req"

definition serve_with :: "'h process \<Rightarrow> network_context option \<Rightarrow> 'h world session \<Rightarrow> 'h world session" where
  "serve_with M context s = serve (pr_parse M) (network_handler M) (pr_writes M) (pr_env M) context (pr_line M) s"

definition run_pipe :: "'h process \<Rightarrow> 'h world session \<Rightarrow> unit result \<times> 'h world session" where
  "run_pipe M s = (Inr (), serve_with M None s)"

definition run_socket :: "'h process \<Rightarrow> u32 list \<Rightarrow> path option \<Rightarrow> 'h world session \<Rightarrow> unit result \<times> 'h world session" where
  "run_socket M allowed policy s =
     (case admit (pr_root M) (pr_cloned M) (pr_creds M) (pr_groups M) allowed policy of
        Inl e \<Rightarrow> (Inl e, s)
      | Inr (Refuse r) \<Rightarrow> (Inr (), send (pr_writes M) (pr_env M) r s)
      | Inr (Admit context) \<Rightarrow> (Inr (), serve_with M context s))"

definition activator_run :: "'h process \<Rightarrow> activator_args \<Rightarrow> 'h world session \<Rightarrow> unit result \<times> 'h world session" where
  "activator_run M A s =
     (case select_mode (aa_allowed_gids A) (aa_network_cleanup A) (aa_network_policy A) (aa_network_instance A) (pr_socket M) of
        Inl e \<Rightarrow> (Inl e, s)
      | Inr (Cleanup p i, _) \<Rightarrow>
          (case network_cleanup (pr_tools M) (pr_real_root M) (pr_root M) p i (se_net s) of (r, n) \<Rightarrow> (r, s\<lparr>se_net := n\<rparr>))
      | Inr (Socket, allowed) \<Rightarrow> run_socket M allowed (aa_network_policy A) s
      | Inr (Pipe, _) \<Rightarrow> run_pipe M s)"

lemma mode_cases:
  assumes "select_mode gids cleanup policy inst sock = Inr (m, allowed)"
  shows "parse_gids gids = Inr allowed"
    and "m = Cleanup p i \<Longrightarrow> cleanup \<and> policy = Some p \<and> inst = Some i"
    and "m = mode.Socket \<Longrightarrow> \<not> cleanup \<and> sock = Inr True"
    and "m = Pipe \<Longrightarrow> \<not> cleanup \<and> sock = Inr False"
  using assms by (cases cleanup; auto simp: select_mode_def result_simps split: if_splits)+

section \<open>What a run may touch\<close>

lemma serve_net:
  "se_net (serve parse net W E context line s) \<noteq> se_net s \<Longrightarrow> context \<noteq> None"
  by (cases rule: serve_cases [of parse net W E "context" line s])
    (auto simp: serve_network_def serve_activation_def Let_def put_lines_def [symmetric]
      split: if_splits sum.splits option.splits)

lemma serve_act:
  assumes "se_act (serve parse net W E context line s) \<noteq> se_act s"
  shows "\<exists>req. activates parse context line req"
proof (cases rule: serve_cases [of parse net W E "context" line s])
  case (activation req)
  then show ?thesis by blast
qed (use assms in \<open>simp_all add: network_act\<close>)

definition may_activate :: "'h process \<Rightarrow> activator_args \<Rightarrow> bool" where
  "may_activate M A \<longleftrightarrow> \<not> aa_network_cleanup A \<and>
     (pr_socket M = Inr False \<or>
      pr_socket M = Inr True \<and> pr_root M \<and> (\<exists>c allowed. pr_creds M = Inr c \<and> parse_gids (aa_allowed_gids A) = Inr allowed
        \<and> (peer_uid c = 0 \<or> peer_gid c \<in> set allowed)))"

definition may_network :: "'h process \<Rightarrow> activator_args \<Rightarrow> bool" where
  "may_network M A \<longleftrightarrow>
     (if aa_network_cleanup A then pr_root M \<and> pr_real_root M
      else pr_socket M = Inr True \<and> pr_root M \<and> aa_network_policy A \<noteq> None
        \<and> (\<exists>c allowed. pr_creds M = Inr c \<and> parse_gids (aa_allowed_gids A) = Inr allowed
             \<and> is_authorized_socket (pr_groups M) c allowed = Inr True))"

lemma admit_cases:
  assumes "admit root cloned creds query allowed policy = Inr (Admit ctxt)"
  shows "root \<and> (\<exists>c. creds = Inr c
    \<and> (case ctxt of None \<Rightarrow> is_authorized c allowed
       | Some n \<Rightarrow> policy \<noteq> None \<and> is_authorized_socket query c allowed = Inr True \<and> (nc_activation n \<longleftrightarrow> is_authorized c allowed)))"
  using assms
  by (cases creds; cases policy) (auto simp: admit_def result_simps split: if_splits option.splits)

lemma cleanup_refused:
  "\<not> (real_root \<and> root) \<Longrightarrow> network_cleanup T real_root root p i w = (Inl (Msg ''network cleanup requires direct root invocation''), w)"
  unfolding network_cleanup_def by (cases real_root; cases root) (simp_all add: seq_check)

text \<open>A peer is served only in a context that its credentials allow.\<close>

lemma run_socket_authorized:
  assumes "run_socket M allowed (aa_network_policy A) s = (r, s')"
    and mode: "\<not> aa_network_cleanup A" "pr_socket M = Inr True" "parse_gids (aa_allowed_gids A) = Inr allowed"
  shows "(se_act s' \<noteq> se_act s \<longrightarrow> may_activate M A) \<and> (se_net s' \<noteq> se_net s \<longrightarrow> may_network M A)"
proof (cases "\<exists>ctxt. admit (pr_root M) (pr_cloned M) (pr_creds M) (pr_groups M) allowed (aa_network_policy A) = Inr (Admit ctxt)")
  case False
  then show ?thesis using assms(1) by (auto simp: run_socket_def split: sum.splits admission.splits)
next
  case True
  then obtain ctxt where adm: "admit (pr_root M) (pr_cloned M) (pr_creds M) (pr_groups M) allowed (aa_network_policy A) = Inr (Admit ctxt)"
    by blast
  then have s': "s' = serve_with M ctxt s" using assms(1) by (simp add: run_socket_def)
  obtain c where c: "pr_root M" "pr_creds M = Inr c" and ctxt: "case ctxt of None \<Rightarrow> is_authorized c allowed
      | Some n \<Rightarrow> aa_network_policy A \<noteq> None \<and> is_authorized_socket (pr_groups M) c allowed = Inr True
         \<and> (nc_activation n \<longleftrightarrow> is_authorized c allowed)"
    using admit_cases [OF adm] by blast
  have "may_activate M A" if "se_act s' \<noteq> se_act s"
  proof -
    have "\<exists>req. activates (pr_parse M) ctxt (pr_line M) req"
      using serve_act that unfolding s' serve_with_def by blast
    then have "is_authorized c allowed" using ctxt by (auto simp: activates_def split: option.splits)
    then show ?thesis using c mode by (auto simp: may_activate_def is_authorized_def)
  qed
  moreover have "may_network M A" if "se_net s' \<noteq> se_net s"
  proof -
    have "ctxt \<noteq> None" using serve_net that unfolding s' serve_with_def by blast
    then show ?thesis using ctxt c mode by (auto simp: may_network_def)
  qed
  ultimately show ?thesis by blast
qed

text \<open>The activator acts only for those it may act for, whatever it is asked and whatever else fails: an activation (any
  program that is run, any line, any change of the services) happens only in pipe mode, where the caller already has
  the process's rights, or over a socket in a process of root for a peer that the kernel says is root or has a listed primary
  group.  The journal and the host's network change only for such a socket peer with a listed group, and only when a
  policy is configured, or by the cleanup that root started itself.\<close>

lemma activator_authorized:
  assumes run: "activator_run M A s = (r, s')"
  shows "(se_act s' \<noteq> se_act s \<longrightarrow> may_activate M A) \<and> (se_net s' \<noteq> se_net s \<longrightarrow> may_network M A)"
proof (cases "select_mode (aa_allowed_gids A) (aa_network_cleanup A) (aa_network_policy A) (aa_network_instance A) (pr_socket M)")
  case (Inl e)
  then show ?thesis using run by (simp add: activator_run_def)
next
  case (Inr ma)
  obtain m allowed where ma: "ma = (m, allowed)" by (cases ma)
  note mode = mode_cases [OF Inr [unfolded ma]]
  show ?thesis
  proof (cases m)
    case (Cleanup p i)
    have "s' = s" if "\<not> (pr_real_root M \<and> pr_root M)"
      using run Inr ma Cleanup by (simp add: activator_run_def cleanup_refused [OF that])
    moreover have "se_act s' = se_act s"
      using run Inr ma Cleanup by (auto simp: activator_run_def split: prod.splits)
    ultimately show ?thesis using mode(2) [OF Cleanup] by (auto simp: may_network_def)
  next
    case Pipe
    then have s': "s' = serve_with M None s" using run Inr ma by (simp add: activator_run_def run_pipe_def)
    have "se_net s' = se_net s" using serve_net unfolding s' serve_with_def by blast
    then show ?thesis using mode(4) [OF Pipe] by (simp add: may_activate_def)
  next
    case Socket
    then have "run_socket M allowed (aa_network_policy A) s = (r, s')" using run Inr ma by (simp add: activator_run_def)
    then show ?thesis using mode(3) [OF Socket] mode(1) by (intro run_socket_authorized) simp_all
  qed
qed

text \<open>A connection of root that asks for a reboot.\<close>

definition example_process :: "string process" where
  "example_process = \<lparr>pr_root = True, pr_real_root = True, pr_socket = Inr True, pr_cloned = Inr (),
     pr_creds = Inr \<lparr>peer_pid = 9, peer_uid = 0, peer_gid = 0\<rparr>, pr_groups = two_snapshots, pr_files = example_reads,
     pr_line = Inr ''{}'', pr_writes = (\<lambda>_. True), pr_parse = (\<lambda>_. Inr failing_reboot), pr_tools = sim,
     pr_env = quiet_env\<rparr>"

definition example_activator_args :: activator_args where
  "example_activator_args = \<lparr>aa_allowed_gids = '''', aa_debug = False, aa_network_policy = None,
     aa_network_cleanup = False, aa_network_instance = None\<rparr>"

definition example_session :: "string world session" where
  "example_session = \<lparr>se_net = example_world, se_act = fresh_activator, se_sent = [], se_slot = False, se_stuck = False\<rparr>"

lemma example_activator_run:
  "se_act (snd (activator_run example_process example_activator_args example_session)) \<noteq> se_act example_session
   \<and> may_activate example_process example_activator_args"
proof -
  have gids: "parse_gids [] = Inr []" by (simp add: parse_gids_def)
  have run: "snd (activator_run example_process example_activator_args example_session) = serve_with example_process None example_session"
    by (simp add: activator_run_def select_mode_def gids example_process_def example_activator_args_def run_socket_def admit_def
        is_authorized_def)
  have "activates (pr_parse example_process) None (pr_line example_process) failing_reboot"
    by (simp add: example_process_def activates_def read_request_def failing_reboot_def validate_request_def)
  then have "se_act (serve_with example_process None example_session)
      = snd (run_reported quiet_env failing_reboot (se_act example_session))"
    unfolding serve_with_def by (simp add: serve_activates activation_act) (simp add: example_process_def)
  moreover have "ac_asked (snd (run_reported quiet_env failing_reboot fresh_activator)) \<noteq> ac_asked fresh_activator"
    by (simp add: run_reported_def activate_run_def failing_reboot_def quiet_stream fresh_activator_def seq_def)
  ultimately have "se_act (snd (activator_run example_process example_activator_args example_session)) \<noteq> se_act example_session"
    unfolding run by (auto simp: example_session_def)
  then show ?thesis
    using activator_authorized [of example_process example_activator_args example_session] by (metis prod.collapse)
qed

end
