(* ===== verification/SshDecoder.thy ===== *)
theory SshDecoder
  imports Interfaces Protocol
begin

text \<open>
  The decoder of \<open>src/src/commands/deploy/sudo.rs\<close> for the output of an activation over SSH: text
  is passed to the terminal, a marker starts a frame that ends with the line and holds a response of the
  activator.  Output is cut into reads at arbitrary places; the proofs show that this does not matter.
\<close>

section \<open>The terminal\<close>

text \<open>\<open>te_room\<close> bounds what the terminal still takes; \<open>write_all\<close> fails after writing that much.\<close>

record terminal =
  te_out :: string
  te_room :: "nat option"

definition write_all :: "string \<Rightarrow> (terminal, unit) act" where
  "write_all bytes t =
     (case te_room t of
        None \<Rightarrow> (Inr (), t\<lparr>te_out := te_out t @ bytes\<rparr>)
      | Some n \<Rightarrow>
          if length bytes \<le> n then (Inr (), t\<lparr>te_out := te_out t @ bytes, te_room := Some (n - length bytes)\<rparr>)
          else (Inl (Msg ''write error''), t\<lparr>te_out := te_out t @ take n bytes, te_room := Some 0\<rparr>))"

lemma write_all_append: "write_all (a @ b) = seq (write_all a) (\<lambda>_. write_all b)"
proof
  fix t
  show "write_all (a @ b) t = seq (write_all a) (\<lambda>_. write_all b) t"
    by (cases "te_room t") (auto simp: write_all_def seq_def)
qed

lemma write_all_Nil: "write_all [] = ret ()"
  by (rule ext) (simp add: write_all_def split: option.splits)

lemma seq_seq: "seq (seq m k) h = seq m (\<lambda>x. seq (k x) h)"
  by (rule ext) (auto simp: seq_def split: prod.splits sum.splits)

lemma seq_cong: "(\<And>x. k x = h x) \<Longrightarrow> seq m k = seq m h"
proof -
  assume "\<And>x. k x = h x"
  then have "k = h" by (rule ext)
  then show ?thesis by simp
qed

lemma ret_Pair [simp]: "ret x = Pair (Inr x)" by (simp add: ret_def)

lemma seq_Pair [simp]: "seq (Pair (Inr x)) k = k x" by (simp add: seq_def)

lemma seq_ret_right: "seq m ret = m"
  by (rule ext) (auto simp: seq_def split: prod.splits sum.splits)

section \<open>Markers\<close>

definition FRAME_PREFIX :: string where
  "FRAME_PREFIX = CHR 0x1E # ''sower-activator'' @ [CHR 0x1F]"

text \<open>\<open>windows(n).position(...)\<close>\<close>

fun find_window :: "string \<Rightarrow> string \<Rightarrow> nat option" where
  "find_window p [] = None"
| "find_window p (x # xs) = (if take (length p) (x # xs) = p then Some 0 else map_option Suc (find_window p xs))"

text \<open>The length of the longest suffix that may be the beginning of a marker.\<close>

definition retained :: "string \<Rightarrow> string \<Rightarrow> nat" where
  "retained p s =
     (case find (\<lambda>n. ends_with (take n p) s) (rev [1..<min (length p) (length s + 1)]) of
        Some n \<Rightarrow> n
      | None \<Rightarrow> 0)"

lemma find_window_Some_iff:
  "p \<noteq> [] \<Longrightarrow> find_window p s = Some k \<longleftrightarrow> take (length p) (drop k s) = p \<and> (\<forall>j<k. take (length p) (drop j s) \<noteq> p)"
proof (induction s arbitrary: k)
  case Nil
  then show ?case by simp
next
  case (Cons x xs)
  show ?case
  proof (cases "take (length p) (x # xs) = p")
    case True
    then show ?thesis by (cases k) auto
  next
    case False
    show ?thesis
    proof (cases k)
      case 0
      then show ?thesis using False by auto
    next
      case (Suc m)
      have "(\<forall>j<Suc m. take (length p) (drop j (x # xs)) \<noteq> p) \<longleftrightarrow> (\<forall>j<m. take (length p) (drop j xs) \<noteq> p)"
        using False by (auto simp: less_Suc_eq_0_disj)
      then show ?thesis using Cons False Suc by auto
    qed
  qed
qed

lemma find_window_None_iff:
  "p \<noteq> [] \<Longrightarrow> find_window p s = None \<longleftrightarrow> (\<forall>j. take (length p) (drop j s) \<noteq> p)"
proof (induction s)
  case Nil
  then show ?case by simp
next
  case (Cons x xs)
  have "(\<forall>j. take (length p) (drop j (x # xs)) \<noteq> p) \<longleftrightarrow>
      take (length p) (x # xs) \<noteq> p \<and> (\<forall>j. take (length p) (drop j xs) \<noteq> p)"
    by (metis drop0 drop_Suc_Cons not0_implies_Suc)
  then show ?case using Cons by auto
qed

definition candidate :: "string \<Rightarrow> string \<Rightarrow> nat \<Rightarrow> bool" where
  "candidate p s n \<longleftrightarrow> n < length p \<and> n \<le> length s \<and> drop (length s - n) s = take n p"

lemma ends_with_take: "n < length p \<Longrightarrow> n \<le> length s \<Longrightarrow> ends_with (take n p) s \<longleftrightarrow> candidate p s n"
proof -
  assume n: "n < length p" "n \<le> length s"
  have "(\<exists>r. s = r @ take n p) \<longleftrightarrow> drop (length s - n) s = take n p"
  proof
    assume "\<exists>r. s = r @ take n p"
    then show "drop (length s - n) s = take n p" using n by auto
  next
    assume "drop (length s - n) s = take n p"
    then show "\<exists>r. s = r @ take n p" by (metis append_take_drop_id)
  qed
  then show ?thesis using n by (simp add: ends_with_iff candidate_def)
qed

lemma find_down:
  "case find P (rev [1..<n]) of
     Some k \<Rightarrow> P k \<and> 1 \<le> k \<and> k < n \<and> (\<forall>j. k < j \<and> j < n \<longrightarrow> \<not> P j)
   | None \<Rightarrow> \<forall>j. 1 \<le> j \<and> j < n \<longrightarrow> \<not> P j"
proof (induction n)
  case 0
  then show ?case by simp
next
  case (Suc n)
  then show ?case by (cases "n = 0"; cases "P n") (auto simp: less_Suc_eq split: option.splits)
qed

lemma retained_max: "p \<noteq> [] \<Longrightarrow> candidate p s (retained p s) \<and> (\<forall>n. candidate p s n \<longrightarrow> n \<le> retained p s)"
proof -
  assume p: "p \<noteq> []"
  let ?N = "min (length p) (length s + 1)"
  have e: "ends_with (take n p) s \<longleftrightarrow> candidate p s n" if "n < ?N" for n
    using that by (intro ends_with_take) auto
  have N: "candidate p s n \<Longrightarrow> n < ?N" for n by (auto simp: candidate_def)
  show ?thesis
  proof (cases "find (\<lambda>n. ends_with (take n p) s) (rev [1..<?N])")
    case None
    have none: "\<forall>j. 1 \<le> j \<and> j < ?N \<longrightarrow> \<not> ends_with (take j p) s"
      using find_down [where P = "\<lambda>n. ends_with (take n p) s" and n = ?N] unfolding None by simp
    have "n \<le> 0" if c: "candidate p s n" for n
    proof (rule ccontr)
      assume "\<not> n \<le> 0"
      then have "\<not> ends_with (take n p) s" using none N [OF c] by simp
      then show False using e [OF N [OF c]] c by simp
    qed
    moreover have "candidate p s 0" using p by (simp add: candidate_def)
    moreover have "retained p s = 0" unfolding retained_def None by simp
    ultimately show ?thesis by simp
  next
    case (Some k)
    have k: "ends_with (take k p) s" "k < ?N" and m: "\<forall>j. k < j \<and> j < ?N \<longrightarrow> \<not> ends_with (take j p) s"
      using find_down [where P = "\<lambda>n. ends_with (take n p) s" and n = ?N] unfolding Some by simp_all
    have "n \<le> k" if c: "candidate p s n" for n
    proof (rule ccontr)
      assume "\<not> n \<le> k"
      then have "\<not> ends_with (take n p) s" using m N [OF c] by simp
      then show False using e [OF N [OF c]] c by simp
    qed
    moreover have "candidate p s k" using e k by blast
    moreover have "retained p s = k" unfolding retained_def Some by simp
    ultimately show ?thesis by simp
  qed
qed

lemma retained_eqI: "p \<noteq> [] \<Longrightarrow> candidate p s n \<Longrightarrow> (\<And>m. candidate p s m \<Longrightarrow> m \<le> n) \<Longrightarrow> retained p s = n"
  using retained_max [of p s] by (meson le_antisym)

section \<open>Text without a marker may be passed on piece by piece\<close>

lemma window_append:
  assumes "p \<noteq> []" "find_window p s = Some k" shows "find_window p (s @ ys) = Some k"
proof -
  have k: "take (length p) (drop k s) = p" and m: "\<forall>j<k. take (length p) (drop j s) \<noteq> p"
    using assms by (auto simp: find_window_Some_iff)
  have len: "length p \<le> length s - k" using k by (metis length_drop length_take min.cobounded1 min.absorb_iff2)
  have t: "take (length p) (drop j (s @ ys)) = take (length p) (drop j s)" if "j \<le> k" for j
  proof -
    have "j \<le> length s" "length p \<le> length (drop j s)" using that len assms(1) by (cases p; simp)+
    then show ?thesis by simp
  qed
  have "\<forall>j<k. take (length p) (drop j (s @ ys)) \<noteq> p" using m t by (metis less_imp_le)
  then show ?thesis unfolding find_window_Some_iff [OF assms(1)] using k t [of k] by simp
qed

text \<open>The bytes that are emitted when no marker is found: none starts in them, whatever follows.\<close>

lemma no_start:
  assumes p: "p \<noteq> []" and none: "find_window p (e @ t) = None" and t: "length t = retained p (e @ t)"
    and j: "j < length e" and n: "0 < n" "n \<le> length p" "take n (drop j (e @ t @ ys)) = take n p"
  shows "length (e @ t) - j > n"
proof (rule ccontr)
  assume "\<not> n < length (e @ t) - j"
  then have le: "length (e @ t) - j \<le> n" by simp
  define rem where "rem = e @ t"
  define m where "m = length rem - j"
  have jr: "j \<le> length rem" using j by (simp add: rem_def)
  then have d: "drop j (e @ t @ ys) = drop j rem @ ys" by (simp add: rem_def)
  have len: "length (drop j rem) = m" by (simp add: m_def)
  have mn: "m \<le> n" using le by (simp add: m_def rem_def)
  have pre: "drop j (e @ t) = take m p"
  proof -
    have "take m (take n (drop j rem @ ys)) = take m (take n p)" using n(3) unfolding d by simp
    moreover have "take m (take n (drop j rem @ ys)) = drop j rem" using mn len by (simp add: min_def)
    moreover have "take m (take n p) = take m p" using mn by (simp add: min_def)
    ultimately show ?thesis by (simp only: rem_def)
  qed
  show False
  proof (cases "m < length p")
    case True
    have "candidate p (e @ t) m"
      using True pre jr unfolding candidate_def by (simp add: m_def rem_def)
    then have "m \<le> length t" using retained_max [OF p, of "e @ t"] t by simp
    then show False using j by (simp add: m_def rem_def)
  next
    case False
    then have "take (length p) (drop j (e @ t)) = p" using pre by simp
    then show False using none p by (simp add: find_window_None_iff)
  qed
qed

lemma no_early:
  assumes p: "p \<noteq> []" and none: "find_window p (e @ t) = None" and t: "length t = retained p (e @ t)" and j: "j < length e"
  shows "take (length p) (drop j (e @ t @ ys)) \<noteq> p"
proof
  assume a: "take (length p) (drop j (e @ t @ ys)) = p"
  then have "length (e @ t) - j > length p" using no_start [OF p none t j, of "length p" ys] p by simp
  then have "take (length p) (drop j (e @ t)) = p" using a j by simp
  then show False using none p by (simp add: find_window_None_iff)
qed

lemma split_window:
  assumes p: "p \<noteq> []" and none: "find_window p (e @ t) = None" and t: "length t = retained p (e @ t)"
  shows "find_window p (e @ t @ ys) = map_option (\<lambda>k. length e + k) (find_window p (t @ ys))"
proof -
  note early = no_early [OF assms, of _ ys]
  have late: "drop (length e + k) (e @ t @ ys) = drop k (t @ ys)" for k by simp
  show ?thesis
  proof (cases "find_window p (t @ ys)")
    case None
    have "take (length p) (drop j (e @ t @ ys)) \<noteq> p" for j
    proof (cases "j < length e")
      case False
      then obtain k where "j = length e + k" by (metis le_iff_add not_less)
      then show ?thesis using None late [of k] p by (simp add: find_window_None_iff)
    qed (rule early)
    then have "find_window p (e @ t @ ys) = None" using p by (simp add: find_window_None_iff)
    then show ?thesis using None by simp
  next
    case (Some k)
    then have k: "take (length p) (drop k (t @ ys)) = p" "\<forall>j<k. take (length p) (drop j (t @ ys)) \<noteq> p"
      using p by (simp_all add: find_window_Some_iff)
    have "take (length p) (drop j (e @ t @ ys)) \<noteq> p" if "j < length e + k" for j
    proof (cases "j < length e")
      case False
      then obtain i where "j = length e + i" by (metis le_iff_add not_less)
      then show ?thesis using k(2) late [of i] that by simp
    qed (rule early)
    then have "find_window p (e @ t @ ys) = Some (length e + k)"
      unfolding find_window_Some_iff [OF p] late using k(1) by blast
    then show ?thesis using Some by simp
  qed
qed

lemma split_retained:
  assumes p: "p \<noteq> []" and none: "find_window p (e @ t) = None" and t: "length t = retained p (e @ t)"
  shows "retained p (e @ t @ ys) = retained p (t @ ys)"
proof (rule retained_eqI [OF p])
  have c: "candidate p (t @ ys) (retained p (t @ ys))" and m: "\<And>n. candidate p (t @ ys) n \<Longrightarrow> n \<le> retained p (t @ ys)"
    using retained_max [OF p] by blast+
  have d: "drop (length (e @ t @ ys) - n) (e @ t @ ys) = drop (length (t @ ys) - n) (t @ ys)" if "n \<le> length (t @ ys)" for n
    using that by simp
  show "candidate p (e @ t @ ys) (retained p (t @ ys))"
    using c d [of "retained p (t @ ys)"] by (simp add: candidate_def)
  fix n assume n: "candidate p (e @ t @ ys) n"
  show "n \<le> retained p (t @ ys)"
  proof (cases "n \<le> length (t @ ys)")
    case True
    then show ?thesis using n m [of n] d [of n] by (simp add: candidate_def)
  next
    case False
    let ?j = "length (e @ t @ ys) - n"
    have j: "?j < length e" using False n by (auto simp: candidate_def)
    have le: "n \<le> length (e @ t @ ys)" and lt: "n < length p" and eq: "drop ?j (e @ t @ ys) = take n p"
      using n by (simp_all add: candidate_def)
    have "length (drop ?j (e @ t @ ys)) = n" using le by simp
    then have "take n (drop ?j (e @ t @ ys)) = take n p" using eq by simp
    then have "n < length (e @ t) - ?j" using no_start [OF p none t j, of n ys] False lt by simp
    then show ?thesis using le by simp
  qed
qed

section \<open>The decoder\<close>

record decoder =
  de_id :: string
  de_pending :: string
  de_in_frame :: bool
  de_completion :: "int option"

definition new_decoder :: "string \<Rightarrow> decoder" where
  "new_decoder i = \<lparr>de_id = i, de_pending = [], de_in_frame = False, de_completion = None\<rparr>"

definition write_line :: "string \<Rightarrow> (terminal, unit) act" where
  "write_line l = seq (write_all (trim_end_matches (\<lambda>c. c = char_cr \<or> c = char_nl) l)) (\<lambda>_. write_all [char_cr, char_nl])"

definition handle_frame ::
  "(string \<Rightarrow> response result) \<Rightarrow> string \<Rightarrow> int option \<Rightarrow> string \<Rightarrow> (terminal, int option) act" where
  "handle_frame parse i completion body =
     seq (lift_r (with_context ''invalid framed activator response'' (parse body))) (\<lambda>r.
     if rs_id r \<noteq> i then ret completion
     else
       seq (check (completion = None) ''activator sent another response after completion'') (\<lambda>_.
       case rs_kind r of
         Complete \<Rightarrow>
           seq (lift_r (ok_or ''activator completion is missing its exit code'' (rs_exit_code r))) (\<lambda>c. ret (Some c))
       | _ \<Rightarrow> seq (each write_line (split_inclusive char_nl (rs_data r))) (\<lambda>_. ret completion)))"

text \<open>The loop of \<open>push\<close> on the bytes after the cursor; what it returns last stays pending.\<close>

function push_loop ::
  "(string \<Rightarrow> response result) \<Rightarrow> string \<Rightarrow> bool \<Rightarrow> int option \<Rightarrow> string \<Rightarrow> (terminal, bool \<times> int option \<times> string) act" where
  "push_loop parse i in_frame completion remaining =
     (if remaining = [] then ret (in_frame, completion, [])
      else if in_frame then
        (case split_once char_nl remaining of
           None \<Rightarrow> ret (True, completion, remaining)
         | Some (body, rest) \<Rightarrow>
             seq (handle_frame parse i completion body) (\<lambda>c. push_loop parse i False c rest))
      else
        (case find_window FRAME_PREFIX remaining of
           Some start \<Rightarrow>
             seq (write_all (take start remaining)) (\<lambda>_.
             push_loop parse i True completion (drop (start + length FRAME_PREFIX) remaining))
         | None \<Rightarrow>
             (let emitted = length remaining - retained FRAME_PREFIX remaining in
              seq (write_all (take emitted remaining)) (\<lambda>_.
              ret (False, completion, drop emitted remaining)))))"
  by pat_completeness auto
termination
  by (relation "measure (\<lambda>(_, _, _, _, r). length r)") (auto simp: split_once_Some_iff FRAME_PREFIX_def)

declare push_loop.simps [simp del]

definition push_bytes :: "(string \<Rightarrow> response result) \<Rightarrow> string \<Rightarrow> decoder \<Rightarrow> (terminal, decoder) act" where
  "push_bytes parse bytes d =
     seq (push_loop parse (de_id d) (de_in_frame d) (de_completion d) (de_pending d @ bytes)) (\<lambda>(f, c, p).
     ret (d\<lparr>de_pending := p, de_in_frame := f, de_completion := c\<rparr>))"

definition finish :: "decoder \<Rightarrow> (terminal, int) act" where
  "finish d =
     seq (check (\<not> de_in_frame d) ''SSH closed during an activator response frame'') (\<lambda>_.
     seq (write_all (de_pending d)) (\<lambda>_.
     lift_r (ok_or ''SSH closed without a matching activator completion'' (de_completion d))))"

text \<open>What one \<open>read\<close> returns; no bytes is the end of the stream, as is the end of the list.\<close>

datatype read_outcome = Chunk string | Interrupted | ReadError

fun stream_loop :: "(string \<Rightarrow> response result) \<Rightarrow> decoder \<Rightarrow> read_outcome list \<Rightarrow> (terminal, int) act" where
  "stream_loop parse d [] = finish d"
| "stream_loop parse d (Interrupted # rs) = stream_loop parse d rs"
| "stream_loop parse d (ReadError # rs) = lift_r (Inl (Context ''read SSH activation output'' (Msg ''os error'')))"
| "stream_loop parse d (Chunk b # rs) =
     (if b = [] then finish d else seq (push_bytes parse b d) (\<lambda>d. stream_loop parse d rs))"

definition ssh_stream :: "(string \<Rightarrow> response result) \<Rightarrow> string \<Rightarrow> read_outcome list \<Rightarrow> (terminal, int) act" where
  "ssh_stream parse i reads = stream_loop parse (new_decoder i) reads"

section \<open>Cutting the stream elsewhere\<close>

lemma prefix_not_Nil [simp]: "FRAME_PREFIX \<noteq> []" by (simp add: FRAME_PREFIX_def)

definition settled :: "bool \<Rightarrow> string \<Rightarrow> bool" where
  "settled in_frame pending \<longleftrightarrow>
     (if in_frame then char_nl \<notin> set pending
      else find_window FRAME_PREFIX pending = None \<and> retained FRAME_PREFIX pending = length pending)"

lemma settled_loop: "settled f p \<Longrightarrow> push_loop parse i f c p = ret (f, c, p)"
  by (subst push_loop.simps) (auto simp: settled_def split_once_notin write_all_Nil)

lemma retained_le: "retained FRAME_PREFIX s \<le> length s"
  using retained_max [OF prefix_not_Nil, of s] by (simp add: candidate_def)

lemma loop_marker:
  "s \<noteq> [] \<Longrightarrow> find_window FRAME_PREFIX s = Some k \<Longrightarrow> push_loop parse i False c s =
     seq (write_all (take k s)) (\<lambda>_. push_loop parse i True c (drop (k + length FRAME_PREFIX) s))"
  by (subst push_loop.simps) simp

lemma loop_plain:
  "s \<noteq> [] \<Longrightarrow> find_window FRAME_PREFIX s = None \<Longrightarrow> push_loop parse i False c s =
     seq (write_all (take (length s - retained FRAME_PREFIX s) s))
       (\<lambda>_. ret (False, c, drop (length s - retained FRAME_PREFIX s) s))"
  by (subst push_loop.simps) (simp add: Let_def)

lemma loop_waiting: "char_nl \<notin> set s \<Longrightarrow> push_loop parse i True c s = ret (True, c, s)"
  by (subst push_loop.simps) (simp add: split_once_notin)

lemma loop_frame:
  "char_nl \<notin> set body \<Longrightarrow> push_loop parse i True c (body @ char_nl # rest) =
     seq (handle_frame parse i c body) (\<lambda>c. push_loop parse i False c rest)"
  by (subst push_loop.simps) (simp add: split_once_append)

lemma loop_Nil: "push_loop parse i f c [] = ret (f, c, [])"
  by (subst push_loop.simps) simp

text \<open>The rounds of the loop as an induction rule: nothing left, a frame without its end, a whole frame, text up to a
  marker, text without one.\<close>

lemma loop_induct [case_names empty waiting frame marker plain]:
  assumes "\<And>f c. P f c []"
    and "\<And>c s. char_nl \<notin> set s \<Longrightarrow> P True c s"
    and frame: "\<And>c body rest. char_nl \<notin> set body \<Longrightarrow> (\<And>c'. P False c' rest) \<Longrightarrow> P True c (body @ char_nl # rest)"
    and marker: "\<And>c s k. s \<noteq> [] \<Longrightarrow> find_window FRAME_PREFIX s = Some k \<Longrightarrow> P True c (drop (k + length FRAME_PREFIX) s) \<Longrightarrow> P False c s"
    and plain: "\<And>c s. s \<noteq> [] \<Longrightarrow> find_window FRAME_PREFIX s = None \<Longrightarrow> P False c s"
  shows "P f c s"
proof (induction "length s" arbitrary: f c s rule: less_induct)
  case less
  have shorter: "length (drop (k + length FRAME_PREFIX) s) < length s" if "s \<noteq> []" for k
    using that by (simp add: FRAME_PREFIX_def)
  consider "s = []" | "f" "char_nl \<notin> set s" | body rest where "f" "s = body @ char_nl # rest" "char_nl \<notin> set body"
    | k where "\<not> f" "s \<noteq> []" "find_window FRAME_PREFIX s = Some k" | "\<not> f" "s \<noteq> []" "find_window FRAME_PREFIX s = None"
    by (metis not_Some_eq split_list_first)
  then show ?case
    by cases (use assms less shorter in auto)
qed

lemma loop_outside:
  assumes none: "find_window FRAME_PREFIX (e @ t) = None" and t: "length t = retained FRAME_PREFIX (e @ t)"
  shows "push_loop parse i False c (e @ t @ ys) = seq (write_all e) (\<lambda>_. push_loop parse i False c (t @ ys))"
proof (cases "t @ ys = []")
  case True
  then have "t = []" "ys = []" by auto
  moreover have "find_window FRAME_PREFIX e = None" "retained FRAME_PREFIX e = 0" using none t calculation by simp_all
  ultimately show ?thesis
    by (cases "e = []") (simp_all add: push_loop.simps [of _ _ False] write_all_Nil)
next
  case ne: False
  note s = split_window [OF prefix_not_Nil none t, of ys] split_retained [OF prefix_not_Nil none t, of ys]
  define z where "z = t @ ys"
  have z: "z \<noteq> []" "e @ z \<noteq> []" using ne by (auto simp: z_def)
  show ?thesis
    unfolding z_def [symmetric]
  proof (cases "find_window FRAME_PREFIX z")
    case (Some k)
    then have "find_window FRAME_PREFIX (e @ z) = Some (length e + k)" using s(1) by (simp add: z_def)
    then show "push_loop parse i False c (e @ z) = seq (write_all e) (\<lambda>_. push_loop parse i False c z)"
      using z Some by (simp add: loop_marker write_all_append seq_seq add.assoc)
  next
    case None
    then have n: "find_window FRAME_PREFIX (e @ z) = None" and r: "retained FRAME_PREFIX (e @ z) = retained FRAME_PREFIX z"
      using s by (simp_all add: z_def)
    have le: "retained FRAME_PREFIX z \<le> length z" by (rule retained_le)
    then have "length (e @ z) - retained FRAME_PREFIX z = length e + (length z - retained FRAME_PREFIX z)" by simp
    then have tk: "take (length (e @ z) - retained FRAME_PREFIX z) (e @ z) = e @ take (length z - retained FRAME_PREFIX z) z"
      "drop (length (e @ z) - retained FRAME_PREFIX z) (e @ z) = drop (length z - retained FRAME_PREFIX z) z"
      by simp_all
    show "push_loop parse i False c (e @ z) = seq (write_all e) (\<lambda>_. push_loop parse i False c z)"
      unfolding loop_plain [OF z(2) n] loop_plain [OF z(1) None] r tk write_all_append seq_seq ..
  qed
qed

lemma marker_fits: "find_window FRAME_PREFIX s = Some k \<Longrightarrow> k + length FRAME_PREFIX \<le> length s"
proof -
  assume "find_window FRAME_PREFIX s = Some k"
  then have "take (length FRAME_PREFIX) (drop k s) = FRAME_PREFIX" by (simp add: find_window_Some_iff)
  then have "length FRAME_PREFIX \<le> length s - k" by (metis length_drop length_take min.cobounded1 min.absorb_iff2)
  moreover have "0 < length FRAME_PREFIX" by (simp add: FRAME_PREFIX_def)
  ultimately show ?thesis by arith
qed

lemma loop_append:
  "push_loop parse i f c (s @ ys) = seq (push_loop parse i f c s) (\<lambda>(f, c, p). push_loop parse i f c (p @ ys))"
proof (induction f c s rule: loop_induct)
  case (empty f c)
  then show ?case by (simp add: loop_Nil)
next
  case (waiting c s)
  then show ?case by (simp add: loop_waiting)
next
  case (frame c body rest)
  have "push_loop parse i True c ((body @ char_nl # rest) @ ys) = seq (handle_frame parse i c body) (\<lambda>c. push_loop parse i False c (rest @ ys))"
    using loop_frame [OF frame(1)] by simp
  then show ?case using frame(2) by (simp add: loop_frame [OF frame(1)] seq_seq)
next
  case (marker c s k)
  have "find_window FRAME_PREFIX (s @ ys) = Some k" by (rule window_append [OF prefix_not_Nil marker(2)])
  then show ?case using marker marker_fits [OF marker(2)] by (simp add: loop_marker seq_seq)
next
  case (plain c s)
  define em where "em = length s - retained FRAME_PREFIX s"
  have len: "length (drop em s) = retained FRAME_PREFIX s" using retained_le [of s] by (simp add: em_def)
  have "push_loop parse i False c (take em s @ drop em s @ ys) = seq (write_all (take em s)) (\<lambda>_. push_loop parse i False c (drop em s @ ys))"
    by (rule loop_outside) (use plain len in simp_all)
  then show ?case using plain by (simp add: loop_plain seq_seq em_def flip: append_assoc)
qed

lemma retained_settled:
  assumes "find_window FRAME_PREFIX s = None"
  shows "settled False (drop (length s - retained FRAME_PREFIX s) s)"
proof -
  let ?n = "retained FRAME_PREFIX s" and ?p = "drop (length s - retained FRAME_PREFIX s) s"
  have c: "candidate FRAME_PREFIX s ?n" using retained_max [OF prefix_not_Nil] by blast
  have p: "?p = take ?n FRAME_PREFIX" and n: "?n < length FRAME_PREFIX" and len: "length ?p = ?n"
    using c by (auto simp: candidate_def)
  have "candidate FRAME_PREFIX ?p (length ?p)" unfolding candidate_def len using n p by simp
  then have "retained FRAME_PREFIX ?p = length ?p"
    by (intro retained_eqI) (simp_all add: candidate_def)
  moreover have "find_window FRAME_PREFIX ?p = None" using assms by (simp add: find_window_None_iff)
  ultimately show ?thesis by (simp add: settled_def)
qed

lemma loop_settled: "push_loop parse i f c s w = (Inr (f', c', p'), w') \<Longrightarrow> settled f' p'"
proof (induction f c s arbitrary: w rule: loop_induct)
  case (empty f c)
  then show ?case by (auto simp: loop_Nil settled_def retained_def)
next
  case (waiting c s)
  then show ?case by (auto simp: loop_waiting settled_def)
next
  case (frame c body rest)
  then show ?case by (auto simp: loop_frame seq_eq_Inr)
next
  case (marker c s k)
  then show ?case by (auto simp: loop_marker seq_eq_Inr)
next
  case (plain c s)
  then show ?case using retained_settled [OF plain(2)] by (auto simp: loop_plain seq_eq_Inr)
qed

definition at_rest :: "decoder \<Rightarrow> bool" where
  "at_rest d \<longleftrightarrow> settled (de_in_frame d) (de_pending d)"

interpretation ssh: chunk_consumer "push_bytes parse" at_rest for parse
proof
  fix d xs ys and w w' :: terminal and d'
  show "at_rest d \<Longrightarrow> push_bytes parse [] d = ret d"
    by (simp add: push_bytes_def at_rest_def settled_loop)
  show "push_bytes parse xs d w = (Inr d', w') \<Longrightarrow> at_rest d'"
    by (auto simp: push_bytes_def at_rest_def seq_eq_Inr dest: loop_settled)
  have "push_bytes parse (xs @ ys) d = seq (push_bytes parse xs d) (push_bytes parse ys)"
    unfolding push_bytes_def append_assoc [symmetric] loop_append [of _ _ _ _ "de_pending d @ xs"] seq_seq
    by (rule seq_cong) (auto simp: push_bytes_def)
  then show "at_rest d \<Longrightarrow> push_bytes parse (xs @ ys) d = seq (push_bytes parse xs d) (push_bytes parse ys)" by simp
qed

text \<open>All bytes of the reads up to the end of the stream.\<close>

fun read_bytes :: "read_outcome list \<Rightarrow> string result" where
  "read_bytes [] = Inr []"
| "read_bytes (Interrupted # rs) = read_bytes rs"
| "read_bytes (ReadError # rs) = Inl (Msg ''os error'')"
| "read_bytes (Chunk b # rs) = (if b = [] then Inr [] else bind_r (read_bytes rs) (\<lambda>s. Inr (b @ s)))"

fun chunks :: "read_outcome list \<Rightarrow> string list" where
  "chunks [] = []"
| "chunks (Interrupted # rs) = chunks rs"
| "chunks (ReadError # rs) = []"
| "chunks (Chunk b # rs) = (if b = [] then [] else b # chunks rs)"

lemma concat_chunks: "read_bytes rs = Inr s \<Longrightarrow> concat (chunks rs) = s"
  by (induction rs arbitrary: s rule: read_bytes.induct) (auto simp: result_simps split: if_splits)

lemma stream_feed: "read_bytes rs = Inr s \<Longrightarrow> stream_loop parse d rs = seq (feed (push_bytes parse) (chunks rs) d) finish"
proof (induction parse d rs arbitrary: s rule: stream_loop.induct)
  case (4 parse d b rs)
  show ?case
  proof (cases "b = []")
    case False
    then obtain s' where "read_bytes rs = Inr s'" using 4(2) by (auto simp: result_simps)
    then show ?thesis using 4(1) [OF False] False by (simp add: seq_seq)
  qed simp
qed simp_all

lemma new_at_rest [simp]: "at_rest (new_decoder i)"
  by (simp add: at_rest_def new_decoder_def settled_def retained_def)

lemma stream_pushes:
  "read_bytes rs = Inr s \<Longrightarrow> ssh_stream parse i rs = seq (push_bytes parse s (new_decoder i)) finish"
  unfolding ssh_stream_def by (simp add: stream_feed ssh.feed_concat concat_chunks)

text \<open>C22: What the terminal shows, and whether and with which exit code the activation ends, depends only on the
  bytes SSH delivered, not on how they were cut into reads nor on interrupted reads, even when a cut falls inside
  a marker or a frame and even when the terminal fails.\<close>

theorem stream_cut_invariant:
  assumes "read_bytes rs = Inr s" "read_bytes qs = Inr s"
  shows "ssh_stream parse i rs t = ssh_stream parse i qs t"
  using assms by (simp add: stream_pushes)

section \<open>What a session means\<close>

text \<open>A session as the remote side writes it: text of the terminal and framed lines.\<close>

datatype item = Text string | Frame string

fun render :: "item list \<Rightarrow> string" where
  "render [] = []"
| "render (Text s # its) = s @ render its"
| "render (Frame b # its) = FRAME_PREFIX @ b @ char_nl # render its"

fun valid_item :: "item \<Rightarrow> bool" where
  "valid_item (Text s) = (CHR 0x1E \<notin> set s)"
| "valid_item (Frame b) = (char_nl \<notin> set b)"

fun replay :: "(string \<Rightarrow> response result) \<Rightarrow> string \<Rightarrow> int option \<Rightarrow> item list \<Rightarrow> (terminal, int option) act" where
  "replay parse i c [] = ret c"
| "replay parse i c (Text s # its) = seq (write_all s) (\<lambda>_. replay parse i c its)"
| "replay parse i c (Frame b # its) = seq (handle_frame parse i c b) (\<lambda>c. replay parse i c its)"

lemma loop_text:
  assumes "CHR 0x1E \<notin> set s"
  shows "push_loop parse i False c s = seq (write_all s) (\<lambda>_. ret (False, c, []))"
proof (cases "s = []")
  case True
  then show ?thesis by (simp add: push_loop.simps [of _ _ _ _ "[]"] write_all_Nil)
next
  case ne: False
  have "find_window FRAME_PREFIX s = None"
  proof -
    have "CHR 0x1E \<notin> set (take (length FRAME_PREFIX) (drop j s))" for j
      using assms by (meson in_set_dropD in_set_takeD)
    moreover have "CHR 0x1E \<in> set FRAME_PREFIX" by (simp add: FRAME_PREFIX_def)
    ultimately have "take (length FRAME_PREFIX) (drop j s) \<noteq> FRAME_PREFIX" for j by metis
    then show ?thesis by (simp add: find_window_None_iff)
  qed
  moreover have "retained FRAME_PREFIX s = 0"
  proof (rule ccontr)
    assume "retained FRAME_PREFIX s \<noteq> 0"
    then obtain n where n: "retained FRAME_PREFIX s = Suc n" by (cases "retained FRAME_PREFIX s") auto
    have "drop (length s - Suc n) s = take (Suc n) FRAME_PREFIX"
      using retained_max [OF prefix_not_Nil, of s] by (simp add: candidate_def n)
    then have "CHR 0x1E \<in> set (drop (length s - Suc n) s)" by (simp add: FRAME_PREFIX_def)
    then show False using assms by (meson in_set_dropD)
  qed
  ultimately show ?thesis using ne by (simp add: loop_plain)
qed

lemma loop_framed:
  assumes "char_nl \<notin> set b"
  shows "push_loop parse i False c (FRAME_PREFIX @ b @ char_nl # r) = seq (handle_frame parse i c b) (\<lambda>c. push_loop parse i False c r)"
proof -
  have "find_window FRAME_PREFIX (FRAME_PREFIX @ b @ char_nl # r) = Some 0"
    by (simp add: find_window_Some_iff)
  then have "push_loop parse i False c (FRAME_PREFIX @ b @ char_nl # r) = push_loop parse i True c (b @ char_nl # r)"
    by (simp add: loop_marker write_all_Nil)
  also have "\<dots> = seq (handle_frame parse i c b) (\<lambda>c. push_loop parse i False c r)"
    by (subst push_loop.simps) (simp add: split_once_append [OF assms])
  finally show ?thesis .
qed

lemma loop_render:
  "list_all valid_item its \<Longrightarrow>
     push_loop parse i False c (render its) = seq (replay parse i c its) (\<lambda>c. ret (False, c, []))"
proof (induction parse i c its rule: replay.induct)
  case (1 parse i c)
  then show ?case by (simp add: push_loop.simps [of _ _ _ _ "[]"])
next
  case (2 parse i c s its)
  then show ?case by (simp add: loop_append [of _ _ _ _ s] loop_text seq_seq)
next
  case (3 parse i c b its)
  then have "push_loop parse i False c' (render its) = seq (replay parse i c' its) (\<lambda>c. ret (False, c, []))" for c' by simp
  then show ?case using 3(2) by (simp add: loop_framed seq_seq)
qed

lemma session_stream:
  assumes "list_all valid_item its" "read_bytes rs = Inr (render its)"
  shows "ssh_stream parse i rs t =
     seq (replay parse i None its)
       (\<lambda>c. lift_r (ok_or ''SSH closed without a matching activator completion'' c)) t"
  unfolding stream_pushes [OF assms(2)] push_bytes_def
  by (simp add: new_decoder_def loop_render [OF assms(1)] seq_seq finish_def write_all_Nil lift_r_def)

text \<open>C23: The decoder implements the meaning of a session: delivered in any pieces, terminal text appears
  unchanged and in order, each framed response is handled where it stands, and the
  result is the exit code of the completion, or an error when there is none.\<close>

theorem stream_replays:
  assumes "list_all valid_item its" "read_bytes rs = Inr (render its)"
  shows "ssh_stream parse i rs t =
     seq (replay parse i None its)
       (\<lambda>c. lift_r (ok_or ''SSH closed without a matching activator completion'' c)) t"
  by (rule session_stream [OF assms])

lemma frame_completes:
  "handle_frame parse i c b w = (Inr (Some code), w') \<Longrightarrow>
     c = Some code \<or> (\<exists>r. parse b = Inr r \<and> rs_id r = i \<and> rs_kind r = Complete \<and> rs_exit_code r = Some code)"
  by (auto simp: handle_frame_def seq_eq_Inr result_simps split: if_splits response_type.splits)

lemma loop_completes:
  "push_loop parse i f c s w = (Inr (f', Some code, p'), w') \<Longrightarrow>
     c = Some code \<or> (\<exists>a b e r. (s = a @ FRAME_PREFIX @ b @ char_nl # e \<or> f \<and> s = b @ char_nl # e)
        \<and> parse b = Inr r \<and> rs_id r = i \<and> rs_kind r = Complete \<and> rs_exit_code r = Some code)"
proof (induction f c s arbitrary: w rule: loop_induct)
  case (empty f c)
  then show ?case by (simp add: loop_Nil)
next
  case (waiting c s)
  then show ?case by (simp add: loop_waiting)
next
  case (frame c body rest)
  obtain c' w1 where h: "handle_frame parse i c body w = (Inr c', w1)"
    and l: "push_loop parse i False c' rest w1 = (Inr (f', Some code, p'), w')"
    using frame(3) by (auto simp: loop_frame [OF frame(1)] seq_eq_Inr)
  from frame(2) [OF l] show ?case
  proof
    assume "c' = Some code"
    then show ?thesis using frame_completes [of parse i c body w code w1] h by blast
  next
    assume "\<exists>a b e r. (rest = a @ FRAME_PREFIX @ b @ char_nl # e \<or> False \<and> rest = b @ char_nl # e)
      \<and> parse b = Inr r \<and> rs_id r = i \<and> rs_kind r = Complete \<and> rs_exit_code r = Some code"
    then obtain a b e' r where "rest = a @ FRAME_PREFIX @ b @ char_nl # e'"
      and "parse b = Inr r \<and> rs_id r = i \<and> rs_kind r = Complete \<and> rs_exit_code r = Some code" by blast
    then show ?thesis by (metis append.assoc append_Cons)
  qed
next
  case (marker c s k)
  let ?r = "drop (k + length FRAME_PREFIX) s"
  have e: "s = take k s @ FRAME_PREFIX @ ?r"
    using marker(2) by (metis append_take_drop_id drop_drop find_window_Some_iff prefix_not_Nil add.commute)
  obtain w1 where l: "push_loop parse i True c ?r w1 = (Inr (f', Some code, p'), w')"
    using marker(4) by (auto simp: loop_marker [OF marker(1,2)] seq_eq_Inr)
  show ?case using marker(3) [OF l] by (elim disjE exE conjE) (use e in \<open>metis append.assoc\<close>)+
next
  case (plain c s)
  then show ?case by (auto simp: loop_plain seq_eq_Inr)
qed

text \<open>The deployment is believed to have ended only on the activator's word: an exit code is returned only
  if the stream holds a marked line whose response carries the id of the request, is a completion and
  has that exit code.  Text of the terminal, however it looks without the marker, is never taken for it.\<close>

theorem completion_is_framed:
  assumes "read_bytes rs = Inr s" "ssh_stream parse i rs t = (Inr code, t')"
  shows "\<exists>a b e r. s = a @ FRAME_PREFIX @ b @ char_nl # e \<and> parse b = Inr r
     \<and> rs_id r = i \<and> rs_kind r = Complete \<and> rs_exit_code r = Some code"
proof -
  obtain f p w where "push_loop parse i False None s t = (Inr (f, Some code, p), w)"
    using assms by (auto simp: stream_pushes push_bytes_def finish_def seq_eq_Inr new_decoder_def result_simps)
  from loop_completes [OF this] show ?thesis by blast
qed

section \<open>An example\<close>

definition sample_parse :: "string \<Rightarrow> response result" where
  "sample_parse b = (if b = ''done'' then Inr (response_complete ''7'' 0) else Inl (Msg ''bad''))"

definition sample_items :: "item list" where
  "sample_items = [Text ''password: '', Frame ''done'', Text ''bye'']"

definition sample_reads :: "read_outcome list" where
  "sample_reads = [Chunk (''password: '' @ [CHR 0x1E] @ ''sower-act''), Interrupted,
     Chunk (''ivator'' @ [CHR 0x1F] @ ''do''), Chunk (''ne'' @ [char_nl] @ ''bye''), Chunk [], Chunk ''ignored'']"

definition open_terminal :: terminal where
  "open_terminal = \<lparr>te_out = [], te_room = None\<rparr>"

lemma sample_bytes:
  "list_all valid_item sample_items" "read_bytes sample_reads = Inr (render sample_items)"
  "read_bytes [Chunk (render sample_items)] = Inr (render sample_items)"
  by (simp_all add: sample_items_def sample_reads_def FRAME_PREFIX_def)

lemma sample_replay:
  "seq (replay sample_parse ''7'' None sample_items)
     (\<lambda>c. lift_r (ok_or ''SSH closed without a matching activator completion'' c)) open_terminal
   = (Inr 0, open_terminal\<lparr>te_out := ''password: bye''\<rparr>)"
  by (simp add: sample_items_def sample_parse_def open_terminal_def handle_frame_def seq_def write_all_def
      response_complete_def)

theorem stream_cut_invariant_witness:
  "ssh_stream sample_parse ''7'' sample_reads open_terminal
   = ssh_stream sample_parse ''7'' [Chunk (render sample_items)] open_terminal"
  using stream_cut_invariant [OF sample_bytes(2,3)] by simp

theorem stream_replays_witness:
  "ssh_stream sample_parse ''7'' sample_reads open_terminal = (Inr 0, open_terminal\<lparr>te_out := ''password: bye''\<rparr>)"
  using stream_replays [OF sample_bytes(1,2), of sample_parse "''7''" open_terminal] sample_replay by simp

lemma sample_stream:
  "ssh_stream sample_parse ''7'' [Chunk (render sample_items)] open_terminal
   = (Inr 0, open_terminal\<lparr>te_out := ''password: bye''\<rparr>)"
  using session_stream [OF sample_bytes(1,3), of sample_parse "''7''" open_terminal] sample_replay by simp

theorem completion_is_framed_witness:
  "\<exists>a b e r. render sample_items = a @ FRAME_PREFIX @ b @ char_nl # e \<and> sample_parse b = Inr r
     \<and> rs_id r = ''7'' \<and> rs_kind r = Complete \<and> rs_exit_code r = Some 0"
  by (rule completion_is_framed [OF sample_bytes(3) sample_stream])

end
