(* ===== verification/SshTarget.thy ===== *)
theory SshTarget
  imports Ipv4
begin

text \<open>
  The SSH target and the remote command line of \<open>src/src/commands/deploy/sudo.rs\<close>:
  \<open>Target::parse\<close> with the standard library's IPv6 reader, \<open>shell_quote\<close>, \<open>download_base\<close> and
  \<open>remote_command\<close>.  URLs are parsed by \<open>reqwest\<close>, which is an argument.
\<close>

section \<open>\<open>Ipv6Addr::from_str\<close>\<close>

text \<open>The sources only ask whether the text is an address, so the readers return the rest of the input.\<close>

definition is_hexdigit :: "char \<Rightarrow> bool" where
  "is_hexdigit c = (is_lower_hex c \<or> (65 \<le> (of_char c :: nat) \<and> (of_char c :: nat) \<le> 70))"

definition read_given :: "char \<Rightarrow> string \<Rightarrow> string option" where
  "read_given c s = (case s of [] \<Rightarrow> None | x # xs \<Rightarrow> if x = c then Some xs else None)"

definition read_separator :: "char \<Rightarrow> nat \<Rightarrow> (string \<Rightarrow> string option) \<Rightarrow> string \<Rightarrow> string option" where
  "read_separator c i inner s = (if i = 0 then inner s else Option.bind (read_given c s) inner)"

definition read_group :: "string \<Rightarrow> string option" where
  "read_group s = (let ds = takeWhile is_hexdigit s in
     if ds = [] \<or> 4 < length ds then None else Some (dropWhile is_hexdigit s))"

definition read_octet :: "string \<Rightarrow> string option" where
  "read_octet s = (if parse_octet (takeWhile is_digit s) = None then None else Some (dropWhile is_digit s))"

definition read_v4 :: "string \<Rightarrow> string option" where
  "read_v4 s =
     Option.bind (read_separator CHR ''.'' 0 read_octet s) (\<lambda>s.
     Option.bind (read_separator CHR ''.'' 1 read_octet s) (\<lambda>s.
     Option.bind (read_separator CHR ''.'' 2 read_octet s) (\<lambda>s.
     read_separator CHR ''.'' 3 read_octet s)))"

text \<open>\<open>read_groups\<close> with \<open>k\<close> groups left, the next one being number \<open>i\<close>.\<close>

fun read_groups :: "nat \<Rightarrow> nat \<Rightarrow> string \<Rightarrow> nat \<times> bool \<times> string" where
  "read_groups 0 i s = (i, False, s)"
| "read_groups (Suc k) i s =
     (case (if 0 < k then read_separator CHR '':'' i read_v4 s else None) of
        Some r \<Rightarrow> (i + 2, True, r)
      | None \<Rightarrow> (case read_separator CHR '':'' i read_group s of
          None \<Rightarrow> (i, False, s)
        | Some r \<Rightarrow> read_groups k (Suc i) r))"

definition is_ipv6 :: "string \<Rightarrow> bool" where
  "is_ipv6 s =
     (case read_groups 8 0 s of (n, v4, r) \<Rightarrow>
        if n = 8 then r = []
        else \<not> v4 \<and> (case Option.bind (read_given CHR '':'' r) (read_given CHR '':'') of
            None \<Rightarrow> False
          | Some t \<Rightarrow> snd (snd (read_groups (7 - n) 0 t)) = []))"

definition ipv6_char :: "char \<Rightarrow> bool" where
  "ipv6_char c = (is_hexdigit c \<or> c = CHR '':'' \<or> c = CHR ''.'')"

definition reads :: "string \<Rightarrow> string \<Rightarrow> bool" where
  "reads s r \<longleftrightarrow> (\<exists>u. s = u @ r \<and> list_all ipv6_char u)"

lemma reads_refl: "reads s s" by (simp add: reads_def)

lemma reads_trans: "reads s r \<Longrightarrow> reads r q \<Longrightarrow> reads s q"
  unfolding reads_def by (metis append.assoc list_all_append)

lemma reads_given: "read_given c s = Some r \<Longrightarrow> ipv6_char c \<Longrightarrow> reads s r"
  by (auto simp: read_given_def reads_def split: list.splits if_splits)

lemma reads_while: "(\<And>c. p c \<Longrightarrow> ipv6_char c) \<Longrightarrow> reads s (dropWhile p s)"
  unfolding reads_def by (intro exI [of _ "takeWhile p s"]) (auto simp: list_all_iff dest: set_takeWhileD)

lemma reads_separator:
  assumes "read_separator c i inner s = Some r" "ipv6_char c" "\<And>s r. inner s = Some r \<Longrightarrow> reads s r"
  shows "reads s r"
proof (cases "i = 0")
  case True
  then show ?thesis using assms(1,3) by (simp add: read_separator_def)
next
  case False
  then obtain q where "read_given c s = Some q" "inner q = Some r"
    using assms(1) by (auto simp: read_separator_def bind_eq_Some_conv)
  then show ?thesis using assms reads_given reads_trans by blast
qed

lemma reads_group: "read_group s = Some r \<Longrightarrow> reads s r"
  by (auto simp: read_group_def Let_def ipv6_char_def split: if_splits intro: reads_while)

lemma digit_ipv6: "is_digit c \<Longrightarrow> ipv6_char c"
  by (simp add: ipv6_char_def is_hexdigit_def is_lower_hex_def)

lemma reads_octet: "read_octet s = Some r \<Longrightarrow> reads s r"
  by (auto simp: read_octet_def split: if_splits intro: reads_while digit_ipv6)

lemma reads_v4: "read_v4 s = Some r \<Longrightarrow> reads s r"
proof -
  assume "read_v4 s = Some r"
  then obtain a b c where "read_separator CHR ''.'' 0 read_octet s = Some a" "read_separator CHR ''.'' 1 read_octet a = Some b"
    "read_separator CHR ''.'' 2 read_octet b = Some c" "read_separator CHR ''.'' 3 read_octet c = Some r"
    by (auto simp: read_v4_def bind_eq_Some_conv)
  moreover have "ipv6_char CHR ''.''" by (simp add: ipv6_char_def)
  ultimately show ?thesis using reads_separator [OF _ _ reads_octet] reads_trans by blast
qed

lemma reads_groups: "read_groups k i s = (n, v4, r) \<Longrightarrow> reads s r"
proof (induction k i s rule: read_groups.induct)
  case (1 i s)
  then show ?case by (simp add: reads_refl)
next
  case (2 k i s)
  have colon: "ipv6_char CHR '':''" by (simp add: ipv6_char_def)
  show ?case
  proof (cases "if 0 < k then read_separator CHR '':'' i read_v4 s else None")
    case (Some q)
    then have "reads s q" using reads_separator [OF _ colon reads_v4] by (auto split: if_splits)
    then show ?thesis using 2(2) Some by simp
  next
    case none: None
    show ?thesis
    proof (cases "read_separator CHR '':'' i read_group s")
      case None
      then show ?thesis using 2(2) none by (simp add: reads_refl)
    next
      case (Some q)
      then have "reads s q" using reads_separator [OF _ colon reads_group] by blast
      moreover have "reads q r" using 2(1) [OF none Some] 2(2) none Some by simp
      ultimately show ?thesis by (rule reads_trans)
    qed
  qed
qed

lemma ipv6_chars: "is_ipv6 s \<Longrightarrow> list_all ipv6_char s"
proof -
  assume v: "is_ipv6 s"
  obtain n v4 r where h: "read_groups 8 0 s = (n, v4, r)" by (metis prod_cases3)
  have sr: "reads s r" using reads_groups [OF h] .
  have "reads s []"
  proof (cases "n = 8")
    case True
    then show ?thesis using v h sr by (simp add: is_ipv6_def)
  next
    case False
    then obtain q t where q: "read_given CHR '':'' r = Some q" "read_given CHR '':'' q = Some t"
      and e: "snd (snd (read_groups (7 - n) 0 t)) = []"
      using v h by (auto simp: is_ipv6_def bind_eq_Some_conv split: option.splits)
    obtain m w z where t: "read_groups (7 - n) 0 t = (m, w, z)" by (metis prod_cases3)
    have "reads t []" using reads_groups [OF t] e t by simp
    moreover have "ipv6_char CHR '':''" by (simp add: ipv6_char_def)
    ultimately show ?thesis using sr q reads_given reads_trans by blast
  qed
  then show ?thesis by (simp add: reads_def)
qed

lemma given_mem: "read_given c s = Some r \<Longrightarrow> c \<in> set s"
  by (auto simp: read_given_def split: list.splits if_splits)

lemma separator_mem: "0 < i \<Longrightarrow> read_separator c i inner s = Some r \<Longrightarrow> c \<in> set s"
  by (auto simp: read_separator_def bind_eq_Some_conv dest: given_mem)

lemma groups_colon: "0 < i \<Longrightarrow> read_groups k i s = (n, v4, r) \<Longrightarrow> i < n \<Longrightarrow> CHR '':'' \<in> set s"
  by (cases k) (auto split: option.splits if_splits dest: separator_mem)

lemma reads_set: "reads s r \<Longrightarrow> set r \<subseteq> set s" by (auto simp: reads_def)

lemma ipv6_colon: "is_ipv6 s \<Longrightarrow> CHR '':'' \<in> set s"
proof -
  assume v: "is_ipv6 s"
  obtain n v4 r where h: "read_groups 8 0 s = (n, v4, r)" by (metis prod_cases3)
  show ?thesis
  proof (cases "n = 8")
    case True
    have step: "read_groups 8 0 s =
      (case read_separator CHR '':'' 0 read_v4 s of Some r \<Rightarrow> (0 + 2, True, r)
       | None \<Rightarrow> (case read_separator CHR '':'' 0 read_group s of None \<Rightarrow> (0, False, s)
         | Some r \<Rightarrow> read_groups 7 (Suc 0) r))"
      using read_groups.simps(2) [of 7 0 s] by simp
    then obtain q where q: "read_separator CHR '':'' 0 read_group s = Some q" "read_groups 7 (Suc 0) q = (n, v4, r)"
      using h True by (auto split: option.splits)
    then have "CHR '':'' \<in> set q" using groups_colon [of "Suc 0" 7 q] True by simp
    moreover have "reads s q" using q(1) reads_group by (simp add: read_separator_def)
    ultimately show ?thesis using reads_set by blast
  next
    case False
    then obtain q where "read_given CHR '':'' r = Some q"
      using v h by (auto simp: is_ipv6_def bind_eq_Some_conv split: option.splits)
    then show ?thesis using given_mem reads_set [OF reads_groups [OF h]] by blast
  qed
qed

section \<open>\<open>Target::parse\<close>\<close>

record target =
  tg_host :: string
  tg_user :: "string option"
  tg_port :: "string option"

definition authority_char :: "char \<Rightarrow> bool" where
  "authority_char c = (\<not> (is_ascii_whitespace c \<or> is_control c \<or> c \<in> {CHR ''/'', CHR ''?'', CHR ''#'', CHR ''%''}))"

definition user_char :: "char \<Rightarrow> bool" where
  "user_char c = (is_alphanumeric c \<or> c \<in> set ''._-+'')"

definition host_char :: "char \<Rightarrow> bool" where
  "host_char c = (is_alphanumeric c \<or> c \<in> set ''._-'')"

definition split_user :: "string \<Rightarrow> (string option \<times> string) result" where
  "split_user authority =
     (case split_once CHR ''@'' authority of
        Some (user, address) \<Rightarrow>
          bind_r (ensure (user \<noteq> [] \<and> list_all user_char user) ''invalid SSH target username'') (\<lambda>_.
          Inr (Some user, address))
      | None \<Rightarrow> Inr (None, authority))"

definition split_host :: "string \<Rightarrow> (string \<times> string option) result" where
  "split_host address =
     (case strip_prefix ''['' address of
        Some rest \<Rightarrow>
          bind_r (ok_or ''unterminated IPv6 SSH target'' (split_once CHR '']'' rest)) (\<lambda>(host, suffix).
          bind_r (with_context ''invalid IPv6 SSH target'' (ensure (is_ipv6 host) ''invalid IPv6 address syntax'')) (\<lambda>_.
          if suffix = [] then Inr (host, None)
          else bind_r (ok_or ''invalid SSH target after IPv6 address'' (strip_prefix '':'' suffix)) (\<lambda>port.
            Inr (host, Some port))))
      | None \<Rightarrow>
          (let (host, port) = (case split_once CHR '':'' address of Some (h, p) \<Rightarrow> (h, Some p) | None \<Rightarrow> (address, None)) in
           bind_r (ensure (\<not> (host = [] \<or> starts_with ''-'' host \<or> \<not> list_all host_char host))
             ''invalid SSH target hostname (IPv6 addresses require brackets)'') (\<lambda>_.
           Inr (host, port))))"

definition port_ok :: "string \<Rightarrow> bool" where
  "port_ok p = (\<not> (p = [] \<or> \<not> list_all is_digit p
     \<or> (case parse_uint 65536 p of Some n \<Rightarrow> n = 0 | None \<Rightarrow> True)))"

definition parse_target :: "string \<Rightarrow> target result" where
  "parse_target t =
     bind_r (ok_or ''--sudo requires an ssh:// or ssh-ng:// copy target''
       (case strip_prefix ''ssh://'' t of Some a \<Rightarrow> Some a | None \<Rightarrow> strip_prefix ''ssh-ng://'' t)) (\<lambda>authority.
     bind_r (ensure (\<not> (authority = [] \<or> \<not> list_all authority_char authority))
       ''SSH copy target must contain only an authority, without a path, query, fragment, or escapes'') (\<lambda>_.
     bind_r (split_user authority) (\<lambda>(user, address).
     bind_r (split_host address) (\<lambda>(host, port).
     bind_r (ensure (case port of None \<Rightarrow> True | Some p \<Rightarrow> port_ok p)
       ''SSH target port must be between 1 and 65535'') (\<lambda>_.
     Inr \<lparr>tg_host = host, tg_user = user, tg_port = port\<rparr>)))))"

text \<open>The texts of a target, and which targets have one.\<close>

definition show_target :: "target \<Rightarrow> string" where
  "show_target T = (case tg_user T of None \<Rightarrow> [] | Some u \<Rightarrow> u @ ''@'')
     @ (if CHR '':'' \<in> set (tg_host T) then ''['' @ tg_host T @ '']'' else tg_host T)
     @ (case tg_port T of None \<Rightarrow> [] | Some p \<Rightarrow> '':'' @ p)"

definition plain_host :: "string \<Rightarrow> bool" where
  "plain_host h = (h \<noteq> [] \<and> hd h \<noteq> CHR ''-'' \<and> list_all host_char h)"

definition valid_target :: "target \<Rightarrow> bool" where
  "valid_target T = ((case tg_user T of None \<Rightarrow> True | Some u \<Rightarrow> u \<noteq> [] \<and> list_all user_char u)
     \<and> (is_ipv6 (tg_host T) \<or> plain_host (tg_host T))
     \<and> (case tg_port T of None \<Rightarrow> True | Some p \<Rightarrow> port_ok p))"

lemmas char_classes = authority_char_def user_char_def host_char_def ipv6_char_def is_hexdigit_def
  is_lower_hex_def is_alphanumeric_def is_digit_def is_ascii_whitespace_def is_control_def

lemma ipv6_char_class: "ipv6_char c \<Longrightarrow> authority_char c \<and> c \<notin> {CHR ''@'', CHR ''['', CHR '']''}"
  by (auto simp: char_classes)

lemma user_char_class: "user_char c \<Longrightarrow> authority_char c \<and> c \<notin> {CHR ''@''}"
  by (auto simp: char_classes)

lemma host_char_class: "host_char c \<Longrightarrow> authority_char c \<and> c \<notin> {CHR ''@'', CHR '':'', CHR ''['', CHR '']''}"
  by (auto simp: char_classes)

lemma digit_authority: "is_digit c \<Longrightarrow> authority_char c \<and> c \<notin> {CHR ''@''}"
  by (auto simp: char_classes)

lemma special_authority: "authority_char CHR ''@''" "authority_char CHR ''[''" "authority_char CHR '']''" "authority_char CHR '':''"
  by (simp_all add: char_classes)

lemma plain_no_colon: "plain_host h \<Longrightarrow> CHR '':'' \<notin> set h"
  by (auto simp: plain_host_def list_all_iff dest: host_char_class)

definition show_address :: "string \<Rightarrow> string option \<Rightarrow> string" where
  "show_address h p = (if CHR '':'' \<in> set h then ''['' @ h @ '']'' else h)
     @ (case p of None \<Rightarrow> [] | Some p \<Rightarrow> '':'' @ p)"

lemma plain_host_iff: "\<not> (h = [] \<or> starts_with ''-'' h \<or> \<not> list_all host_char h) \<longleftrightarrow> plain_host h"
  by (cases h) (auto simp: plain_host_def starts_with_def)

lemma split_host_sound:
  assumes "split_host a = Inr (h, p)"
  shows "a = show_address h p \<and> (is_ipv6 h \<or> plain_host h)"
proof (cases "strip_prefix ''['' a")
  case None
  then show ?thesis
    using assms unfolding split_host_def plain_host_iff
    by (auto simp: Let_def result_simps show_address_def split_once_Some_iff plain_no_colon
        split: option.splits prod.splits)
next
  case (Some rest)
  then have a: "a = ''['' @ rest" by (simp add: strip_prefix_Some_iff)
  obtain h' suffix where s: "split_once CHR '']'' rest = Some (h', suffix)" and v: "is_ipv6 h'"
    and q: "(if suffix = [] then Inr (h', None)
          else bind_r (ok_or ''invalid SSH target after IPv6 address'' (strip_prefix '':'' suffix)) (\<lambda>port.
            Inr (h', Some port))) = Inr (h, p)"
    using assms Some by (auto simp: split_host_def result_simps)
  have rest: "rest = h' @ CHR '']'' # suffix" using s by (simp add: split_once_Some_iff)
  show ?thesis
    using q v ipv6_colon [OF v] a rest
    by (auto simp: show_address_def result_simps strip_prefix_Some_iff split: if_splits)
qed

lemma split_host_complete:
  assumes "is_ipv6 h \<or> plain_host h" "case p of None \<Rightarrow> True | Some q \<Rightarrow> port_ok q"
  shows "split_host (show_address h p) = Inr (h, p)"
proof (cases "is_ipv6 h")
  case True
  have "CHR '']'' \<notin> set h" using ipv6_chars [OF True] by (auto simp: list_all_iff dest: ipv6_char_class)
  then have "split_once CHR '']'' (h @ CHR '']'' # r) = Some (h, r)" for r by (rule split_once_append)
  then show ?thesis
    using True ipv6_colon [OF True] by (cases p) (simp_all add: split_host_def show_address_def)
next
  case False
  then have h: "plain_host h" using assms(1) by simp
  then have nc: "CHR '':'' \<notin> set h" by (rule plain_no_colon)
  have nb: "strip_prefix ''['' (h @ r) = None" for r
    using h by (cases h) (auto simp: plain_host_def dest: host_char_class)
  have h': "\<not> (h = [] \<or> starts_with ''-'' h \<or> \<not> list_all host_char h)" using h plain_host_iff by blast
  show ?thesis
  proof (cases p)
    case None
    then show ?thesis using nb [of "[]"] nc h' by (simp add: split_host_def show_address_def split_once_notin)
  next
    case (Some q)
    then show ?thesis
      using nb [of "CHR '':'' # q"] nc h' split_once_append [OF nc, of q] by (simp add: split_host_def show_address_def)
  qed
qed

lemma address_authority:
  assumes "is_ipv6 h \<or> plain_host h" "case p of None \<Rightarrow> True | Some q \<Rightarrow> port_ok q"
  shows "list_all authority_char (show_address h p) \<and> CHR ''@'' \<notin> set (show_address h p) \<and> show_address h p \<noteq> []"
proof -
  have h: "\<forall>c \<in> set h. authority_char c \<and> c \<noteq> CHR ''@''"
    using assms(1)
  proof
    assume "is_ipv6 h"
    then have "\<forall>c \<in> set h. ipv6_char c" using ipv6_chars by (simp add: list_all_iff)
    then show ?thesis using ipv6_char_class by blast
  next
    assume "plain_host h"
    then show ?thesis using host_char_class by (auto simp: plain_host_def list_all_iff)
  qed
  have p: "\<forall>c \<in> set q. authority_char c \<and> c \<noteq> CHR ''@''" if "p = Some q" for q
    using assms(2) that by (auto simp: port_ok_def list_all_iff dest: digit_authority)
  have "h \<noteq> []" using assms(1) ipv6_colon [of h] by (auto simp: plain_host_def)
  then show ?thesis
    using h p special_authority by (cases p) (auto simp: show_address_def list_all_iff)
qed

lemma parse_target_complete:
  assumes v: "valid_target T" and t: "t \<in> {''ssh://'' @ show_target T, ''ssh-ng://'' @ show_target T}"
  shows "parse_target t = Inr T"
proof -
  let ?a = "show_address (tg_host T) (tg_port T)"
  have hp: "is_ipv6 (tg_host T) \<or> plain_host (tg_host T)" "case tg_port T of None \<Rightarrow> True | Some q \<Rightarrow> port_ok q"
    and u: "case tg_user T of None \<Rightarrow> True | Some u \<Rightarrow> u \<noteq> [] \<and> list_all user_char u"
    using v by (auto simp: valid_target_def)
  note ad = address_authority [OF hp]
  have sch: "(case strip_prefix ''ssh://'' t of Some a \<Rightarrow> Some a | None \<Rightarrow> strip_prefix ''ssh-ng://'' t) = Some (show_target T)"
    using t strip_prefix_append [of "''ssh://''" "show_target T"] strip_prefix_append [of "''ssh-ng://''" "show_target T"] by auto
  have sh: "show_target T = (case tg_user T of None \<Rightarrow> [] | Some u \<Rightarrow> u @ ''@'') @ ?a"
    by (simp add: show_target_def show_address_def)
  have auth: "show_target T \<noteq> [] \<and> list_all authority_char (show_target T)"
    unfolding sh using ad u special_authority by (cases "tg_user T") (auto simp: list_all_iff dest: user_char_class)
  have su: "split_user (show_target T) = Inr (tg_user T, ?a)"
  proof (cases "tg_user T")
    case None
    then show ?thesis using ad by (simp add: sh split_user_def split_once_notin)
  next
    case (Some w)
    then have "CHR ''@'' \<notin> set w" using u by (auto simp: list_all_iff dest: user_char_class)
    then show ?thesis using Some u split_once_append [of "CHR ''@''" w ?a] by (simp add: sh split_user_def)
  qed
  show ?thesis
    using sch auth su split_host_complete [OF hp] hp(2) by (simp add: parse_target_def)
qed

text \<open>C20: A copy target is accepted exactly when it is one of the two SSH schemes followed by the text of a valid
  target, and then it is taken apart into exactly that target: nothing of the text is dropped, a user
  and a plain host have no character but letters, digits and \<open>._-+\<close>, the host does not look like an option, and a port is
  between 1 and 65535.\<close>

theorem parse_target_iff:
  "parse_target t = Inr T \<longleftrightarrow>
     valid_target T \<and> t \<in> {''ssh://'' @ show_target T, ''ssh-ng://'' @ show_target T}"
proof
  assume "parse_target t = Inr T"
  then obtain a u addr h p where sch: "(case strip_prefix ''ssh://'' t of Some a \<Rightarrow> Some a | None \<Rightarrow> strip_prefix ''ssh-ng://'' t) = Some a"
    and u: "split_user a = Inr (u, addr)" and h: "split_host addr = Inr (h, p)"
    and p: "case p of None \<Rightarrow> True | Some q \<Rightarrow> port_ok q" and T: "T = \<lparr>tg_host = h, tg_user = u, tg_port = p\<rparr>"
    unfolding parse_target_def by (fastforce simp: bind_r_eq_Inr ok_or_eq_Inr ensure_eq_Inr split: prod.splits)
  have t: "t \<in> {''ssh://'' @ a, ''ssh-ng://'' @ a}"
    using sch by (auto simp: strip_prefix_Some_iff split: option.splits)
  have "a = (case u of None \<Rightarrow> [] | Some u \<Rightarrow> u @ ''@'') @ addr \<and> (case u of None \<Rightarrow> True | Some u \<Rightarrow> u \<noteq> [] \<and> list_all user_char u)"
    using u by (auto simp: split_user_def result_simps split_once_Some_iff split: option.splits)
  then show "valid_target T \<and> t \<in> {''ssh://'' @ show_target T, ''ssh-ng://'' @ show_target T}"
    using split_host_sound [OF h] p t T by (auto simp: valid_target_def show_target_def show_address_def)
next
  assume "valid_target T \<and> t \<in> {''ssh://'' @ show_target T, ''ssh-ng://'' @ show_target T}"
  then show "parse_target t = Inr T" using parse_target_complete by blast
qed

definition sample_target :: target where
  "sample_target = \<lparr>tg_host = ''web-1'', tg_user = Some ''deploy'', tg_port = Some ''22''\<rparr>"

lemma sample_target_valid: "valid_target sample_target"
proof -
  have "port_ok ''22''"
    by (simp add: port_ok_def parse_uint_def is_digit_def nat_of_digits_def digit_value_def)
  moreover have "list_all user_char ''deploy''" "plain_host ''web-1''"
    by (simp_all add: plain_host_def user_char_def host_char_def is_alphanumeric_def is_digit_def)
  ultimately show ?thesis by (simp add: valid_target_def sample_target_def)
qed

lemma show_sample_target: "''ssh://deploy@web-1:22'' = ''ssh://'' @ show_target sample_target"
  by (simp add: show_target_def sample_target_def)

theorem parse_target_iff_witness:
  "parse_target ''ssh://deploy@web-1:22'' = Inr sample_target"
  using parse_target_iff [of "''ssh://deploy@web-1:22''" sample_target] sample_target_valid show_sample_target by blast

end
