(* ===== verification/RemoteCommand.thy ===== *)
theory RemoteCommand
  imports SshTarget
begin

text \<open>
  The command line that \<open>src/src/commands/deploy/sudo.rs\<close> hands to \<open>ssh\<close>: the quoting, the base of the
  download fallback and the remote command.  A reader of POSIX shell words says what a remote
  shell makes of it; it gives up on every character that could be more than itself.
\<close>

definition REMOTE_SCRIPT :: string where
  "REMOTE_SCRIPT = concat (map (\<lambda>l. l @ [char_nl])
    [[],
     ''set -o errexit -o nounset -o pipefail'',
     ''request=$1'',
     ''download_base=$2'',
     ''download_error=$3'',
     ''if binary=$(command -v sower); then'',
     ''    case '' @ [char_dquote] @ ''$binary'' @ [char_dquote] @ '' in'',
     ''        /*) ;;'',
     ''        *) binary='' @ [char_dquote] @ ''$PWD/$binary'' @ [char_dquote] @ '' ;;'',
     ''    esac'',
     ''else'',
     ''    if [ -n '' @ [char_dquote] @ ''$download_error'' @ [char_dquote] @ '' ]; then'',
     ''        printf '' @ [char_quote] @ ''%s'' @ [char_backslash] @ ''n'' @ [char_quote] @ '' '' @ [char_dquote] @ ''$download_error'' @ [char_dquote] @ '' >&2'',
     ''        exit 1'',
     ''    fi'',
     ''    case '' @ [char_dquote] @ ''$(uname --kernel-name)'' @ [char_dquote] @ '' in'',
     ''        Linux) os=linux ;;'',
     ''        *) printf '' @ [char_quote] @ ''%s'' @ [char_backslash] @ ''n'' @ [char_quote] @ '' '' @ [char_quote] @ ''Unsupported target operating system for sower download'' @ [char_quote] @ '' >&2; exit 1 ;;'',
     ''    esac'',
     ''    case '' @ [char_dquote] @ ''$(uname --machine)'' @ [char_dquote] @ '' in'',
     ''        x86_64) arch=x86_64 ;;'',
     ''        aarch64|arm64) arch=aarch64 ;;'',
     ''        *) printf '' @ [char_quote] @ ''%s'' @ [char_backslash] @ ''n'' @ [char_quote] @ '' '' @ [char_quote] @ ''Unsupported target architecture for sower download'' @ [char_quote] @ '' >&2; exit 1 ;;'',
     ''    esac'',
     ''    tmp_dir=$(mktemp --directory)'',
     ''    trap '' @ [char_quote] @ ''rm --recursive --force -- '' @ [char_dquote] @ ''$tmp_dir'' @ [char_dquote] @ [char_quote] @ '' EXIT'',
     ''    binary='' @ [char_dquote] @ ''$tmp_dir/sower'' @ [char_dquote],
     ''    curl --fail --location --show-error --proto '' @ [char_quote] @ ''=https'' @ [char_quote] @ '' --proto-redir '' @ [char_quote] @ ''=https'' @ [char_quote] @ '' '' @ [char_backslash],
     ''        --output '' @ [char_dquote] @ ''$binary'' @ [char_dquote] @ '' -- '' @ [char_dquote] @ ''${download_base}${arch}-${os}'' @ [char_dquote],
     ''    chmod u+x -- '' @ [char_dquote] @ ''$binary'' @ [char_dquote],
     ''fi'',
     ''printf '' @ [char_quote] @ ''%s'' @ [char_backslash] @ ''n'' @ [char_quote] @ '' '' @ [char_dquote] @ ''$request'' @ [char_dquote] @ '' |'',
     ''    sudo --user=root -- /usr/bin/env '' @ [char_backslash],
     ''        PATH=/run/current-system/sw/bin:/nix/var/nix/profiles/default/bin:/usr/sbin:/usr/bin:/sbin:/bin '' @ [char_backslash],
     ''        '' @ [char_dquote] @ ''$binary'' @ [char_dquote] @ '' activator |'',
     ''    while IFS= read -r line; do'',
     ''        printf '' @ [char_quote] @ [char_backslash] @ ''036sower-activator'' @ [char_backslash] @ ''037%s'' @ [char_backslash] @ ''n'' @ [char_quote] @ '' '' @ [char_dquote] @ ''$line'' @ [char_dquote],
     ''    done''])"

definition replace_char :: "char \<Rightarrow> string \<Rightarrow> string \<Rightarrow> string" where
  "replace_char c r s = concat (map (\<lambda>x. if x = c then r else [x]) s)"

definition shell_quote :: "string \<Rightarrow> string" where
  "shell_quote v = [char_quote] @ replace_char char_quote [char_quote, char_backslash, char_quote, char_quote] v @ [char_quote]"

text \<open>The parts of a parsed URL the code looks at.\<close>

record url =
  ur_text :: string
  ur_scheme :: string
  ur_host :: "string option"
  ur_username :: string
  ur_password :: "string option"
  ur_query :: "string option"
  ur_fragment :: "string option"

definition download_base :: "(string \<Rightarrow> url option) \<Rightarrow> string option \<Rightarrow> string result" where
  "download_base parse_url endpoint =
     bind_r (ok_or ''sower is absent on the target; configure an HTTPS --endpoint for binary fallback'' endpoint) (\<lambda>e.
     bind_r (ensure (\<not> list_ex is_control e) ''binary fallback requires a valid HTTPS endpoint'') (\<lambda>_.
     bind_r (ok_or ''binary fallback requires a valid HTTPS endpoint'' (parse_url e)) (\<lambda>u.
     bind_r (ensure (\<not> (ur_scheme u \<noteq> ''https'' \<or> ur_host u = None \<or> ur_username u \<noteq> [] \<or> ur_password u \<noteq> None
         \<or> ur_query u \<noteq> None \<or> ur_fragment u \<noteq> None))
       ''binary fallback requires an HTTPS endpoint without credentials, query, or fragment'') (\<lambda>_.
     Inr (trim_end_matches (\<lambda>c. c = CHR ''/'') (ur_text u) @ ''/client/bin/'')))))"

definition base_and_error :: "(string \<Rightarrow> url option) \<Rightarrow> string option \<Rightarrow> string \<times> string" where
  "base_and_error parse_url endpoint =
     (case download_base parse_url endpoint of Inr b \<Rightarrow> (b, []) | Inl e \<Rightarrow> ([], error_display e))"

definition remote_command :: "(string \<Rightarrow> url option) \<Rightarrow> string \<Rightarrow> string option \<Rightarrow> string" where
  "remote_command parse_url request endpoint =
     (let (base, err) = base_and_error parse_url endpoint in
      ''/usr/bin/env bash --noprofile --norc -c '' @ shell_quote REMOTE_SCRIPT @ '' sower-sudo ''
      @ shell_quote request @ '' '' @ shell_quote base @ '' '' @ shell_quote err)"

section \<open>What a shell reads\<close>

definition inert :: "char \<Rightarrow> bool" where
  "inert c = (is_alphanumeric c \<or> c \<in> set ''/-_.:,+@%'')"

text \<open>One word: inert characters, quoted stretches and escaped characters, up to a space or the end.\<close>

function shell_word :: "string \<Rightarrow> (string \<times> string) option" where
  "shell_word [] = Some ([], [])"
| "shell_word (c # s) =
     (if c = CHR '' '' then Some ([], c # s)
      else if c = char_quote then
        (case split_once char_quote s of
           None \<Rightarrow> None
         | Some (q, r) \<Rightarrow> map_option (\<lambda>(w, t). (q @ w, t)) (shell_word r))
      else if c = char_backslash then
        (case s of [] \<Rightarrow> None | d # r \<Rightarrow> map_option (\<lambda>(w, t). (d # w, t)) (shell_word r))
      else if inert c then map_option (\<lambda>(w, t). (c # w, t)) (shell_word s)
      else None)"
  by pat_completeness auto
termination
  by (relation "measure length") (auto simp: split_once_Some_iff)

declare shell_word.simps(2) [simp del]

fun shell_words :: "nat \<Rightarrow> string \<Rightarrow> string list option" where
  "shell_words 0 s = None"
| "shell_words (Suc n) s =
     (case dropWhile (\<lambda>c. c = CHR '' '') s of
        [] \<Rightarrow> Some []
      | r \<Rightarrow> (case shell_word r of None \<Rightarrow> None
          | Some (w, t) \<Rightarrow> map_option (\<lambda>ws. w # ws) (shell_words n t)))"

lemma shell_word_inert:
  "list_all inert u \<Longrightarrow> shell_word (u @ r) = map_option (\<lambda>(w, t). (u @ w, t)) (shell_word r)"
proof (induction u)
  case Nil
  then show ?case by (simp add: option.map_ident case_prod_beta)
next
  case (Cons c u)
  then have "c \<noteq> CHR '' '' \<and> c \<noteq> char_quote \<and> c \<noteq> char_backslash"
    by (auto simp: inert_def is_alphanumeric_def is_digit_def)
  then show ?case using Cons by (simp add: shell_word.simps(2) option.map_comp o_def case_prod_beta)
qed

lemma replace_char_append [simp]: "replace_char c r (a @ b) = replace_char c r a @ replace_char c r b"
  by (simp add: replace_char_def)

lemma replace_char_notin [simp]: "c \<notin> set a \<Longrightarrow> replace_char c r a = a"
  by (induction a) (auto simp: replace_char_def)

lemma replace_char_Cons: "replace_char c r (c # s) = r @ replace_char c r s"
  by (simp add: replace_char_def)

lemma shell_word_quoted:
  "shell_word (shell_quote v @ r) = map_option (\<lambda>(w, t). (v @ w, t)) (shell_word r)"
proof (induction "length v" arbitrary: v rule: less_induct)
  case less
  show ?case
  proof (cases "char_quote \<in> set v")
    case False
    then show ?thesis
      by (simp add: shell_quote_def shell_word.simps(2) [of char_quote] split_once_append)
  next
    case True
    then obtain a b where v: "v = a @ char_quote # b" and a: "char_quote \<notin> set a"
      by (meson split_list_first)
    have q: "shell_quote v @ r = char_quote # a @ char_quote # char_backslash # char_quote # shell_quote b @ r"
      using a by (simp add: v shell_quote_def replace_char_Cons)
    have "shell_word (shell_quote v @ r) = map_option (\<lambda>(w, t). (a @ w, t)) (shell_word (char_backslash # char_quote # shell_quote b @ r))"
      unfolding q by (simp add: shell_word.simps(2) [of char_quote] split_once_append [OF a])
    also have "shell_word (char_backslash # char_quote # shell_quote b @ r) = map_option (\<lambda>(w, t). (char_quote # w, t)) (shell_word (shell_quote b @ r))"
      by (simp add: shell_word.simps(2) [of char_backslash])
    also have "shell_word (shell_quote b @ r) = map_option (\<lambda>(w, t). (b @ w, t)) (shell_word r)"
      using less [of b] by (simp add: v)
    finally show ?thesis by (simp only: v option.map_comp o_def case_prod_unfold fst_conv snd_conv append_assoc append_Cons prod.case)
  qed
qed

lemma shell_word_space: "shell_word (CHR '' '' # s) = Some ([], CHR '' '' # s)"
  by (simp add: shell_word.simps(2))

lemma shell_words_inert:
  assumes "list_all inert u" "u \<noteq> []"
  shows "shell_words (Suc n) (u @ CHR '' '' # s) = map_option (\<lambda>ws. u # ws) (shell_words n (CHR '' '' # s))"
    and "shell_words (Suc n) (CHR '' '' # u @ CHR '' '' # s) = map_option (\<lambda>ws. u # ws) (shell_words n (CHR '' '' # s))"
proof -
  have "\<not> inert CHR '' ''" by (simp add: inert_def is_alphanumeric_def is_digit_def)
  then obtain c u' where u: "u = c # u'" "c \<noteq> CHR '' ''"
    using assms by (cases u) auto
  note w = shell_word_inert [OF assms(1), of "CHR '' '' # s", unfolded shell_word_space]
  then show "shell_words (Suc n) (u @ CHR '' '' # s) = map_option (\<lambda>ws. u # ws) (shell_words n (CHR '' '' # s))"
    "shell_words (Suc n) (CHR '' '' # u @ CHR '' '' # s) = map_option (\<lambda>ws. u # ws) (shell_words n (CHR '' '' # s))"
    using u by simp_all
qed

lemma shell_quote_Cons: "shell_quote v = char_quote # tl (shell_quote v)" by (simp add: shell_quote_def)

lemma shell_words_quoted:
  "shell_words (Suc n) (CHR '' '' # shell_quote v @ CHR '' '' # s) = map_option (\<lambda>ws. v # ws) (shell_words n (CHR '' '' # s))"
  "shell_words (Suc n) (CHR '' '' # shell_quote v) = map_option (\<lambda>ws. v # ws) (shell_words n [])"
proof -
  have w: "shell_word (shell_quote v @ CHR '' '' # s) = Some (v, CHR '' '' # s)"
    "shell_word (shell_quote v) = Some (v, [])"
    using shell_word_quoted [of v "CHR '' '' # s"] shell_word_quoted [of v "[]"] by (simp_all add: shell_word_space)
  have d: "dropWhile (\<lambda>c. c = CHR '' '') (CHR '' '' # shell_quote v @ r) = shell_quote v @ r" for r
    by (subst (1 2) shell_quote_Cons) simp
  have c: "\<exists>x xs. shell_quote v @ r = x # xs" for r by (simp add: shell_quote_def)
  show "shell_words (Suc n) (CHR '' '' # shell_quote v @ CHR '' '' # s) = map_option (\<lambda>ws. v # ws) (shell_words n (CHR '' '' # s))"
    using c [of "CHR '' '' # s"] d [of "CHR '' '' # s"] w(1) by auto
  show "shell_words (Suc n) (CHR '' '' # shell_quote v) = map_option (\<lambda>ws. v # ws) (shell_words n [])"
    using c [of "[]"] d [of "[]"] w(2) by auto
qed

text \<open>C21: Whatever the request, the endpoint and the message about it contain, a shell on the target reads the remote
  command as exactly ten words: the interpreter with its options, the script, its name, the request,
  the download base and the error, each unchanged.  No text of the deployer can end its
  word early or start a command of its own.\<close>

theorem remote_command_words:
  "shell_words 11 (remote_command parse_url request endpoint) =
     Some [''/usr/bin/env'', ''bash'', ''--noprofile'', ''--norc'', ''-c'', REMOTE_SCRIPT, ''sower-sudo'', request,
       fst (base_and_error parse_url endpoint), snd (base_and_error parse_url endpoint)]"
proof -
  obtain b e where be: "base_and_error parse_url endpoint = (b, e)" by fastforce
  have i: "list_all inert ''/usr/bin/env''" "list_all inert ''bash''" "list_all inert ''--noprofile''"
    "list_all inert ''--norc''" "list_all inert ''-c''" "list_all inert ''sower-sudo''"
    by (simp_all add: inert_def is_alphanumeric_def is_digit_def)
  have r: "remote_command parse_url request endpoint =
      ''/usr/bin/env'' @ CHR '' '' # ''bash'' @ CHR '' '' # ''--noprofile'' @ CHR '' '' # ''--norc'' @ CHR '' '' # ''-c'' @ CHR '' ''
      # shell_quote REMOTE_SCRIPT @ CHR '' '' # ''sower-sudo'' @ CHR '' '' # shell_quote request @ CHR '' '' # shell_quote b @ CHR '' '' # shell_quote e"
    by (simp add: remote_command_def be)
  have n: "(11::nat) = Suc (Suc (Suc (Suc (Suc (Suc (Suc (Suc (Suc (Suc (Suc 0))))))))))" by simp
  show ?thesis
    unfolding r n be fst_conv snd_conv
    by (simp only: shell_words_inert i shell_words_quoted list.distinct not_False_eq_True option.map)
      (simp add: shell_words_quoted)
qed

text \<open>A download base is only ever derived from an HTTPS endpoint that carries no credentials, query or
  fragment and no control character; in every other case the remote script gets no base and a non-empty error.\<close>

theorem base_only_https:
  "base_and_error parse_url endpoint = (b, e) \<Longrightarrow>
     (e = [] \<and> (\<exists>t u. endpoint = Some t \<and> parse_url t = Some u \<and> ur_scheme u = ''https'' \<and> ur_host u \<noteq> None
         \<and> ur_username u = [] \<and> ur_password u = None \<and> ur_query u = None \<and> ur_fragment u = None
         \<and> \<not> list_ex is_control t \<and> (\<exists>p. b = p @ ''/client/bin/'' \<and> \<not> ends_with ''/'' p)))
     \<or> (b = [] \<and> e \<noteq> [])"
proof (cases "download_base parse_url endpoint")
  case (Inl x)
  assume "base_and_error parse_url endpoint = (b, e)"
  moreover have "error_display x \<noteq> []"
    using Inl unfolding download_base_def by (auto simp: bind_r_eq_Inl ensure_eq_Inl ok_or_def split: option.splits)
  ultimately show ?thesis using Inl by (auto simp: base_and_error_def)
next
  case (Inr b')
  assume be: "base_and_error parse_url endpoint = (b, e)"
  have "\<not> ends_with ''/'' (trim_end_matches (\<lambda>c. c = CHR ''/'') s)" for s
  proof
    assume "ends_with ''/'' (trim_end_matches (\<lambda>c. c = CHR ''/'') s)"
    then obtain r where "trim_end_matches (\<lambda>c. c = CHR ''/'') s = r @ ''/''" by (auto simp: ends_with_iff)
    then have "dropWhile (\<lambda>c. c = CHR ''/'') (rev s) = rev (r @ ''/'')"
      unfolding trim_end_matches_def by (metis rev_rev_ident)
    then have "dropWhile (\<lambda>c. c = CHR ''/'') (rev s) = CHR ''/'' # rev r" by simp
    then show False using hd_dropWhile [of "\<lambda>c. c = CHR ''/''" "rev s"] by auto
  qed
  then show ?thesis
    using Inr be by (fastforce simp: base_and_error_def download_base_def result_simps)
qed

theorem base_only_https_witness:
  "base_and_error (\<lambda>t. Some \<lparr>ur_text = t, ur_scheme = ''https'', ur_host = Some ''h'', ur_username = [], ur_password = None,
      ur_query = None, ur_fragment = None\<rparr>) (Some ''https://h/'') = (''https://h/client/bin/'', [])
   \<and> base_and_error (\<lambda>_. None) (Some ''x'') \<noteq> ([], [])"
proof -
  let ?p = "\<lambda>t. Some \<lparr>ur_text = t, ur_scheme = ''https'', ur_host = Some ''h'', ur_username = [], ur_password = None,
      ur_query = None, ur_fragment = None\<rparr>"
  have "base_and_error ?p (Some ''https://h/'') = (''https://h/client/bin/'', [])" by code_simp
  moreover have "base_and_error (\<lambda>_. None) (Some ''x'') \<noteq> ([], [])"
    using base_only_https [of "\<lambda>_. None" "Some ''x''" "[]" "[]"] by auto
  ultimately show ?thesis by blast
qed

end
