(* ===== verification/Outside.thy ===== *)
theory Outside
  imports Interfaces Protocol Json SshDecoder RemoteCommand
begin

text \<open>
  What the client commands (\<open>sower seed\<close>, \<open>sower deploy\<close>) meet: programs they run, files they look
  at, the server's API and SSH.  None of it is part of the sources; a \<open>site\<close> answers the \<open>n\<close>-th question
  of a run, and the state of a run keeps the number of questions, what was done (programs
  that were started, what the server was asked to create) and the terminal.  Log lines of \<open>tracing\<close> are not
  modelled.
\<close>

section \<open>The server's data\<close>

datatype seed_type = Nixos | HomeManager | NixDarwin | Service

record tag =
  tag_key :: string
  tag_value :: string

record seed =
  sd_artifact :: string
  sd_name :: string
  sd_type :: seed_type
  sd_sid :: "string option"
  sd_tags :: "tag list"

record nix_cache =
  nc_url :: string
  nc_public_key :: string

datatype deploy_action = Stage | Activate | Restart

record direct_deployment =
  dd_action :: "deploy_action option"
  dd_force :: bool
  dd_garden :: string
  dd_override :: bool
  dd_reason :: "string option"
  dd_seed :: string

record deployed_seed =
  ds_sid :: string
  ds_name :: string
  ds_state :: "string option"
  ds_result :: "string option"
  ds_log :: "string option"

record deployment =
  dp_sid :: string
  dp_state :: string
  dp_result :: "string option"
  dp_skipped :: bool
  dp_seeds :: "deployed_seed list"

section \<open>Programs\<close>

datatype spawn_error = NotFound | Denied | OtherError

record finished =
  fi_success :: bool
  fi_status :: string
  fi_stdout :: string

datatype spawned = Spawned finished | NotSpawned spawn_error

record ssh_session =
  ss_reads :: "read_outcome list"
  ss_status :: "finished result"

section \<open>The site and the run\<close>

datatype event =
    Ran "string list"
  | Terminated
  | CreatedSeed seed
  | CreatedDeployment direct_deployment
  | Fetched string
  | Printed string
  | Reported string string

record site =
  si_spawn :: "nat \<Rightarrow> string list \<Rightarrow> spawned"
  si_ssh :: "nat \<Rightarrow> string list \<Rightarrow> ssh_session option"
  si_exists :: "nat \<Rightarrow> string \<Rightarrow> bool result"
  si_read :: "nat \<Rightarrow> string \<Rightarrow> string result"
  si_canonicalize :: "nat \<Rightarrow> string \<Rightarrow> string result"
  si_root :: bool
  si_latest_seed :: "nat \<Rightarrow> string \<Rightarrow> string \<Rightarrow> seed result"
  si_garden_seed :: "nat \<Rightarrow> string \<Rightarrow> string \<Rightarrow> string \<Rightarrow> seed option result"
  si_caches :: "nat \<Rightarrow> nix_cache list result"
  si_new_seed :: "nat \<Rightarrow> seed \<Rightarrow> seed result"
  si_new_deployment :: "nat \<Rightarrow> direct_deployment \<Rightarrow> deployment result"
  si_get_deployment :: "nat \<Rightarrow> string \<Rightarrow> deployment result"
  si_parse_json :: "string \<Rightarrow> json result"
  si_parse_request :: "string \<Rightarrow> request result"
  si_print_request :: "request \<Rightarrow> string"
  si_parse_response :: "string \<Rightarrow> response result"
  si_parse_url :: "string \<Rightarrow> url option"
  si_deployment_url :: "string \<Rightarrow> string result"
  si_runtime :: "unit result"

record client_run =
  cr_step :: nat
  cr_events :: "event list"
  cr_terminal :: terminal

type_synonym 'a client = "(client_run, 'a) act"

definition asking :: "(nat \<Rightarrow> 'a result) \<Rightarrow> 'a client" where
  "asking f = (\<lambda>c. (f (cr_step c), c\<lparr>cr_step := Suc (cr_step c)\<rparr>))"

definition note_event :: "event \<Rightarrow> unit client" where
  "note_event e = (\<lambda>c. (Inr (), c\<lparr>cr_events := cr_events c @ [e]\<rparr>))"

definition on_terminal :: "(terminal, 'a) act \<Rightarrow> 'a client" where
  "on_terminal m = (\<lambda>c. case m (cr_terminal c) of (r, t) \<Rightarrow> (r, c\<lparr>cr_terminal := t\<rparr>))"

text \<open>In error messages a text printed with \<open>{:?}\<close> stands between quotes, without escapes.\<close>

definition debug_str :: "string \<Rightarrow> string" where
  "debug_str s = char_dquote # s @ [char_dquote]"

lemma ctx_asking: "ctx msg (asking f) = asking (\<lambda>n. with_context msg (f n))"
  by (rule ext) (simp add: asking_def)

lemma seq_asking:
  "seq (asking f) k c = (case f (cr_step c) of
     Inl e \<Rightarrow> (Inl e, c\<lparr>cr_step := Suc (cr_step c)\<rparr>)
   | Inr x \<Rightarrow> k x (c\<lparr>cr_step := Suc (cr_step c)\<rparr>))"
  by (simp add: seq_def asking_def split: sum.splits)

section \<open>What a run adds\<close>

text \<open>The events of a run only grow; \<open>adds A\<close> says that the new ones lie in \<open>A\<close>.\<close>

definition adds :: "event set \<Rightarrow> client_run \<Rightarrow> client_run \<Rightarrow> bool" where
  "adds A c c' \<longleftrightarrow> (\<exists>new. cr_events c' = cr_events c @ new \<and> set new \<subseteq> A)"

interpretation adds: step_preorder "adds A" for A
proof
  show "adds A c c" for c by (auto simp: adds_def)
  show "adds A a c" if "adds A a b" "adds A b c" for a b c using that by (fastforce simp: adds_def)
qed

lemma adds_asking: "moves (adds A) (asking f)" by (simp add: moves_def adds_def asking_def)
lemma adds_note: "e \<in> A \<Longrightarrow> moves (adds A) (note_event e)" by (simp add: moves_def adds_def note_event_def)
lemma adds_terminal: "moves (adds A) (on_terminal m)"
  by (simp add: moves_def adds_def on_terminal_def split: prod.splits)

lemmas adds_rules = adds.moves_rules adds_asking adds_note adds_terminal

lemma adds_mono: "moves (adds A) m \<Longrightarrow> A \<subseteq> B \<Longrightarrow> moves (adds B) m"
  by (fastforce simp: moves_def adds_def)

definition programs :: "client_run \<Rightarrow> string list list" where
  "programs c = List.map_filter (\<lambda>e. case e of Ran cmd \<Rightarrow> Some cmd | _ \<Rightarrow> None) (cr_events c)"

section \<open>What a run does as a language\<close>

text \<open>
  \<open>view\<close> reads a trace off a run, for instance the programs it started.  \<open>does view L m\<close>: every run of \<open>m\<close>
  adds the letters of a word of \<open>L\<close> in order; a run that fails stops somewhere in the word, a
  successful one has gone through it.  A step is \<open>idle\<close> if it adds nothing.
\<close>

definition does :: "(client_run \<Rightarrow> 'e list) \<Rightarrow> 'e list set \<Rightarrow> 'a client \<Rightarrow> bool" where
  "does view L m \<longleftrightarrow> (\<forall>c. \<exists>new word. word \<in> L \<and> prefix new word \<and> view (snd (m c)) = view c @ new
     \<and> (is_ok (fst (m c)) \<longrightarrow> new = word))"

definition idle :: "(client_run \<Rightarrow> 'e list) \<Rightarrow> 'a client \<Rightarrow> bool" where
  "idle view m \<longleftrightarrow> (\<forall>c. view (snd (m c)) = view c)"

definition followed_by :: "'e list set \<Rightarrow> 'e list set \<Rightarrow> 'e list set" where
  "followed_by L M = {a @ b | a b. a \<in> L \<and> b \<in> M}"

text \<open>Sequencing; what follows may depend on the result.\<close>

lemma does_bind:
  assumes m: "does view L m" and k: "\<And>x. does view (M x) (k x)"
    and stop: "\<And>a. a \<in> L \<Longrightarrow> \<exists>w. a @ w \<in> N" and on: "\<And>a x b. a \<in> L \<Longrightarrow> b \<in> M x \<Longrightarrow> a @ b \<in> N"
  shows "does view N (seq m k)"
  unfolding does_def
proof
  fix c
  obtain new word where n: "word \<in> L" "prefix new word" "view (snd (m c)) = view c @ new"
    and ok: "is_ok (fst (m c)) \<longrightarrow> new = word"
    using m unfolding does_def by blast
  show "\<exists>new word. word \<in> N \<and> prefix new word \<and> view (snd (seq m k c)) = view c @ new
     \<and> (is_ok (fst (seq m k c)) \<longrightarrow> new = word)"
  proof (cases "m c")
    case (Pair r c')
    show ?thesis
    proof (cases r)
      case (Inl e)
      obtain w where "word @ w \<in> N" using stop [OF n(1)] by blast
      then show ?thesis using n Pair Inl
        by (intro exI [of _ new] exI [of _ "word @ w"]) (auto simp: seq_def)
    next
      case (Inr x)
      obtain new2 word2 where n2: "word2 \<in> M x" "prefix new2 word2" "view (snd (k x c')) = view c' @ new2"
        and ok2: "is_ok (fst (k x c')) \<longrightarrow> new2 = word2"
        using k [of x] unfolding does_def by blast
      have "new = word" using ok Inr Pair by simp
      then show ?thesis using n n2 ok2 Pair Inr on [OF n(1) n2(1)]
        by (intro exI [of _ "new @ new2"] exI [of _ "word @ word2"]) (auto simp: seq_def)
    qed
  qed
qed

lemma does_seq:
  assumes m: "does view L m" and k: "\<And>x. does view M (k x)" and M: "w \<in> M"
  shows "does view (followed_by L M) (seq m k)"
  by (rule does_bind [OF m, of "\<lambda>_. M"]) (use k M in \<open>auto simp: followed_by_def\<close>)

lemma does_mono: "does view L m \<Longrightarrow> L \<subseteq> M \<Longrightarrow> does view M m"
  unfolding does_def by blast

lemma does_quiet: "(\<And>c. view (snd (m c)) = view c) \<Longrightarrow> [] \<in> L \<Longrightarrow> does view L m"
  unfolding does_def by (intro allI exI [of _ "[]"]) simp

lemma does_fail: "w \<in> L \<Longrightarrow> does view L (lift_r (Inl e))"
  unfolding does_def by (intro allI exI [of _ "[]"] exI [of _ w]) simp

lemma does_ret: "[] \<in> L \<Longrightarrow> does view L (ret x)" by (rule does_quiet) simp_all

lemma does_ctx: "does view L m \<Longrightarrow> does view L (ctx msg m)"
  by (simp add: does_def is_ok_iff result_simps)

lemma does_if: "(b \<Longrightarrow> does view L m) \<Longrightarrow> (\<not> b \<Longrightarrow> does view L n) \<Longrightarrow> does view L (if b then m else n)" by simp

lemma does_idle:
  assumes "idle view m" "\<And>x. does view L (k x)" shows "does view L (seq m k)"
proof -
  obtain w where "w \<in> L" using assms(2) [of undefined] unfolding does_def by blast
  moreover have "does view {[]} m" using assms(1) by (intro does_quiet) (auto simp: idle_def)
  ultimately show ?thesis by (intro does_bind [OF _ assms(2), of "{[]}"]) auto
qed

lemma does_check: "(b \<Longrightarrow> does view L (k ())) \<Longrightarrow> w \<in> L \<Longrightarrow> does view L (seq (check b msg) k)"
proof (cases b)
  case False
  assume "w \<in> L"
  then have "does view L (lift_r (Inl (Msg msg)))" by (rule does_fail)
  then show ?thesis using False by (simp add: does_def)
qed (simp add: does_def)

lemma does_word:
  "does view L m \<Longrightarrow> \<exists>new word. word \<in> L \<and> prefix new word \<and> view (snd (m c)) = view c @ new
     \<and> (is_ok (fst (m c)) \<longrightarrow> new = word)"
  unfolding does_def by blast

lemma does_note: "(\<And>c. view (snd (note_event e c)) = view c @ w) \<Longrightarrow> w \<in> L \<Longrightarrow> does view L (note_event e)"
  unfolding does_def by (intro allI exI [of _ w]) simp

lemma does_each: "(\<And>x. x \<in> set xs \<Longrightarrow> idle view (f x)) \<Longrightarrow> idle view (each f xs)"
proof (induction xs)
  case Nil
  then show ?case by (simp add: idle_def)
next
  case (Cons x xs)
  then show ?case by (auto simp: idle_def seq_def split: prod.splits sum.splits) (metis snd_conv)+
qed

lemma idle_lift: "idle view (lift_r r)" by (simp add: idle_def)
lemma idle_check: "idle view (check b msg)" by (simp add: idle_def)
lemma idle_ret: "idle view (ret x)" by (simp add: idle_def)
lemma idle_ctx: "idle view m \<Longrightarrow> idle view (ctx msg m)" by (simp add: idle_def)
lemma idle_attempt: "idle view m \<Longrightarrow> idle view (attempt m)" by (simp add: idle_def)
lemma idle_if: "idle view m \<Longrightarrow> idle view n \<Longrightarrow> idle view (if b then m else n)" by simp

lemma idle_option:
  "idle view n \<Longrightarrow> (\<And>x. idle view (f x)) \<Longrightarrow> idle view (case v of None \<Rightarrow> n | Some x \<Rightarrow> f x)"
  by (cases v) simp_all

lemma idle_seq: "idle view m \<Longrightarrow> (\<And>x. idle view (k x)) \<Longrightarrow> idle view (seq m k)"
  unfolding idle_def
proof
  fix c
  assume m: "\<forall>c. view (snd (m c)) = view c" and k: "\<And>x. \<forall>c. view (snd (k x c)) = view c"
  show "view (snd (seq m k c)) = view c"
  proof (cases "m c")
    case (Pair r c')
    then have "view c' = view c" using m by (metis snd_conv)
    then show ?thesis using Pair k by (cases r) (simp_all add: seq_def)
  qed
qed

text \<open>A view that looks at the events only.\<close>

locale event_view =
  fixes view :: "client_run \<Rightarrow> 'e list"
  assumes same_events: "cr_events c = cr_events c' \<Longrightarrow> view c = view c'"
begin

lemma idle_asking: "idle view (asking f)"
  unfolding idle_def by (intro allI same_events) (simp add: asking_def)

lemma idle_terminal: "idle view (on_terminal m)"
  unfolding idle_def by (intro allI same_events) (simp add: on_terminal_def split: prod.splits)

lemma view_step: "view (c\<lparr>cr_step := n\<rparr>) = view c"
  by (rule same_events) simp

lemmas idle_rules = idle_asking idle_lift idle_check idle_ret idle_ctx idle_attempt idle_terminal idle_seq idle_if idle_option

end

definition created :: "client_run \<Rightarrow> event list" where
  "created c = filter (\<lambda>e. case e of CreatedSeed _ \<Rightarrow> True | CreatedDeployment _ \<Rightarrow> True | _ \<Rightarrow> False) (cr_events c)"

interpretation progs: event_view programs by unfold_locales (simp add: programs_def)

interpretation creations: event_view created by unfold_locales (simp add: created_def)

lemma programs_note: "(\<And>cmd. e \<noteq> Ran cmd) \<Longrightarrow> idle programs (note_event e)"
  by (cases e) (auto simp: idle_def note_event_def programs_def List.map_filter_def)

lemma created_ran: "idle created (note_event (Ran cmd))"
  by (simp add: idle_def note_event_def created_def)

section \<open>An example site\<close>

text \<open>Every program succeeds, every path is there, the server answers with the same seed and deployment.\<close>

definition sample_artifact :: string where
  "sample_artifact = ''/nix/store/00000000000000000000000000000000-nixos-system-web-25.05''"

definition sample_seed :: seed where
  "sample_seed = \<lparr>sd_artifact = sample_artifact, sd_name = ''web'', sd_type = Nixos, sd_sid = Some ''seed_1'', sd_tags = []\<rparr>"

definition sample_deployment :: "string \<Rightarrow> string option \<Rightarrow> deployment" where
  "sample_deployment s r = \<lparr>dp_sid = ''dply_1'', dp_state = s, dp_result = r, dp_skipped = False,
     dp_seeds = [\<lparr>ds_sid = ''seed_1'', ds_name = ''web'', ds_state = None, ds_result = r, ds_log = None\<rparr>]\<rparr>"

definition ssh_done :: ssh_session where
  "ssh_done = \<lparr>ss_reads = [Chunk (FRAME_PREFIX @ ''done'' @ [char_nl])],
     ss_status = Inr \<lparr>fi_success = True, fi_status = ''exit status: 0'', fi_stdout = []\<rparr>\<rparr>"

definition sample_site :: site where
  "sample_site = \<lparr>
     si_spawn = (\<lambda>_ _. Spawned \<lparr>fi_success = True, fi_status = ''exit status: 0'', fi_stdout = sample_artifact\<rparr>),
     si_ssh = (\<lambda>_ _. Some ssh_done), si_exists = (\<lambda>_ _. Inr True), si_read = (\<lambda>_ _. Inl (Msg ''os error'')),
     si_canonicalize = (\<lambda>_ p. Inr p), si_root = True, si_latest_seed = (\<lambda>_ _ _. Inr sample_seed),
     si_garden_seed = (\<lambda>_ _ _ _. Inr None), si_caches = (\<lambda>_. Inr []), si_new_seed = (\<lambda>_ _. Inr sample_seed),
     si_new_deployment = (\<lambda>_ _. Inr (sample_deployment ''created'' None)),
     si_get_deployment = (\<lambda>_ _. Inr (sample_deployment ''completed'' (Some ''success''))),
     si_parse_json = (\<lambda>_. Inl (Msg ''eof'')),
     si_parse_request = (\<lambda>_. Inr \<lparr>rq_id = ''7'', rq_kind = ''nixos'', rq_path = sample_artifact, rq_mode = ''switch'',
       rq_reason = [], rq_seeds = [], rq_network_action = None, rq_execution_id = None, rq_lease = None\<rparr>),
     si_print_request = (\<lambda>_. ''{}''), si_parse_response = sample_parse, si_parse_url = (\<lambda>_. None),
     si_deployment_url = Inr, si_runtime = Inr ()\<rparr>"

definition idle_run :: client_run where
  "idle_run = \<lparr>cr_step = 0, cr_events = [], cr_terminal = open_terminal\<rparr>"

end
