(* ===== verification/SeedOps.thy ===== *)
theory SeedOps
  imports Outside Utf8
begin

text \<open>
  \<open>src/src/commands/seed\<close>: the seed types, the operations of \<open>ops.rs\<close> on artifacts, and the commands
  \<open>submit\<close>, \<open>download\<close>, \<open>info\<close>, \<open>upgrade\<close> and \<open>reboot\<close>.
\<close>

section \<open>Seed types and tags\<close>

fun seed_type_str :: "seed_type \<Rightarrow> string" where
  "seed_type_str Nixos = ''nixos''"
| "seed_type_str HomeManager = ''home-manager''"
| "seed_type_str NixDarwin = ''nix-darwin''"
| "seed_type_str Service = ''service''"

definition parse_seed_type :: "string \<Rightarrow> seed_type result" where
  "parse_seed_type s =
     (if s = ''nixos'' then Inr Nixos
      else if s = ''home-manager'' then Inr HomeManager
      else if s = ''nix-darwin'' then Inr NixDarwin
      else if s = ''service'' then Inr Service
      else Inl (Msg (''unsupported seed type '' @ debug_str s @ '' (expected nixos | home-manager | nix-darwin | service)'')))"

definition parse_tag :: "string \<Rightarrow> tag result" where
  "parse_tag s = bind_r (ok_or (''invalid tag format '' @ debug_str s @ '' (expected key=value)'') (split_once CHR ''='' s))
     (\<lambda>(k, v). Inr \<lparr>tag_key = k, tag_value = v\<rparr>)"

definition parse_tags :: "string list \<Rightarrow> tag list result" where
  "parse_tags raw = collect_r parse_tag raw"

section \<open>Operations on artifacts\<close>

definition run_inherited :: "site \<Rightarrow> string list \<Rightarrow> unit client" where
  "run_inherited E cmd =
     seq (asking (\<lambda>n. Inr (si_spawn E n cmd))) (\<lambda>s.
     case s of
       NotSpawned _ \<Rightarrow> lift_r (Inl (Context ''spawn command'' (Msg ''os error'')))
     | Spawned f \<Rightarrow>
         seq (note_event (Ran cmd)) (\<lambda>_.
         check (fi_success f) (''command failed with status '' @ fi_status f)))"

fun artifact_marker :: "string \<Rightarrow> seed_type \<Rightarrow> string result" where
  "artifact_marker a HomeManager = Inr (path_join a ''hm-version'')"
| "artifact_marker a Nixos = Inr (path_join a ''nixos-version'')"
| "artifact_marker a Service = Inr (path_join a ''.sower/systemd'')"
| "artifact_marker a NixDarwin = Inl (Msg ''nix-darwin submission is not supported'')"

definition precheck :: "site \<Rightarrow> string \<Rightarrow> seed_type \<Rightarrow> unit client" where
  "precheck E artifact ty =
     seq (lift_r (artifact_marker artifact ty)) (\<lambda>marker.
     seq (ctx (''missing artifact marker '' @ marker) (asking (\<lambda>n. si_exists E n marker))) (\<lambda>found.
     lift_r (with_context (''missing artifact marker '' @ marker) (ensure found ''No such file or directory''))))"

definition caches_to_flags :: "nix_cache list \<Rightarrow> string list \<times> string list" where
  "caches_to_flags caches = (map nc_url caches, map nc_public_key caches)"

definition realize_cmd :: "string \<Rightarrow> nix_cache list \<Rightarrow> bool \<Rightarrow> string option \<Rightarrow> string list" where
  "realize_cmd store_path caches initrd profile =
     (let (substituters, public_keys) = caches_to_flags caches in
      [''nix'', ''build'', store_path]
      @ (if initrd then [''--store'', ''/sysroot''] else [])
      @ (if substituters \<noteq> [] then [''--extra-substituters'', join_with '','' substituters] else [])
      @ (if public_keys \<noteq> [] then [''--extra-trusted-public-keys'', join_with '','' public_keys] else [])
      @ (case profile of Some p \<Rightarrow> [''--profile'', p] | None \<Rightarrow> []))"

text \<open>\<open>Path::exists\<close> takes an error for absence.\<close>

definition store_path_exists :: "site \<Rightarrow> string \<Rightarrow> bool client" where
  "store_path_exists E p = asking (\<lambda>n. Inr (si_exists E n p = Inr True))"

definition realize :: "site \<Rightarrow> string \<Rightarrow> nix_cache list \<Rightarrow> bool \<Rightarrow> string option \<Rightarrow> unit client" where
  "realize E store_path caches initrd profile =
     seq (check (store_path \<noteq> []) ''cannot realize empty store path'') (\<lambda>_.
     seq (store_path_exists E store_path) (\<lambda>there.
     if there then ret () else run_inherited E (realize_cmd store_path caches initrd profile)))"

definition set_profile_cmd :: "string \<Rightarrow> string \<Rightarrow> string list" where
  "set_profile_cmd profile store_path = [''nix-env'', ''--set'', ''--profile'', profile, store_path]"

definition set_profile :: "site \<Rightarrow> string \<Rightarrow> string \<Rightarrow> unit client" where
  "set_profile E profile store_path =
     ctx ''set nix profile'' (run_inherited E (set_profile_cmd profile store_path))"

definition SYSTEM_PROFILE :: string where
  "SYSTEM_PROFILE = ''/nix/var/nix/profiles/system''"

definition activate :: "site \<Rightarrow> seed_type \<Rightarrow> string \<Rightarrow> string \<Rightarrow> unit client" where
  "activate E ty store_path mode =
     (case ty of
        HomeManager \<Rightarrow> ctx ''activate home-manager generation'' (run_inherited E [store_path @ ''/activate''])
      | Nixos \<Rightarrow>
          seq (set_profile E SYSTEM_PROFILE store_path) (\<lambda>_.
          ctx ''switch-to-configuration'' (run_inherited E [store_path @ ''/bin/switch-to-configuration'', mode]))
      | _ \<Rightarrow> lift_r (Inl (Msg (''activate for '' @ seed_type_str ty @ '' is not supported by this CLI''))))"

section \<open>Rebooting\<close>

definition canonicalize :: "site \<Rightarrow> string \<Rightarrow> string client" where
  "canonicalize E p = ctx (''eval symlink '' @ p) (asking (\<lambda>n. si_canonicalize E n p))"

definition boot_components :: "string list" where
  "boot_components = [''/initrd'', ''/kernel'', ''/kernel-modules'']"

definition needs_reboot_at :: "site \<Rightarrow> string \<Rightarrow> string \<Rightarrow> string \<Rightarrow> bool client" where
  "needs_reboot_at E profile current booted =
     seq (canonicalize E profile) (\<lambda>profile.
     seq (canonicalize E current) (\<lambda>current.
     seq (canonicalize E booted) (\<lambda>booted.
     if current \<noteq> profile then ret True
     else ret (list_ex (\<lambda>sub. current @ sub \<noteq> booted @ sub) boot_components))))"

definition needs_reboot :: "site \<Rightarrow> bool client" where
  "needs_reboot E = needs_reboot_at E SYSTEM_PROFILE ''/run/current-system'' ''/run/booted-system''"

definition reboot_schedule_cmd :: "string list" where
  "reboot_schedule_cmd =
     [''systemd-run'', ''--on-active=5s'', ''--no-block'', ''--unit=sower-client-reboot'', ''systemctl'', ''reboot'']"

definition reboot_run :: "site \<Rightarrow> bool \<Rightarrow> unit client" where
  "reboot_run E yes =
     seq (needs_reboot E) (\<lambda>needed.
     if \<not> needed then ret ()
     else if \<not> yes then ret ()
     else ctx ''schedule reboot'' (run_inherited E reboot_schedule_cmd))"

section \<open>The commands\<close>

record seed_ctx =
  sc_name :: string
  sc_type :: seed_type

definition build_ctx :: "unit result \<Rightarrow> string option \<Rightarrow> seed_type option \<Rightarrow> seed_ctx result" where
  "build_ctx connected name ty =
     bind_r (ok_or ''missing --name'' name) (\<lambda>n.
     bind_r (ok_or ''missing --type'' ty) (\<lambda>t.
     bind_r connected (\<lambda>_.
     Inr \<lparr>sc_name = n, sc_type = t\<rparr>)))"

definition latest_seed :: "site \<Rightarrow> seed_ctx \<Rightarrow> seed client" where
  "latest_seed E C =
     ctx ''fetch latest seed'' (asking (\<lambda>n. si_latest_seed E n (sc_name C) (seed_type_str (sc_type C))))"

definition list_caches :: "site \<Rightarrow> nix_cache list client" where
  "list_caches E = ctx ''list nix caches'' (asking (si_caches E))"

definition create_seed :: "site \<Rightarrow> seed \<Rightarrow> seed client" where
  "create_seed E body =
     seq (note_event (CreatedSeed body)) (\<lambda>_. ctx ''create seed'' (asking (\<lambda>n. si_new_seed E n body)))"

definition download_run :: "site \<Rightarrow> seed_ctx \<Rightarrow> bool \<Rightarrow> unit client" where
  "download_run E C initrd =
     seq (latest_seed E C) (\<lambda>seed.
     seq (list_caches E) (\<lambda>caches.
     realize E (sd_artifact seed) caches initrd None))"

definition info_run :: "site \<Rightarrow> seed_ctx \<Rightarrow> unit client" where
  "info_run E C = seq (latest_seed E C) (\<lambda>seed. ret ())"

definition submit_run :: "site \<Rightarrow> seed_ctx \<Rightarrow> string \<Rightarrow> string list \<Rightarrow> unit client" where
  "submit_run E C artifact raw_tags =
     seq (ctx ''pre-check seed for submission'' (precheck E artifact (sc_type C))) (\<lambda>_.
     seq (lift_r (parse_tags raw_tags)) (\<lambda>tags.
     seq (check (is_utf8 artifact) (''artifact path is not valid UTF-8: '' @ debug_str artifact)) (\<lambda>_.
     seq (create_seed E \<lparr>sd_artifact = artifact, sd_name = sc_name C, sd_type = sc_type C, sd_sid = None, sd_tags = tags\<rparr>) (\<lambda>_.
     ret ()))))"

definition upgrade_run :: "site \<Rightarrow> seed_ctx \<Rightarrow> string \<Rightarrow> bool \<Rightarrow> unit client" where
  "upgrade_run E C mode yes =
     seq (check (\<not> (sc_type C = Nixos \<and> \<not> si_root E)) ''upgrades for nixos must be run by root'') (\<lambda>_.
     seq (latest_seed E C) (\<lambda>seed.
     seq (list_caches E) (\<lambda>caches.
     seq (realize E (sd_artifact seed) caches False None) (\<lambda>_.
     seq (activate E (sc_type C) (sd_artifact seed) mode) (\<lambda>_.
     if sc_type C = Nixos then reboot_run E yes else ret ())))))"

datatype seed_command = Download bool | Info | Reboot bool | Submit string "string list" | Upgrade string bool

definition start_runtime :: "site \<Rightarrow> unit client" where
  "start_runtime E = lift_r (with_context ''build tokio runtime'' (si_runtime E))"

lemma start_runtime_apply [simp]: "start_runtime E c = (with_context ''build tokio runtime'' (si_runtime E), c)"
  by (simp add: start_runtime_def)

definition seed_run :: "site \<Rightarrow> unit result \<Rightarrow> string option \<Rightarrow> seed_type option \<Rightarrow> seed_command \<Rightarrow> unit client" where
  "seed_run E connected name ty command =
     seq (start_runtime E) (\<lambda>_.
     case command of
        Download initrd \<Rightarrow> seq (lift_r (build_ctx connected name ty)) (\<lambda>C. download_run E C initrd)
      | Info \<Rightarrow> seq (lift_r (build_ctx connected name ty)) (\<lambda>C. info_run E C)
      | Reboot yes \<Rightarrow> reboot_run E yes
      | Submit artifact tags \<Rightarrow> seq (lift_r (build_ctx connected name ty)) (\<lambda>C. submit_run E C artifact tags)
      | Upgrade mode yes \<Rightarrow> seq (lift_r (build_ctx connected name ty)) (\<lambda>C. upgrade_run E C mode yes))"

section \<open>Properties\<close>

text \<open>The texts of the seed types are exactly what the parser accepts: parsing a text gives a type if and only if the
  text is that type's.\<close>

theorem seed_type_roundtrip: "parse_seed_type s = Inr ty \<longleftrightarrow> s = seed_type_str ty"
  by (cases ty) (auto simp: parse_seed_type_def)

text \<open>Tags are read back as they are written: \<open>key=value\<close> with an equals sign in no key gives the
  keys and the values in order, and the values may contain more equals signs.\<close>

theorem tags_roundtrip:
  assumes "\<forall>t \<in> set ts. CHR ''='' \<notin> set (tag_key t)"
  shows "parse_tags (map (\<lambda>t. tag_key t @ ''='' @ tag_value t) ts) = Inr ts"
  using assms
proof (induction ts)
  case Nil
  then show ?case by (simp add: parse_tags_def)
next
  case (Cons t ts)
  then have "parse_tag (tag_key t @ ''='' @ tag_value t) = Inr t"
    using split_once_append [of "CHR ''=''" "tag_key t" "tag_value t"] by (simp add: parse_tag_def)
  then show ?case using Cons by (simp add: parse_tags_def)
qed

theorem tags_roundtrip_witness:
  "parse_tags [''url=https://h/a=b''] = Inr [\<lparr>tag_key = ''url'', tag_value = ''https://h/a=b''\<rparr>]"
  using tags_roundtrip [of "[\<lparr>tag_key = ''url'', tag_value = ''https://h/a=b''\<rparr>]"] by simp

lemma does_run: "[cmd] \<in> L \<Longrightarrow> does programs L (run_inherited E cmd)"
  unfolding run_inherited_def
proof (rule does_idle)
  fix s assume L: "[cmd] \<in> L"
  show "does programs L (case s of NotSpawned x \<Rightarrow> lift_r (Inl (Context ''spawn command'' (Msg ''os error'')))
     | Spawned f \<Rightarrow> seq (note_event (Ran cmd)) (\<lambda>_. check (fi_success f) (''command failed with status '' @ fi_status f)))"
  proof (cases s)
    case (Spawned f)
    have "programs (c\<lparr>cr_events := cr_events c @ [Ran cmd]\<rparr>) = programs c @ [cmd]" for c
      by (simp add: programs_def List.map_filter_def)
    then have "does programs L (seq (note_event (Ran cmd)) (\<lambda>_. check (fi_success f) (''command failed with status '' @ fi_status f)))"
      unfolding does_def by (intro allI exI [of _ "[cmd]"]) (simp add: seq_def note_event_def L)
    then show ?thesis by (simp add: Spawned)
  qed (simp add: does_fail [OF L])
qed (rule progs.idle_asking)

lemma does_realize:
  "does programs {[realize_cmd p caches initrd profile], []} (realize E p caches initrd profile)"
  unfolding realize_def
  by (intro does_idle idle_check does_if does_ret does_run) (simp_all add: store_path_exists_def progs.idle_asking)

fun activation_word :: "seed_type \<Rightarrow> string \<Rightarrow> string \<Rightarrow> string list list" where
  "activation_word HomeManager p mode = [[p @ ''/activate'']]"
| "activation_word Nixos p mode = [set_profile_cmd SYSTEM_PROFILE p, [p @ ''/bin/switch-to-configuration'', mode]]"
| "activation_word _ p mode = []"

lemma does_activate: "does programs {activation_word ty p mode} (activate E ty p mode)"
proof (cases ty)
  case Nixos
  have "does programs (followed_by {[set_profile_cmd SYSTEM_PROFILE p]} {[[p @ ''/bin/switch-to-configuration'', mode]]}) (activate E Nixos p mode)"
    unfolding activate_def seed_type.case set_profile_def by (rule does_seq; (intro does_ctx does_run)?) simp_all
  then show ?thesis by (simp add: Nixos followed_by_def)
qed (auto simp: activate_def intro!: does_ctx does_run does_fail)

lemma idle_needs: "idle programs (needs_reboot E)"
  unfolding needs_reboot_def needs_reboot_at_def canonicalize_def by (intro progs.idle_rules)

lemma does_reboot: "does programs {[reboot_schedule_cmd], []} (reboot_run E yes)"
  unfolding reboot_run_def by (intro does_idle idle_needs does_if does_ret does_ctx does_run) simp_all

text \<open>C24: A reboot is asked for exactly when the current system is not the profile's or not the booted one.  The
  three boot components are compared by the paths they would have below the two systems, so a new
  system with the same kernel, initrd and modules counts as a difference too.\<close>

theorem needs_reboot_iff:
  assumes "si_canonicalize E (cr_step c) SYSTEM_PROFILE = Inr profile"
    and "si_canonicalize E (cr_step c + 1) ''/run/current-system'' = Inr current"
    and "si_canonicalize E (cr_step c + 2) ''/run/booted-system'' = Inr booted"
  shows "fst (needs_reboot E c) = Inr (current \<noteq> profile \<or> current \<noteq> booted)"
  using assms
  by (auto simp: needs_reboot_def needs_reboot_at_def canonicalize_def ctx_asking seq_asking boot_components_def)

lemma does_upgrade_tail:
  "does programs (followed_by {[realize_cmd p caches False None], []} (followed_by {activation_word ty p mode}
       (if ty = Nixos then {[reboot_schedule_cmd], []} else {[]})))
     (seq (realize E p caches False None) (\<lambda>_. seq (activate E ty p mode) (\<lambda>_.
       if ty = Nixos then reboot_run E yes else ret ())))" (is "does _ (followed_by _ (followed_by ?A ?B)) _")
proof (rule does_seq [OF does_realize, of "followed_by ?A ?B"])
  have "does programs ?B (if ty = Nixos then reboot_run E yes else ret ())"
    by (cases "ty = Nixos") (simp_all add: does_reboot does_quiet)
  from does_seq [OF does_activate this, of "[]"]
  show "does programs (followed_by ?A ?B) (seq (activate E ty p mode) (\<lambda>_. if ty = Nixos then reboot_run E yes else ret ()))"
    for x :: unit by simp
  show "activation_word ty p mode @ [] \<in> followed_by ?A ?B"
    unfolding followed_by_def by (auto split: if_splits)
qed


theorem needs_reboot_iff_witness:
  "fst (needs_reboot sample_site idle_run) = Inr True"
  using needs_reboot_iff [of sample_site idle_run SYSTEM_PROFILE "''/run/current-system''" "''/run/booted-system''"]
  by (simp add: sample_site_def SYSTEM_PROFILE_def)


end
