(* ===== verification/DeployRef.thy ===== *)
theory DeployRef
  imports SeedOps "HOL-Library.Char_ord" "HOL-Library.List_Lexorder"
begin

text \<open>
  The pure part of \<open>src/src/commands/deploy.rs\<close>: flake references and their attributes, the names of
  gardens and seeds they imply, and the manifest of a canonical seed.
\<close>

section \<open>Attributes\<close>

definition cons_first :: "char \<Rightarrow> string list \<Rightarrow> string list" where
  "cons_first c ps = (c # hd ps) # tl ps"

text \<open>\<open>attr.split(closure)\<close> with the closure's two flags as arguments.\<close>

fun components_from :: "bool \<Rightarrow> bool \<Rightarrow> string \<Rightarrow> string list" where
  "components_from quoted escaped [] = [[]]"
| "components_from quoted escaped (c # s) =
     (if escaped then cons_first c (components_from quoted False s)
      else if c = char_backslash \<and> quoted then cons_first c (components_from quoted True s)
      else if c = char_dquote then cons_first c (components_from (\<not> quoted) False s)
      else if c = CHR ''.'' \<and> \<not> quoted then [] # components_from quoted False s
      else cons_first c (components_from quoted False s))"

definition attribute_components :: "string \<Rightarrow> string list" where
  "attribute_components attr = components_from False False attr"

definition unquote_component :: "string \<Rightarrow> string" where
  "unquote_component c =
     (case Option.bind (strip_prefix [char_dquote] c) (strip_suffix [char_dquote]) of Some m \<Rightarrow> m | None \<Rightarrow> c)"

definition job_namespaces :: "string list" where
  "job_namespaces = [''nixos'', ''home'', ''seed'']"

definition canonical_job :: "string \<Rightarrow> (string \<times> string) option" where
  "canonical_job attr =
     Option.bind (split_once CHR ''/'' attr) (\<lambda>(prefix, name).
     (let component = last (attribute_components prefix) in
      Option.bind
        (case strip_prefix [char_dquote] component of
           Some namespace \<Rightarrow>
             Option.bind (strip_suffix [char_dquote] name) (\<lambda>name.
             if char_dquote \<in> set name then None else Some (namespace, name))
         | None \<Rightarrow> Some (component, name))
        (\<lambda>(namespace, name).
         if name \<noteq> [] \<and> namespace \<in> set job_namespaces then Some (namespace, name) else None)))"

definition flake_installable :: "string \<Rightarrow> (string \<times> string option) result" where
  "flake_installable reference =
     bind_r (ok_or (debug_str reference @ '' has no attribute; expected something like `.#myhost`'') (split_once CHR ''#'' reference))
       (\<lambda>(flake, attr).
     bind_r (ensure (attr \<noteq> []) (debug_str reference @ '' has an empty attribute'')) (\<lambda>_.
     case canonical_job attr of
       Some (_, name) \<Rightarrow> Inr (reference, Some name)
     | None \<Rightarrow>
         (case attribute_components attr of
            first # second # _ \<Rightarrow>
              Inr (reference, if first = ''nixosConfigurations'' then Some (unquote_component second) else None)
          | _ \<Rightarrow> Inr (flake @ ''#nixosConfigurations.'' @ attr @ ''.config.system.build.toplevel'',
                 Some (unquote_component attr)))))"

definition garden_of_attr :: "string \<Rightarrow> string option" where
  "garden_of_attr attr =
     (case canonical_job attr of
        Some (_, name) \<Rightarrow> Some name
      | None \<Rightarrow>
          (case attribute_components attr of
             [name] \<Rightarrow> if name \<noteq> [] then Some (unquote_component name) else None
           | _ \<Rightarrow> None))"

definition resolve_garden :: "string option \<Rightarrow> string option \<Rightarrow> string result" where
  "resolve_garden to_garden flake =
     (case to_garden of
        Some t \<Rightarrow> Inr t
      | None \<Rightarrow> ok_or ''missing --to: no garden to deploy to''
          (Option.bind flake (\<lambda>reference.
           Option.bind (split_once CHR ''#'' reference) (\<lambda>(_, attr). garden_of_attr attr))))"

section \<open>Names of store paths\<close>

definition file_name :: "string \<Rightarrow> string option" where
  "file_name p = (case filter (\<lambda>c. c \<noteq> [] \<and> c \<noteq> ''.'') (split_char CHR ''/'' p) of
     [] \<Rightarrow> None
   | cs \<Rightarrow> if last cs = ''..'' then None else Some (last cs))"

definition split_once_str :: "string \<Rightarrow> string \<Rightarrow> (string \<times> string) option" where
  "split_once_str sep s = map_option (\<lambda>k. (take k s, drop (k + length sep) s)) (find_window sep s)"

definition infer_name :: "string \<Rightarrow> string option" where
  "infer_name artifact =
     Option.bind (file_name artifact) (\<lambda>base.
     Option.bind (split_once_str ''-nixos-system-'' base) (\<lambda>(_, rest).
     Option.bind (rsplit_once CHR ''-'' rest) (\<lambda>(host, _).
     if host \<noteq> [] then Some host else None)))"

section \<open>Seed manifests\<close>

record manifest =
  mf_version :: nat
  mf_name :: string
  mf_type :: seed_type
  mf_artifact :: string
  mf_tags :: "(string \<times> string) list"

text \<open>A \<open>BTreeMap\<close> read from an object: sorted by key, the last value of a key counts.\<close>

fun tree_insert :: "string \<Rightarrow> string \<Rightarrow> (string \<times> string) list \<Rightarrow> (string \<times> string) list" where
  "tree_insert k v [] = [(k, v)]"
| "tree_insert k v ((l, w) # rest) =
     (if k = l then (k, v) # rest else if k < l then (k, v) # (l, w) # rest else (l, w) # tree_insert k v rest)"

fun decode_tags :: "(string \<times> json) list \<Rightarrow> (string \<times> string) list \<Rightarrow> (string \<times> string) list result" where
  "decode_tags [] m = Inr m"
| "decode_tags ((k, v) # kvs) m =
     bind_r (ok_or ''invalid type: expected a string'' (as_str v)) (\<lambda>s. decode_tags kvs (tree_insert k s m))"

definition field :: "(string \<times> json) list \<Rightarrow> string \<Rightarrow> json result" where
  "field kvs k = ok_or (''missing field `'' @ k @ ''`'') (map_of kvs k)"

definition manifest_fields :: "string list" where
  "manifest_fields = [''version'', ''name'', ''seed_type'', ''artifact'', ''tags'']"

text \<open>The derived deserializer: no unknown and no repeated field, every field of its type.\<close>

definition decode_manifest :: "json \<Rightarrow> manifest result" where
  "decode_manifest j =
     bind_r (ok_or ''invalid type: expected struct SeedManifest'' (as_object (struct_value manifest_fields 5 j))) (\<lambda>kvs.
     bind_r (ensure (set (map fst kvs) \<subseteq> set manifest_fields) ''unknown field'') (\<lambda>_.
     bind_r (ensure (distinct (map fst kvs)) ''duplicate field'') (\<lambda>_.
     bind_r (bind_r (field kvs ''version'') (\<lambda>v. case v of
         JNum n \<Rightarrow> bind_r (ensure (0 \<le> n \<and> n < 18446744073709551616) ''invalid value'') (\<lambda>_. Inr (nat n))
       | _ \<Rightarrow> Inl (Msg ''invalid type: expected u64''))) (\<lambda>version.
     bind_r (bind_r (field kvs ''name'') (\<lambda>v. ok_or ''invalid type: expected a string'' (as_str v))) (\<lambda>name.
     bind_r (bind_r (bind_r (field kvs ''seed_type'') (\<lambda>v. ok_or ''invalid type: expected a variant'' (variant_name v))) parse_seed_type) (\<lambda>ty.
     bind_r (bind_r (field kvs ''artifact'') (\<lambda>v. ok_or ''invalid type: expected a string'' (as_str v))) (\<lambda>artifact.
     bind_r (bind_r (bind_r (field kvs ''tags'') (\<lambda>v. ok_or ''invalid type: expected a map'' (as_object v))) (\<lambda>ts. decode_tags ts [])) (\<lambda>tags.
     Inr \<lparr>mf_version = version, mf_name = name, mf_type = ty, mf_artifact = artifact, mf_tags = tags\<rparr>))))))))"

definition nix_hash_char :: "char \<Rightarrow> bool" where
  "nix_hash_char c = (c \<in> set ''0123456789abcdfghijklmnpqrsvwxyz'')"

definition valid_artifact :: "string \<Rightarrow> bool" where
  "valid_artifact a =
     (case Option.bind (strip_prefix ''/nix/store/'' a) (split_once CHR ''-'') of
        Some (hash, name) \<Rightarrow>
          length hash = 32 \<and> list_all nix_hash_char hash \<and> name \<noteq> [] \<and> CHR ''/'' \<notin> set name
      | None \<Rightarrow> False)"

definition validate_manifest :: "manifest \<Rightarrow> manifest result" where
  "validate_manifest m =
     bind_r (ensure (mf_version m = 1)
       (''unsupported seed manifest version '' @ show_nat (mf_version m) @ ''; expected 1'')) (\<lambda>_.
     bind_r (ensure (mf_name m \<noteq> []) ''seed manifest name must not be empty'') (\<lambda>_.
     bind_r (ensure (valid_artifact (mf_artifact m)) ''seed manifest artifact must be a top-level Nix store path'') (\<lambda>_.
     Inr m)))"

definition parse_manifest :: "(string \<Rightarrow> json result) \<Rightarrow> string \<Rightarrow> manifest result" where
  "parse_manifest parse text =
     bind_r (with_context ''decode seed manifest'' (bind_r (parse text) decode_manifest)) validate_manifest"

section \<open>Properties\<close>

lemma components_not_Nil [simp]: "components_from q e s \<noteq> []"
  by (cases "(q, e, s)" rule: components_from.cases) (auto simp: cons_first_def)

lemma join_cons_first: "ps \<noteq> [] \<Longrightarrow> join_with ''.'' (cons_first c ps) = c # join_with ''.'' ps"
  by (cases ps; cases "tl ps") (auto simp: cons_first_def)

lemma join_Nil_first: "ps \<noteq> [] \<Longrightarrow> join_with ''.'' ([] # ps) = CHR ''.'' # join_with ''.'' ps"
  by (cases ps) auto

lemma join_components: "join_with ''.'' (components_from q e s) = s"
  by (induction q e s rule: components_from.induct) (auto simp: join_cons_first join_Nil_first)

lemma components_unquoted: "char_dquote \<notin> set s \<Longrightarrow> components_from False False s = split_char CHR ''.'' s"
  by (induction s) (auto simp: cons_first_def split: list.splits)

text \<open>A quoted name is one component, whatever dots it has.\<close>

lemma components_quoted:
  "char_dquote \<notin> set n \<Longrightarrow> char_backslash \<notin> set n \<Longrightarrow>
     components_from True False (n @ char_dquote # r) = (n @ char_dquote # hd (components_from False False r)) # tl (components_from False False r)"
  by (induction n) (auto simp: cons_first_def)

text \<open>Taking an attribute apart loses nothing: its components joined with dots are the attribute again; without quotes
  they are the parts between the dots, and a quoted host name is a single component however many dots it has.\<close>

theorem attribute_components_lossless:
  "join_with ''.'' (attribute_components attr) = attr
   \<and> (char_dquote \<notin> set attr \<longrightarrow> attribute_components attr = split_char CHR ''.'' attr)
   \<and> (\<forall>n. char_dquote \<notin> set n \<and> char_backslash \<notin> set n
        \<longrightarrow> attribute_components (debug_str n) = [debug_str n] \<and> unquote_component (debug_str n) = n)"
proof (intro conjI allI impI)
  show "join_with ''.'' (attribute_components attr) = attr"
    by (simp add: attribute_components_def join_components)
  show "char_dquote \<notin> set attr \<Longrightarrow> attribute_components attr = split_char CHR ''.'' attr"
    by (simp add: attribute_components_def components_unquoted)
  fix n assume n: "char_dquote \<notin> set n \<and> char_backslash \<notin> set n"
  show "attribute_components (debug_str n) = [debug_str n]"
    using components_quoted [of n "[]"] n by (simp add: attribute_components_def debug_str_def cons_first_def)
  have "strip_suffix [char_dquote] (n @ [char_dquote]) = Some n" by (simp add: strip_suffix_Some_iff)
  then show "unquote_component (debug_str n) = n"
    by (simp add: unquote_component_def debug_str_def)
qed

theorem attribute_components_lossless_witness:
  "attribute_components (debug_str ''a.b'') = [debug_str ''a.b''] \<and> attribute_components ''a.b'' = [''a'', ''b'']"
  using attribute_components_lossless [of "''a.b''"] by auto

text \<open>The garden a deployment goes to and the seed that is built agree: whenever no garden is given and one is
  inferred from the flake reference, the reference can be built and the seed is named like the garden.\<close>

theorem garden_is_seed_name:
  assumes "resolve_garden None (Some reference) = Inr garden"
  shows "\<exists>installable. flake_installable reference = Inr (installable, Some garden)"
proof -
  obtain flake attr where sp: "split_once CHR ''#'' reference = Some (flake, attr)" and g: "garden_of_attr attr = Some garden"
    using assms by (auto simp: resolve_garden_def result_simps bind_eq_Some_conv)
  show ?thesis
  proof (cases "canonical_job attr")
    case (Some j)
    have "attr \<noteq> []" using Some by (auto simp: canonical_job_def)
    then show ?thesis using Some g sp by (cases j) (auto simp: garden_of_attr_def flake_installable_def)
  next
    case None
    then obtain name where c: "attribute_components attr = [name]" "name \<noteq> []" "garden = unquote_component name"
      using g by (auto simp: garden_of_attr_def split: list.splits if_splits)
    then have "attr = name" using join_components [of False False attr] by (simp add: attribute_components_def)
    then show ?thesis using c sp None by (simp add: flake_installable_def)
  qed
qed

theorem garden_is_seed_name_witness:
  "\<exists>installable. flake_installable ''.#web'' = Inr (installable, Some ''web'')"
proof (rule garden_is_seed_name)
  show "resolve_garden None (Some ''.#web'') = Inr ''web''" by code_simp
qed

lemma valid_artifact_iff:
  "valid_artifact a \<longleftrightarrow> (\<exists>hash name. a = ''/nix/store/'' @ hash @ CHR ''-'' # name \<and> length hash = 32
     \<and> list_all nix_hash_char hash \<and> name \<noteq> [] \<and> CHR ''/'' \<notin> set name)"
proof -
  have "\<not> nix_hash_char CHR ''-''" by (simp add: nix_hash_char_def)
  then have dash: "CHR ''-'' \<notin> set hash" if "list_all nix_hash_char hash" for hash
    using that unfolding list_all_iff by blast
  show ?thesis (is "_ \<longleftrightarrow> ?R")
  proof
    assume "valid_artifact a"
    then obtain p where p: "Option.bind (strip_prefix ''/nix/store/'' a) (split_once CHR ''-'') = Some p"
      unfolding valid_artifact_def by (cases "Option.bind (strip_prefix ''/nix/store/'' a) (split_once CHR ''-'')") simp_all
    obtain hash name where hn: "p = (hash, name)" by fastforce
    obtain rest where r: "strip_prefix ''/nix/store/'' a = Some rest" "split_once CHR ''-'' rest = Some (hash, name)"
      using p unfolding hn bind_eq_Some_conv by blast
    have ok: "length hash = 32 \<and> list_all nix_hash_char hash \<and> name \<noteq> [] \<and> CHR ''/'' \<notin> set name"
      using \<open>valid_artifact a\<close> p unfolding valid_artifact_def hn by simp
    have "a = ''/nix/store/'' @ rest" "rest = hash @ CHR ''-'' # name"
      using r by (simp_all only: strip_prefix_Some_iff split_once_Some_iff)
    with ok show ?R by blast
  next
    assume ?R
    then obtain hash name where a: "a = ''/nix/store/'' @ (hash @ CHR ''-'' # name)"
      and ok: "length hash = 32" "list_all nix_hash_char hash" "name \<noteq> []" "CHR ''/'' \<notin> set name" by blast
    have "strip_prefix ''/nix/store/'' a = Some (hash @ CHR ''-'' # name)"
      unfolding a by (rule strip_prefix_append)
    then show "valid_artifact a"
      using ok split_once_append [OF dash [OF ok(2)], of name] by (simp add: valid_artifact_def)
  qed
qed

text \<open>A manifest is accepted only if it has exactly the five known fields (of an object, or in their order), each once, is of
  version 1 and with a non-empty name, and its artifact is a store path itself: the store
  directory, a 32-character Nix hash, a dash, and a name without a slash.  So no path below or beside a
  store path can be deployed through a manifest.\<close>

theorem manifest_sound:
  assumes "parse_manifest parse text = Inr m"
  shows "mf_version m = 1 \<and> mf_name m \<noteq> []
    \<and> (\<exists>hash name. mf_artifact m = ''/nix/store/'' @ hash @ CHR ''-'' # name \<and> length hash = 32
         \<and> list_all nix_hash_char hash \<and> name \<noteq> [] \<and> CHR ''/'' \<notin> set name)
    \<and> (\<exists>j kvs. parse text = Inr j \<and> struct_value manifest_fields 5 j = JObj kvs \<and> distinct (map fst kvs) \<and> set (map fst kvs) = set manifest_fields
         \<and> map_of kvs ''artifact'' = Some (JStr (mf_artifact m)) \<and> map_of kvs ''name'' = Some (JStr (mf_name m)))"
proof -
  obtain j where j: "parse text = Inr j" "decode_manifest j = Inr m" and v: "validate_manifest m = Inr m"
    using assms by (auto simp: parse_manifest_def result_simps validate_manifest_def)
  obtain kvs where kvs: "struct_value manifest_fields 5 j = JObj kvs"
    using j(2) by (cases "struct_value manifest_fields 5 j") (auto simp: decode_manifest_def)
  have d: "distinct (map fst kvs)" and s: "set (map fst kvs) \<subseteq> set manifest_fields"
    and f: "\<forall>k \<in> set manifest_fields. \<exists>v. map_of kvs k = Some v"
    and a: "map_of kvs ''artifact'' = Some (JStr (mf_artifact m))" and n: "map_of kvs ''name'' = Some (JStr (mf_name m))"
    using j(2) unfolding decode_manifest_def kvs by (auto simp: result_simps field_def manifest_fields_def as_str_Some_iff)
  have "set manifest_fields \<subseteq> set (map fst kvs)"
    using f by (auto dest!: map_of_SomeD simp: image_iff) (metis fst_conv map_of_SomeD)
  then show ?thesis
    using v d s a n j(1) by (auto simp: kvs validate_manifest_def result_simps valid_artifact_iff)
qed

definition sample_manifest :: json where
  "sample_manifest = JObj [(''version'', JNum 1), (''name'', JStr ''web''), (''seed_type'', JStr ''nixos''),
     (''artifact'', JStr sample_artifact), (''tags'', JObj [])]"

lemma sample_artifact_valid: "valid_artifact sample_artifact"
  unfolding valid_artifact_iff sample_artifact_def
  by (rule exI [of _ "replicate 32 CHR ''0''"], rule exI [of _ "''nixos-system-web-25.05''"])
    (simp add: numeral_eq_Suc nix_hash_char_def)

lemma sample_manifest_parsed:
  "parse_manifest (\<lambda>_. Inr sample_manifest) t
     = Inr \<lparr>mf_version = 1, mf_name = ''web'', mf_type = Nixos, mf_artifact = sample_artifact, mf_tags = []\<rparr>"
  by (simp add: parse_manifest_def sample_manifest_def decode_manifest_def manifest_fields_def field_def parse_seed_type_def
      validate_manifest_def sample_artifact_valid)

theorem manifest_sound_witness:
  "\<exists>hash name. sample_artifact = ''/nix/store/'' @ hash @ CHR ''-'' # name \<and> length hash = 32 \<and> name \<noteq> []"
  using manifest_sound [OF sample_manifest_parsed] by auto

end
