(* ===== verification/BuildForward.thy ===== *)
theory BuildForward
  imports Numbers DeployRef Utf8
begin

text \<open>
  \<open>sower build\<close> (\<open>src/src/commands/build.rs\<close>): the arguments are forwarded to the Elixir program as a command line.
  A reader of such command lines shows that nothing is lost.  Also here is the dispatch of \<open>main.rs\<close> on the
  name the program was started with.
\<close>

section \<open>The command line\<close>

datatype eval_type = Auto | Flake | Path

record build_args =
  ba_target :: string
  ba_non_authoritative :: bool
  ba_eval_only :: bool
  ba_push :: bool
  ba_seed :: bool
  ba_use_eval_cache :: bool
  ba_fail_fast :: bool
  ba_attr :: bool
  ba_cache :: "string list"
  ba_eval_jobs :: "32 word option"
  ba_build_jobs :: "32 word option"
  ba_tag :: "string list"
  ba_eval_type :: "eval_type option"
  ba_memory_limit :: "32 word option"
  ba_debug :: bool
  ba_endpoint :: "string option"
  ba_access_token_file :: "string option"

text \<open>The names clap derives for the values.\<close>

fun eval_type_name :: "eval_type \<Rightarrow> string" where
  "eval_type_name Auto = ''auto''"
| "eval_type_name Flake = ''flake''"
| "eval_type_name Path = ''path''"

definition build_flags :: "build_args \<Rightarrow> (string \<times> bool) list" where
  "build_flags A =
     [(''--debug'', ba_debug A), (''--non-authoritative'', ba_non_authoritative A), (''--eval-only'', ba_eval_only A),
      (''--push'', ba_push A), (''--seed'', ba_seed A), (''--use-eval-cache'', ba_use_eval_cache A),
      (''--fail-fast'', ba_fail_fast A), (''--attr'', ba_attr A)]"

definition option_pair :: "string \<Rightarrow> string option \<Rightarrow> string list" where
  "option_pair name v = (case v of None \<Rightarrow> [] | Some x \<Rightarrow> [name, x])"

definition repeated :: "string \<Rightarrow> string list \<Rightarrow> string list" where
  "repeated name vs = concat (map (\<lambda>v. [name, v]) vs)"

definition show_u32 :: "32 word \<Rightarrow> string" where
  "show_u32 n = show_nat (unat n)"

definition to_argv :: "build_args \<Rightarrow> string list" where
  "to_argv A =
     [''build'']
     @ map fst (filter snd (build_flags A))
     @ repeated ''--cache'' (ba_cache A)
     @ option_pair ''--eval-jobs'' (map_option show_u32 (ba_eval_jobs A))
     @ option_pair ''--build-jobs'' (map_option show_u32 (ba_build_jobs A))
     @ repeated ''--tag'' (ba_tag A)
     @ option_pair ''--eval-type'' (map_option eval_type_name (ba_eval_type A))
     @ option_pair ''--memory-limit'' (map_option show_u32 (ba_memory_limit A))
     @ option_pair ''--endpoint'' (ba_endpoint A)
     @ option_pair ''--access-token-file'' (ba_access_token_file A)
     @ [ba_target A]"

text \<open>\<open>exec\<close> only returns with an error; the program is the one of the environment or \<open>sower-build\<close>.\<close>

definition build_run :: "string option \<Rightarrow> (string \<Rightarrow> string list \<Rightarrow> error) \<Rightarrow> build_args \<Rightarrow> unit result" where
  "build_run cli exec A =
     (let bin = (case cli of None \<Rightarrow> ''sower-build'' | Some b \<Rightarrow> b) in
      Inl (Context (''exec '' @ bin) (exec bin (to_argv A))))"

section \<open>Reading a command line\<close>

text \<open>
  A reference reader of the forwarded command lines: flags and options with their values may come in any order, an option with one value may be
  given once, a word that is neither is refused, and the last word is the target, even when it looks like an option.
\<close>

definition flag_names :: "string list" where
  "flag_names = [''--debug'', ''--non-authoritative'', ''--eval-only'', ''--push'', ''--seed'', ''--use-eval-cache'', ''--fail-fast'', ''--attr'']"

definition option_names :: "string list" where
  "option_names = [''--cache'', ''--eval-jobs'', ''--build-jobs'', ''--tag'', ''--eval-type'', ''--memory-limit'', ''--endpoint'',
     ''--access-token-file'']"

fun scan :: "string list \<Rightarrow> (string list \<times> (string \<times> string) list \<times> string) option" where
  "scan [] = None"
| "scan [target] = Some ([], [], target)"
| "scan (w # v # ws) =
     (if w \<in> set flag_names then map_option (\<lambda>(flags, given, target). (w # flags, given, target)) (scan (v # ws))
      else if w \<in> set option_names then map_option (\<lambda>(flags, given, target). (flags, (w, v) # given, target)) (scan ws)
      else None)"

definition values_of :: "string \<Rightarrow> (string \<times> string) list \<Rightarrow> string list" where
  "values_of name given = map snd (filter (\<lambda>(n, _). n = name) given)"

definition value_of :: "(string \<Rightarrow> 'a option) \<Rightarrow> string \<Rightarrow> (string \<times> string) list \<Rightarrow> 'a option option" where
  "value_of read name given =
     (case values_of name given of [] \<Rightarrow> Some None | [v] \<Rightarrow> map_option Some (read v) | _ \<Rightarrow> None)"

definition read_u32 :: "string \<Rightarrow> 32 word option" where
  "read_u32 s = map_option of_nat (parse_uint (2 ^ 32) s)"

definition read_eval_type :: "string \<Rightarrow> eval_type option" where
  "read_eval_type s =
     (if s = ''auto'' then Some Auto else if s = ''flake'' then Some Flake else if s = ''path'' then Some Path else None)"

definition parse_argv :: "string list \<Rightarrow> build_args option" where
  "parse_argv argv =
     (case argv of
        [] \<Rightarrow> None
      | command # ws \<Rightarrow> if command \<noteq> ''build'' then None else
          Option.bind (scan ws) (\<lambda>(flags, given, target).
          Option.bind (value_of read_u32 ''--eval-jobs'' given) (\<lambda>eval_jobs.
          Option.bind (value_of read_u32 ''--build-jobs'' given) (\<lambda>build_jobs.
          Option.bind (value_of read_eval_type ''--eval-type'' given) (\<lambda>ty.
          Option.bind (value_of read_u32 ''--memory-limit'' given) (\<lambda>memory.
          Option.bind (value_of Some ''--endpoint'' given) (\<lambda>endpoint.
          Option.bind (value_of Some ''--access-token-file'' given) (\<lambda>token_file.
          Some \<lparr>ba_target = target, ba_non_authoritative = ''--non-authoritative'' \<in> set flags,
            ba_eval_only = ''--eval-only'' \<in> set flags, ba_push = ''--push'' \<in> set flags, ba_seed = ''--seed'' \<in> set flags,
            ba_use_eval_cache = ''--use-eval-cache'' \<in> set flags, ba_fail_fast = ''--fail-fast'' \<in> set flags,
            ba_attr = ''--attr'' \<in> set flags, ba_cache = values_of ''--cache'' given, ba_eval_jobs = eval_jobs,
            ba_build_jobs = build_jobs, ba_tag = values_of ''--tag'' given, ba_eval_type = ty, ba_memory_limit = memory,
            ba_debug = ''--debug'' \<in> set flags, ba_endpoint = endpoint, ba_access_token_file = token_file\<rparr>))))))))"

subsection \<open>What is rendered is scanned\<close>

lemma scan_not_Nil: "scan ws = Some x \<Longrightarrow> ws \<noteq> []" by auto

lemma scan_flags:
  "set fs \<subseteq> set flag_names \<Longrightarrow> scan ws = Some (flags, given, target) \<Longrightarrow> scan (fs @ ws) = Some (fs @ flags, given, target)"
proof (induction fs)
  case (Cons f fs)
  then obtain v vs where "fs @ ws = v # vs" by (cases "fs @ ws") (auto dest: scan_not_Nil)
  then show ?case using Cons by auto
qed simp

lemma names_apart: "n \<in> set option_names \<Longrightarrow> n \<notin> set flag_names"
  by (auto simp: option_names_def flag_names_def)

lemma scan_repeated:
  "n \<in> set option_names \<Longrightarrow> scan ws = Some (flags, given, target) \<Longrightarrow>
     scan (repeated n vs @ ws) = Some (flags, map (Pair n) vs @ given, target)"
  by (induction vs) (auto simp: repeated_def dest: names_apart)

lemma option_pair_repeated: "option_pair n v = repeated n (case v of None \<Rightarrow> [] | Some x \<Rightarrow> [x])"
  by (simp add: option_pair_def repeated_def split: option.split)

lemma values_of_append [simp]: "values_of n (xs @ ys) = values_of n xs @ values_of n ys" by (simp add: values_of_def)

lemma values_of_given [simp]: "values_of n (map (Pair m) vs) = (if m = n then vs else [])"
  by (induction vs) (auto simp: values_of_def)

lemma values_of_Nil [simp]: "values_of n [] = []" by (simp add: values_of_def)

definition build_options :: "build_args \<Rightarrow> (string \<times> string list) list" where
  "build_options A =
     [(''--cache'', ba_cache A),
      (''--eval-jobs'', case map_option show_u32 (ba_eval_jobs A) of None \<Rightarrow> [] | Some v \<Rightarrow> [v]),
      (''--build-jobs'', case map_option show_u32 (ba_build_jobs A) of None \<Rightarrow> [] | Some v \<Rightarrow> [v]),
      (''--tag'', ba_tag A),
      (''--eval-type'', case map_option eval_type_name (ba_eval_type A) of None \<Rightarrow> [] | Some v \<Rightarrow> [v]),
      (''--memory-limit'', case map_option show_u32 (ba_memory_limit A) of None \<Rightarrow> [] | Some v \<Rightarrow> [v]),
      (''--endpoint'', case ba_endpoint A of None \<Rightarrow> [] | Some v \<Rightarrow> [v]),
      (''--access-token-file'', case ba_access_token_file A of None \<Rightarrow> [] | Some v \<Rightarrow> [v])]"

lemma scan_options:
  "fst ` set os \<subseteq> set option_names \<Longrightarrow>
     scan (concat (map (\<lambda>(n, vs). repeated n vs) os) @ [target]) = Some ([], concat (map (\<lambda>(n, vs). map (Pair n) vs) os), target)"
  by (induction os) (auto simp: scan_repeated)

lemma to_argv_options:
  "to_argv A = ''build'' # map fst (filter snd (build_flags A)) @ concat (map (\<lambda>(n, vs). repeated n vs) (build_options A)) @ [ba_target A]"
  by (simp only: to_argv_def build_options_def option_pair_repeated list.map concat.simps prod.case append.simps append_assoc append_Nil2)

lemma scan_argv:
  "scan (tl (to_argv A)) =
     Some (map fst (filter snd (build_flags A)), concat (map (\<lambda>(n, vs). map (Pair n) vs) (build_options A)), ba_target A)"
proof -
  have "fst ` set (build_options A) \<subseteq> set option_names" by (simp add: build_options_def option_names_def)
  moreover have "set (map fst (filter snd (build_flags A))) \<subseteq> set flag_names" by (auto simp: build_flags_def flag_names_def)
  ultimately show ?thesis by (simp add: to_argv_options scan_flags [OF _ scan_options])
qed

lemma read_u32_show [simp]: "read_u32 (show_u32 n) = Some n"
proof -
  have "unat n < 2 ^ 32" using unsigned_less [of n, where ?'a = nat] by simp
  then show ?thesis by (simp add: read_u32_def show_u32_def)
qed

lemma read_eval_type_name [simp]: "read_eval_type (eval_type_name t) = Some t"
  by (cases t) (simp_all add: read_eval_type_def)

lemma value_of_given:
  assumes "values_of n given = (case map_option f v of None \<Rightarrow> [] | Some x \<Rightarrow> [x])" "\<And>x. read (f x) = Some x"
  shows "value_of read n given = Some v"
  using assms by (cases v) (simp_all add: value_of_def)


section \<open>The name of the program\<close>

definition invoked_as_activator :: "string list \<Rightarrow> bool" where
  "invoked_as_activator args =
     (case args of [] \<Rightarrow> False | p # _ \<Rightarrow> (case file_name p of None \<Rightarrow> False | Some f \<Rightarrow> is_utf8 f \<and> f = ''sower-activator''))"

definition cli_args :: "string list \<Rightarrow> string list" where
  "cli_args args = (if invoked_as_activator args then ''sower'' # ''activator'' # tl args else args)"

end
