(* ===== verification/Deploy.thy ===== *)
theory Deploy
  imports DeployRef Utf8
begin

text \<open>
  \<open>sower deploy\<close>: \<open>src/src/commands/deploy.rs\<close> and \<open>run\<close> of \<open>deploy/sudo.rs\<close>.  An artifact is built or taken as it
  is, checked and copied; then it is either registered with the server, which deploys it to a
  garden, or activated over SSH.  The connection to the server and the endpoint come from the
  client configuration and are arguments.
\<close>

record deploy_args =
  da_flake :: "string option"
  da_to :: "string option"
  da_seed :: "string option"
  da_path :: "string option"
  da_copy_to :: "string option"
  da_no_substitute :: bool
  da_no_seed_download :: bool
  da_sudo :: bool
  da_name :: "string option"
  da_type :: "seed_type option"
  da_tags :: "string list"
  da_action :: "deploy_action option"
  da_force :: bool
  da_override :: bool
  da_reason :: "string option"
  da_no_wait :: bool

text \<open>What the argument parser lets through (\<open>conflicts_with\<close> and \<open>requires\<close>).\<close>

definition clap_ok :: "deploy_args \<Rightarrow> bool" where
  "clap_ok A = ((da_seed A \<noteq> None \<longrightarrow> da_flake A = None \<and> da_path A = None \<and> da_copy_to A = None \<and> da_tags A = [])
     \<and> (da_path A \<noteq> None \<longrightarrow> da_flake A = None)
     \<and> (da_sudo A \<longrightarrow> da_copy_to A \<noteq> None \<and> da_seed A = None \<and> da_to A = None \<and> da_name A = None \<and> da_tags A = []
          \<and> \<not> da_force A \<and> \<not> da_override A \<and> da_reason A = None \<and> \<not> da_no_wait A))"

definition sudo_type :: "seed_type \<Rightarrow> bool" where
  "sudo_type t = (t = Nixos \<or> t = HomeManager)"

definition validate_args :: "deploy_args \<Rightarrow> unit result" where
  "validate_args A =
     bind_r (ensure (\<not> (da_seed A = None \<and> da_path A = None \<and> da_flake A = None))
       ''nothing to deploy: pass a flake reference, --path or --seed'') (\<lambda>_.
     bind_r (ensure (\<not> (da_override A \<and> (da_reason A = None \<or> da_action A = None)))
       ''--override requires both --action and --reason'') (\<lambda>_.
     if da_sudo A then
       bind_r (parse_target (the (da_copy_to A))) (\<lambda>_.
       ensure (case da_type A of None \<Rightarrow> True | Some t \<Rightarrow> sudo_type t) ''--sudo supports nixos and home-manager activation'')
     else Inr ()))"

section \<open>Building and copying\<close>

definition nom_cmd :: "string \<Rightarrow> string list" where
  "nom_cmd installable = [''nom'', ''build'', ''--no-link'', ''--print-out-paths'', installable]"

definition nix_cmd :: "string \<Rightarrow> string list" where
  "nix_cmd installable = [''nix'', ''build'', ''--no-link'', ''--print-out-paths'', ''--print-build-logs'', installable]"

definition last_line :: "string \<Rightarrow> string option" where
  "last_line s = (case rev (lines s) of [] \<Rightarrow> None | l # _ \<Rightarrow> if l \<noteq> [] then Some l else None)"

definition build_output :: "string \<Rightarrow> string \<Rightarrow> finished \<Rightarrow> string result" where
  "build_output program installable f =
     bind_r (ensure (fi_success f) (program @ '' build failed with status '' @ fi_status f)) (\<lambda>_.
     bind_r (with_context (program @ '' build output is not UTF-8'')
       (ensure (is_utf8 (fi_stdout f)) ''invalid utf-8 sequence'')) (\<lambda>_.
     ok_or (program @ '' build printed no store path for '' @ installable) (last_line (fi_stdout f))))"

definition nix_build :: "site \<Rightarrow> string \<Rightarrow> string client" where
  "nix_build E installable =
     seq (asking (\<lambda>n. Inr (si_spawn E n (nom_cmd installable)))) (\<lambda>s.
     case s of
       Spawned f \<Rightarrow> seq (note_event (Ran (nom_cmd installable))) (\<lambda>_. lift_r (build_output ''nom'' installable f))
     | NotSpawned err \<Rightarrow>
         if err = NotFound \<or> err = Denied then
           seq (asking (\<lambda>n. Inr (si_spawn E n (nix_cmd installable)))) (\<lambda>s.
           case s of
             Spawned f \<Rightarrow> seq (note_event (Ran (nix_cmd installable))) (\<lambda>_. lift_r (build_output ''nix'' installable f))
           | NotSpawned _ \<Rightarrow> lift_r (Inl (Context ''spawn nix build'' (Msg ''os error''))))
         else lift_r (Inl (Context ''spawn nom build'' (Msg ''os error''))))"

definition copy_cmd :: "string \<Rightarrow> string \<Rightarrow> bool \<Rightarrow> string list" where
  "copy_cmd artifact target substitute_on_destination =
     [''nix'', ''copy'', ''--to'', target]
     @ (if substitute_on_destination then [''--substitute-on-destination''] else []) @ [artifact]"

definition nix_copy :: "site \<Rightarrow> string \<Rightarrow> string \<Rightarrow> bool \<Rightarrow> unit client" where
  "nix_copy E artifact target sub = ctx ''nix copy'' (run_inherited E (copy_cmd artifact target sub))"

record prepared =
  pr_artifact :: string
  pr_name :: "string option"
  pr_type :: seed_type
  pr_tags :: "tag list"

text \<open>The path, the name it implies, and whether it is a wrapper with a manifest.\<close>

definition path_text :: "string \<Rightarrow> string result" where
  "path_text path = bind_r (ensure (is_utf8 path) (''path is not valid UTF-8: '' @ path)) (\<lambda>_. Inr path)"

definition built_artifact :: "site \<Rightarrow> deploy_args \<Rightarrow> (string \<times> string option \<times> bool) client" where
  "built_artifact E A =
     (case (da_path A, da_flake A) of
        (Some path, _) \<Rightarrow>
          seq (lift_r (path_text path)) (\<lambda>built.
          seq (asking (\<lambda>n. si_exists E n (path_join path ''seed.json''))) (\<lambda>canonical.
          ret (built, None, canonical)))
      | (None, Some flake) \<Rightarrow>
          seq (lift_r (flake_installable flake)) (\<lambda>(installable, name).
          seq (nix_build E installable) (\<lambda>path.
          ret (path, name, (case split_once CHR ''#'' flake of Some (_, attr) \<Rightarrow> canonical_job attr \<noteq> None | None \<Rightarrow> False))))
      | (None, None) \<Rightarrow> lift_r (Inl (Msg ''unreachable'')))"

definition read_manifest :: "site \<Rightarrow> string \<Rightarrow> manifest client" where
  "read_manifest E built =
     seq (ctx (''read seed manifest '' @ path_join built ''seed.json'')
       (asking (\<lambda>n. si_read E n (path_join built ''seed.json'')))) (\<lambda>text.
     lift_r (with_context (''validate seed manifest '' @ path_join built ''seed.json'') (parse_manifest (si_parse_json E) text)))"

definition select_artifact :: "site \<Rightarrow> deploy_args \<Rightarrow> prepared client" where
  "select_artifact E A =
     seq (built_artifact E A) (\<lambda>(built, inferred, canonical).
     seq (lift_r (parse_tags (da_tags A))) (\<lambda>tags.
     if canonical then
       seq (read_manifest E built) (\<lambda>m.
       ret \<lparr>pr_artifact = mf_artifact m, pr_name = Some (mf_name m),
         pr_type = (case da_type A of Some t \<Rightarrow> t | None \<Rightarrow> mf_type m),
         pr_tags = tags @ map (\<lambda>(k, v). \<lparr>tag_key = k, tag_value = v\<rparr>) (mf_tags m)\<rparr>)
     else
       ret \<lparr>pr_artifact = built, pr_name = inferred,
         pr_type = (case da_type A of Some t \<Rightarrow> t | None \<Rightarrow> Nixos), pr_tags = tags\<rparr>))"

definition check_artifact :: "site \<Rightarrow> deploy_args \<Rightarrow> prepared \<Rightarrow> unit client" where
  "check_artifact E A p =
     seq (check (\<not> (da_sudo A \<and> \<not> sudo_type (pr_type p))) ''--sudo supports nixos and home-manager activation'') (\<lambda>_.
     seq (check (\<not> (da_sudo A \<and> da_action A = Some Restart \<and> pr_type p \<noteq> Nixos))
       ''--sudo --action restart requires a nixos seed'') (\<lambda>_.
     ctx ''pre-check artifact'' (precheck E (pr_artifact p) (pr_type p))))"

definition copy_artifact :: "site \<Rightarrow> deploy_args \<Rightarrow> prepared \<Rightarrow> unit client" where
  "copy_artifact E A p =
     (case da_copy_to A of
        Some target \<Rightarrow> nix_copy E (pr_artifact p) target (\<not> da_no_substitute A)
      | None \<Rightarrow> ret ())"

definition prepare_artifact :: "site \<Rightarrow> deploy_args \<Rightarrow> prepared client" where
  "prepare_artifact E A =
     seq (select_artifact E A) (\<lambda>p.
     seq (check_artifact E A p) (\<lambda>_.
     seq (copy_artifact E A p) (\<lambda>_.
     ret p)))"

section \<open>Activation over SSH\<close>

definition ssh_cmd :: "site \<Rightarrow> target \<Rightarrow> string \<Rightarrow> string option \<Rightarrow> string list" where
  "ssh_cmd E T request endpoint =
     [''ssh'', ''-tt'']
     @ (case tg_user T of Some u \<Rightarrow> [''-l'', u] | None \<Rightarrow> [])
     @ (case tg_port T of Some p \<Rightarrow> [''-p'', p] | None \<Rightarrow> [])
     @ [''--'', tg_host T, remote_command (si_parse_url E) request endpoint]"

definition sudo_run :: "site \<Rightarrow> string \<Rightarrow> string \<Rightarrow> string option \<Rightarrow> unit client" where
  "sudo_run E to_target request endpoint =
     seq (lift_r (parse_target to_target)) (\<lambda>T.
     seq (lift_r (with_context ''invalid activator request'' (si_parse_request E request))) (\<lambda>parsed.
     seq (check (rq_id parsed \<noteq> []) ''activator request is missing its ID'') (\<lambda>_.
     seq (asking (\<lambda>n. case si_ssh E n (ssh_cmd E T request endpoint) of
         None \<Rightarrow> Inl (Context ''start SSH root activation'' (Msg ''os error'')) | Some s \<Rightarrow> Inr s)) (\<lambda>s.
     seq (note_event (Ran (ssh_cmd E T request endpoint))) (\<lambda>_.
     seq (attempt (on_terminal (ssh_stream (si_parse_response E) (rq_id parsed) (ss_reads s)))) (\<lambda>outcome.
     seq (if is_ok outcome then ret () else note_event Terminated) (\<lambda>_.
     seq (lift_r (with_context ''wait for SSH root activation'' (ss_status s))) (\<lambda>status.
     seq (lift_r outcome) (\<lambda>code.
     seq (check (fi_success status) (''SSH root activation transport failed ('' @ fi_status status @ '')'')) (\<lambda>_.
     check (code = 0) (''root activation failed with exit code '' @ show_int code)))))))))))"

definition activation_request :: "prepared \<Rightarrow> deploy_action \<Rightarrow> request" where
  "activation_request p action =
     \<lparr>rq_id = ''sudo-deploy'', rq_kind = seed_type_str (pr_type p), rq_path = pr_artifact p,
      rq_mode = (if action = Restart then ''boot'' else ''switch''), rq_reason = [], rq_seeds = [],
      rq_network_action = None, rq_execution_id = None, rq_lease = None\<rparr>"

definition reboot_request :: "request \<Rightarrow> request" where
  "reboot_request r = r\<lparr>rq_id := ''sudo-reboot'', rq_kind := ''reboot'', rq_path := [], rq_mode := []\<rparr>"

definition deploy_sudo :: "site \<Rightarrow> string option result \<Rightarrow> deploy_args \<Rightarrow> unit client" where
  "deploy_sudo E endpoint A =
     (let action = (case da_action A of Some a \<Rightarrow> a | None \<Rightarrow> Activate) in
      seq (prepare_artifact E A) (\<lambda>p.
      if action = Stage then ret ()
      else
        seq (lift_r endpoint) (\<lambda>ep.
        seq (sudo_run E (the (da_copy_to A)) (si_print_request E (activation_request p action)) ep) (\<lambda>_.
        if action = Restart then
          sudo_run E (the (da_copy_to A)) (si_print_request E (reboot_request (activation_request p action))) ep
        else ret ()))))"

section \<open>Deployment through the server\<close>

definition attr_of :: "string \<Rightarrow> (string \<times> string) option" where
  "attr_of flake = Option.bind (split_once CHR ''#'' flake) (\<lambda>(_, attr). canonical_job attr)"

definition previous_seed :: "site \<Rightarrow> string \<Rightarrow> string \<Rightarrow> seed_type \<Rightarrow> unit client" where
  "previous_seed E garden name ty =
     seq (ctx ''look up garden's latest seed'' (asking (\<lambda>n. si_garden_seed E n garden name (seed_type_str ty)))) (\<lambda>found.
     case found of
       None \<Rightarrow> ret ()
     | Some seed \<Rightarrow>
         seq (list_caches E) (\<lambda>caches.
         ctx (''realize previous seed '' @ sd_artifact seed) (realize E (sd_artifact seed) caches False None)))"

definition warm_type :: "deploy_args \<Rightarrow> string \<Rightarrow> seed_type" where
  "warm_type A flake =
     (case da_type A of
        Some t \<Rightarrow> t
      | None \<Rightarrow> if (case attr_of flake of Some (namespace, _) \<Rightarrow> namespace = ''home'' | None \<Rightarrow> False) then HomeManager else Nixos)"

definition warm_seed :: "site \<Rightarrow> deploy_args \<Rightarrow> string \<Rightarrow> unit client" where
  "warm_seed E A garden =
     (if da_no_seed_download A \<or> da_seed A \<noteq> None \<or> da_sudo A then ret ()
      else (case da_flake A of
          None \<Rightarrow> ret ()
        | Some flake \<Rightarrow>
            (case flake_installable flake of
               Inl _ \<Rightarrow> ret ()
             | Inr (_, inferred) \<Rightarrow>
                 (case (case da_name A of Some n \<Rightarrow> Some n | None \<Rightarrow> inferred) of
                    None \<Rightarrow> ret ()
                  | Some name \<Rightarrow>
                      if da_type A = None \<and> (case attr_of flake of Some (namespace, _) \<Rightarrow> namespace = ''seed'' | None \<Rightarrow> False) then ret ()
                      else seq (attempt (previous_seed E garden name (warm_type A flake))) (\<lambda>_. ret ())))))"

definition resolve_seed :: "site \<Rightarrow> deploy_args \<Rightarrow> string client" where
  "resolve_seed E A =
     (case da_seed A of
        Some sid \<Rightarrow> ret sid
      | None \<Rightarrow>
          seq (prepare_artifact E A) (\<lambda>p.
          seq (lift_r (ok_or (''cannot infer a seed name from '' @ pr_artifact p @ ''; pass --name'')
            (case da_name A of Some n \<Rightarrow> Some n | None \<Rightarrow> (case pr_name p of Some n \<Rightarrow> Some n | None \<Rightarrow> infer_name (pr_artifact p)))))
            (\<lambda>name.
          seq (create_seed E \<lparr>sd_artifact = pr_artifact p, sd_name = name, sd_type = pr_type p, sd_sid = None, sd_tags = pr_tags p\<rparr>)
            (\<lambda>seed.
          lift_r (ok_or ''server returned a seed without a sid'' (sd_sid seed))))))"

definition terminal_result :: "deployment \<Rightarrow> string option" where
  "terminal_result d =
     (if dp_state d \<in> {''created'', ''dispatched'', ''acknowledged''} then None
      else if dp_state d = ''completed'' then Some (case dp_result d of Some r \<Rightarrow> r | None \<Rightarrow> ''failure'')
      else Some (dp_state d))"

text \<open>The last 50 lines of a log.\<close>

definition log_tail :: "string \<Rightarrow> string list" where
  "log_tail log =
     (let tail_bytes = sum_list (map length (take 50 (rev (split_inclusive char_nl log)))) in
      lines (drop (length log - tail_bytes) log))"

definition has_failed_seed :: "deployment \<Rightarrow> bool" where
  "has_failed_seed d = list_ex (\<lambda>s. ds_result s = Some ''failure'') (dp_seeds d)"

fun seed_logs :: "bool \<Rightarrow> deployed_seed list \<Rightarrow> string list" where
  "seed_logs failed [] = []"
| "seed_logs failed (s # ss) =
     (if failed \<and> ds_result s \<noteq> Some ''failure'' then []
      else (case ds_log s of
          Some log \<Rightarrow> if log \<noteq> [] then (''Logs for '' @ ds_name s @ '' ('' @ ds_sid s @ ''):'') # log_tail log else []
        | None \<Rightarrow> []))
     @ seed_logs failed ss"

definition log_tails :: "deployment \<Rightarrow> string list" where
  "log_tails d =
     (let out = seed_logs (has_failed_seed d) (dp_seeds d) in
      if out = [] then [''No deployment logs available.''] else out)"

definition print_log_tails :: "deployment \<Rightarrow> unit client" where
  "print_log_tails d = each (\<lambda>l. note_event (Printed l)) (log_tails d)"

definition poll :: "site \<Rightarrow> string \<Rightarrow> deployment client" where
  "poll E sid = seq (note_event (Fetched sid)) (\<lambda>_. asking (\<lambda>n. si_get_deployment E n sid))"

definition failure_logs :: "site \<Rightarrow> deployment \<Rightarrow> unit client" where
  "failure_logs E d =
     seq (attempt (poll E (dp_sid d))) (\<lambda>latest.
     case latest of
       Inr l \<Rightarrow> print_log_tails l
     | Inl _ \<Rightarrow>
         seq (note_event (Printed ''Could not fetch deployment logs; using last known logs.'')) (\<lambda>_.
         print_log_tails d))"

text \<open>\<open>report\<close>: the seeds whose state is new, and the states seen so far.\<close>

fun report_seeds :: "deployed_seed list \<Rightarrow> (string \<rightharpoonup> string) \<Rightarrow> (string \<times> string) list \<times> (string \<rightharpoonup> string)" where
  "report_seeds [] known = ([], known)"
| "report_seeds (s # ss) known =
     (let state = (case ds_state s of Some x \<Rightarrow> x | None \<Rightarrow> ''pending'') in
      if known (ds_sid s) = Some state then report_seeds ss known
      else (let (lines, known') = report_seeds ss (known(ds_sid s \<mapsto> state)) in ((ds_sid s, state) # lines, known')))"

definition announce :: "deployment \<Rightarrow> (string \<rightharpoonup> string) \<Rightarrow> (string \<rightharpoonup> string) client" where
  "announce d known =
     (let (new, known') = report_seeds (dp_seeds d) known in
      seq (each (\<lambda>(s, state). note_event (Reported s state)) new) (\<lambda>_. ret known'))"

definition finish_wait :: "site \<Rightarrow> string \<Rightarrow> deployment \<Rightarrow> string \<Rightarrow> unit client" where
  "finish_wait E sid d outcome =
     (if outcome = ''success'' then ret ()
      else seq (failure_logs E d) (\<lambda>_.
        lift_r (Inl (Msg (''deployment '' @ sid @ '' finished with result '' @ outcome)))))"

text \<open>\<open>wait\<close> with at most \<open>fuel\<close> polls; \<open>None\<close> is a deployment that has not ended by then.\<close>

fun wait_loop :: "site \<Rightarrow> nat \<Rightarrow> string \<Rightarrow> (string \<rightharpoonup> string) \<Rightarrow> deployment \<Rightarrow> client_run \<Rightarrow> (unit result \<times> client_run) option" where
  "wait_loop E fuel sid known d c =
     (case announce d known c of
        (Inl e, c) \<Rightarrow> Some (Inl e, c)
      | (Inr known, c) \<Rightarrow>
          (case terminal_result d of
             Some outcome \<Rightarrow> Some (finish_wait E sid d outcome c)
           | None \<Rightarrow>
               (case fuel of
                  0 \<Rightarrow> None
                | Suc fuel \<Rightarrow>
                    (case ctx ''poll deployment'' (poll E sid) c of
                       (Inl e, c) \<Rightarrow> Some (Inl e, c)
                     | (Inr d', c) \<Rightarrow> wait_loop E fuel sid known d' c))))"

declare wait_loop.simps [simp del]

definition wait_deployment :: "site \<Rightarrow> nat \<Rightarrow> deployment \<Rightarrow> client_run \<Rightarrow> (unit result \<times> client_run) option" where
  "wait_deployment E fuel d c = wait_loop E fuel (dp_sid d) (\<lambda>_. None) d c"

definition deployment_body :: "deploy_args \<Rightarrow> string \<Rightarrow> string \<Rightarrow> direct_deployment" where
  "deployment_body A garden sid =
     \<lparr>dd_action = da_action A, dd_force = da_force A, dd_garden = garden, dd_override = da_override A,
      dd_reason = da_reason A, dd_seed = sid\<rparr>"

definition create_deployment :: "site \<Rightarrow> deploy_args \<Rightarrow> string \<Rightarrow> string \<Rightarrow> deployment client" where
  "create_deployment E A garden sid =
     seq (note_event (CreatedDeployment (deployment_body A garden sid))) (\<lambda>_.
     seq (ctx ''create deployment'' (asking (\<lambda>n. si_new_deployment E n (deployment_body A garden sid)))) (\<lambda>d.
     seq (lift_r (si_deployment_url E (dp_sid d))) (\<lambda>url.
     seq (note_event (Printed (''Deployment: '' @ url))) (\<lambda>_.
     ret d))))"

definition deploy :: "site \<Rightarrow> nat \<Rightarrow> deploy_args \<Rightarrow> string \<Rightarrow> string \<Rightarrow> client_run \<Rightarrow> (unit result \<times> client_run) option" where
  "deploy E fuel A garden sid c =
     (case create_deployment E A garden sid c of
        (Inl e, c) \<Rightarrow> Some (Inl e, c)
      | (Inr d, c) \<Rightarrow>
          if da_no_wait A then Some (note_event (Printed (dp_sid d)) c)
          else wait_deployment E fuel d c)"

definition deploy_run ::
  "site \<Rightarrow> nat \<Rightarrow> unit result \<Rightarrow> string option result \<Rightarrow> deploy_args \<Rightarrow> client_run \<Rightarrow> (unit result \<times> client_run) option" where
  "deploy_run E fuel connected endpoint A c =
     (case validate_args A of
        Inl e \<Rightarrow> Some (Inl e, c)
      | Inr _ \<Rightarrow>
          if da_sudo A then Some (deploy_sudo E endpoint A c)
          else
            (case seq (lift_r (resolve_garden (da_to A) (da_flake A))) (\<lambda>garden.
                  seq (start_runtime E) (\<lambda>_.
                  seq (lift_r connected) (\<lambda>_.
                  seq (warm_seed E A garden) (\<lambda>_.
                  seq (resolve_seed E A) (\<lambda>sid.
                  ret (garden, sid)))))) c of
               (Inl e, c) \<Rightarrow> Some (Inl e, c)
             | (Inr (garden, sid), c) \<Rightarrow> deploy E fuel A garden sid c))"

end
