(* ===== verification/DeploySafety.thy ===== *)
theory DeploySafety
  imports Deploy
begin

text \<open>
  Properties of \<open>sower deploy\<close>: what a deployment over SSH starts and in which order, what a
  deployment through the server creates, when waiting ends and what it reports, and which part of a log is shown.
\<close>

section \<open>Programs\<close>

definition builds :: "string list list set" where
  "builds = {[]} \<union> {[nom_cmd i] | i. True} \<union> {[nix_cmd i] | i. True}"

lemma does_ran: "[cmd] \<in> L \<Longrightarrow> does programs L (seq (note_event (Ran cmd)) (\<lambda>_. lift_r r))"
proof -
  assume L: "[cmd] \<in> L"
  have "programs (c\<lparr>cr_events := cr_events c @ [Ran cmd]\<rparr>) = programs c @ [cmd]" for c
    by (simp add: programs_def List.map_filter_def)
  then show ?thesis
    unfolding does_def using L by (intro allI exI [of _ "[cmd]"]) (simp add: seq_def note_event_def)
qed

lemma does_build: "does programs builds (nix_build E i)"
proof -
  have b: "[] \<in> builds" "[nom_cmd i] \<in> builds" "[nix_cmd i] \<in> builds" by (auto simp: builds_def)
  have second: "does programs builds (case s of
      Spawned f \<Rightarrow> seq (note_event (Ran (nix_cmd i))) (\<lambda>_. lift_r (build_output ''nix'' i f))
    | NotSpawned _ \<Rightarrow> lift_r (Inl (Context ''spawn nix build'' (Msg ''os error''))))" for s
    using b by (cases s) (auto intro: does_ran does_fail)
  have "does programs builds (case s of
      Spawned f \<Rightarrow> seq (note_event (Ran (nom_cmd i))) (\<lambda>_. lift_r (build_output ''nom'' i f))
    | NotSpawned err \<Rightarrow>
         if err = NotFound \<or> err = Denied then
           seq (asking (\<lambda>n. Inr (si_spawn E n (nix_cmd i)))) (\<lambda>s.
           case s of
             Spawned f \<Rightarrow> seq (note_event (Ran (nix_cmd i))) (\<lambda>_. lift_r (build_output ''nix'' i f))
           | NotSpawned _ \<Rightarrow> lift_r (Inl (Context ''spawn nix build'' (Msg ''os error''))))
         else lift_r (Inl (Context ''spawn nom build'' (Msg ''os error''))))" for s
    using b by (cases s) (auto intro!: does_ran does_fail does_if does_idle progs.idle_asking second)
  then show ?thesis unfolding nix_build_def by (intro does_idle progs.idle_asking)
qed

lemma quiet_build: "[] \<in> builds" by (simp add: builds_def)

lemma does_then_idle: "does view L m \<Longrightarrow> (\<And>x. idle view (k x)) \<Longrightarrow> does view L (seq m k)"
  by (rule does_bind [of view L m "\<lambda>_. {[]}"]) (auto intro: does_quiet exI [of _ "[]"] simp: idle_def)

lemma does_built: "does programs builds (built_artifact E A)"
proof (cases "da_path A")
  case None
  show ?thesis
  proof (cases "da_flake A")
    case None
    then show ?thesis using \<open>da_path A = None\<close> quiet_build by (simp add: built_artifact_def does_fail)
  next
    case (Some flake)
    have "does programs builds (seq (nix_build E i) (\<lambda>path. ret (path, name, b)))" for i name b
      by (intro does_then_idle does_build idle_ret)
    then have "does programs builds (case x of (i, name) \<Rightarrow> seq (nix_build E i) (\<lambda>path. ret (path, name, b)))" for x b
      by (cases x) (simp only: prod.case)
    then show ?thesis
      unfolding built_artifact_def None Some option.case prod.case by (rule does_idle [OF idle_lift])
  qed
next
  case (Some p)
  then show ?thesis
    by (auto simp only: built_artifact_def option.case prod.case intro!: does_idle progs.idle_asking idle_lift does_ret quiet_build)
qed

lemma does_select: "does programs builds (select_artifact E A)"
  unfolding select_artifact_def read_manifest_def
  by (rule does_then_idle [OF does_built]) (auto intro!: progs.idle_rules split: prod.splits)

lemma idle_precheck: "idle programs (precheck E a t)" "idle created (precheck E a t)"
  unfolding precheck_def by (intro progs.idle_rules creations.idle_rules)+

lemma idle_check_artifact: "idle programs (check_artifact E A p)"
  unfolding check_artifact_def by (intro progs.idle_rules idle_precheck)

lemma does_sudo_run:
  assumes "parse_target t = Inr T"
  shows "does programs {[ssh_cmd E T r ep]} (sudo_run E t r ep)"
proof -
  have rest: "does programs {[ssh_cmd E T r ep]}
    (seq (note_event (Ran (ssh_cmd E T r ep))) (\<lambda>_.
     seq (attempt (on_terminal (ssh_stream (si_parse_response E) i (ss_reads s)))) (\<lambda>outcome.
     seq (if is_ok outcome then ret () else note_event Terminated) (\<lambda>_.
     seq (lift_r (with_context ''wait for SSH root activation'' (ss_status s))) (\<lambda>status.
     seq (lift_r outcome) (\<lambda>code.
     seq (check (fi_success status) (''SSH root activation transport failed ('' @ fi_status status @ '')'')) (\<lambda>_.
     check (code = 0) (''root activation failed with exit code '' @ show_int code))))))))" for i s
  proof (rule does_then_idle)
    show "does programs {[ssh_cmd E T r ep]} (note_event (Ran (ssh_cmd E T r ep)))"
      by (rule does_note [of _ _ "[ssh_cmd E T r ep]"]) (simp_all add: note_event_def programs_def List.map_filter_def)
  qed (intro progs.idle_rules programs_note; simp)
  show ?thesis
    unfolding sudo_run_def assms seq_lift_Inr
    by (rule does_idle [OF idle_lift], rule does_idle [OF idle_check],
        rule does_idle [OF progs.idle_asking], rule rest)
qed

definition ssh_words :: "site \<Rightarrow> target \<Rightarrow> prepared \<Rightarrow> deploy_action \<Rightarrow> string option \<Rightarrow> string list list" where
  "ssh_words E T p action ep =
     (case action of
        Stage \<Rightarrow> []
      | Activate \<Rightarrow> [ssh_cmd E T (si_print_request E (activation_request p Activate)) ep]
      | Restart \<Rightarrow> [ssh_cmd E T (si_print_request E (activation_request p Restart)) ep,
                  ssh_cmd E T (si_print_request E (reboot_request (activation_request p Restart))) ep])"

definition sudo_ready :: "deploy_args \<Rightarrow> prepared \<Rightarrow> bool" where
  "sudo_ready A p \<longleftrightarrow> sudo_type (pr_type p) \<and> (da_action A = Some Restart \<longrightarrow> pr_type p = Nixos)"

definition the_action :: "deploy_args \<Rightarrow> deploy_action" where
  "the_action A = (case da_action A of Some a \<Rightarrow> a | None \<Rightarrow> Activate)"

definition sudo_word :: "site \<Rightarrow> deploy_args \<Rightarrow> target \<Rightarrow> prepared \<Rightarrow> string option \<Rightarrow> string list list" where
  "sudo_word E A T p ep =
     (if sudo_ready A p
      then copy_cmd (pr_artifact p) (the (da_copy_to A)) (\<not> da_no_substitute A) # ssh_words E T p (the_action A) ep
      else [])"

lemma does_ssh:
  assumes T: "parse_target (the (da_copy_to A)) = Inr T" and ep: "\<And>x. endpoint = Inr x \<Longrightarrow> x = ep"
  shows "does programs {ssh_words E T p (the_action A) ep}
     (if the_action A = Stage then ret ()
      else
        seq (lift_r endpoint) (\<lambda>ep.
        seq (sudo_run E (the (da_copy_to A)) (si_print_request E (activation_request p (the_action A))) ep) (\<lambda>_.
        if the_action A = Restart then
          sudo_run E (the (da_copy_to A)) (si_print_request E (reboot_request (activation_request p (the_action A)))) ep
        else ret ())))"
proof (cases endpoint)
  case (Inl e)
  then show ?thesis by (auto simp: ssh_words_def does_def intro!: exI [of _ "[]"])
next
  case (Inr x)
  then have x: "endpoint = Inr ep" using ep by simp
  show ?thesis
  proof (cases "the_action A")
    case Stage
    then show ?thesis by (simp add: ssh_words_def does_quiet)
  next
    case Activate
    have "does programs {ssh_words E T p Activate ep}
       (seq (sudo_run E (the (da_copy_to A)) (si_print_request E (activation_request p Activate)) ep) (\<lambda>_. ret ()))"
      unfolding ssh_words_def deploy_action.case by (intro does_then_idle does_sudo_run [OF T] idle_ret)
    then show ?thesis by (simp add: Activate x does_def)
  next
    case Restart
    have "does programs (followed_by {[ssh_cmd E T (si_print_request E (activation_request p Restart)) ep]}
         {[ssh_cmd E T (si_print_request E (reboot_request (activation_request p Restart))) ep]})
       (seq (sudo_run E (the (da_copy_to A)) (si_print_request E (activation_request p Restart)) ep) (\<lambda>_.
        sudo_run E (the (da_copy_to A)) (si_print_request E (reboot_request (activation_request p Restart))) ep))"
      by (rule does_seq [OF does_sudo_run [OF T] does_sudo_run [OF T]]) simp
    then show ?thesis by (simp add: Restart x ssh_words_def followed_by_def does_def)
  qed
qed

lemma does_deploy_sudo:
  assumes T: "parse_target (the (da_copy_to A)) = Inr T" and sudo: "da_sudo A" "da_copy_to A = Some t"
    and ep: "\<And>x. endpoint = Inr x \<Longrightarrow> x = ep"
  shows "does programs {b @ sudo_word E A T p ep | b p. b \<in> builds} (deploy_sudo E endpoint A)"
proof -
  let ?k = "\<lambda>p. if the_action A = Stage then ret ()
      else
        seq (lift_r endpoint) (\<lambda>ep.
        seq (sudo_run E (the (da_copy_to A)) (si_print_request E (activation_request p (the_action A))) ep) (\<lambda>_.
        if the_action A = Restart then
          sudo_run E (the (da_copy_to A)) (si_print_request E (reboot_request (activation_request p (the_action A)))) ep
        else ret ()))"
  have run: "deploy_sudo E endpoint A = seq (select_artifact E A) (\<lambda>p.
      seq (check_artifact E A p) (\<lambda>_. seq (copy_artifact E A p) (\<lambda>_. ?k p)))"
    unfolding deploy_sudo_def prepare_artifact_def the_action_def Let_def seq_seq seq_ret ..
  have "does programs {sudo_word E A T p ep} (seq (check_artifact E A p) (\<lambda>_. seq (copy_artifact E A p) (\<lambda>_. ?k p)))" for p
  proof (cases "sudo_ready A p")
    case True
    have "does programs (followed_by {[copy_cmd (pr_artifact p) t (\<not> da_no_substitute A)]} {ssh_words E T p (the_action A) ep})
        (seq (copy_artifact E A p) (\<lambda>_. ?k p))"
      by (rule does_seq [OF _ does_ssh [OF T ep]])
        (auto simp: copy_artifact_def sudo nix_copy_def intro!: does_ctx does_run)
    then have "does programs {sudo_word E A T p ep} (seq (copy_artifact E A p) (\<lambda>_. ?k p))"
      using True sudo by (simp add: sudo_word_def followed_by_def)
    then show ?thesis by (rule does_idle [OF idle_check_artifact])
  next
    case False
    then have "\<exists>e. seq (check_artifact E A p) k c = (Inl e, c)" for k :: "unit \<Rightarrow> unit client" and c
      using sudo by (auto simp: check_artifact_def sudo_ready_def seq_seq seq_check)
    then have "programs (snd (seq (check_artifact E A p) k c)) = programs c \<and> \<not> is_ok (fst (seq (check_artifact E A p) k c))"
      for k :: "unit \<Rightarrow> unit client" and c by (metis fst_conv snd_conv is_ok_simps(2))
    then show ?thesis unfolding does_def sudo_word_def using False by auto
  qed
  note rest = this
  show ?thesis
    unfolding run
  proof (rule does_bind [OF does_select, of "\<lambda>p. {sudo_word E A T p ep}"])
    show "\<exists>w. a @ w \<in> {b @ sudo_word E A T p ep | b p. b \<in> builds}" if "a \<in> builds" for a
      using that by (intro exI [of _ "sudo_word E A T undefined ep"]) blast
    show "a @ b \<in> {b @ sudo_word E A T p ep | b p. b \<in> builds}" if "a \<in> builds" "b \<in> {sudo_word E A T x ep}" for a b x
      using that by blast
  qed (rule rest)
qed

lemma created_run_inherited: "idle created (run_inherited E cmd)"
  unfolding run_inherited_def
  by (rule idle_seq [OF creations.idle_asking]) (auto intro!: idle_seq idle_check idle_lift created_ran split: spawned.split)

lemma created_build: "idle created (nix_build E i)"
  unfolding nix_build_def
  by (rule idle_seq [OF creations.idle_asking])
    (auto intro!: idle_seq creations.idle_asking idle_lift created_ran split: spawned.split)

lemma created_select: "idle created (select_artifact E A)"
proof -
  have b: "idle created (built_artifact E A)"
    unfolding built_artifact_def
    by (cases "da_path A"; cases "da_flake A")
      (auto simp del: ret_Pair intro!: idle_seq creations.idle_asking idle_lift idle_ret created_build split: prod.splits)
  show ?thesis
    unfolding select_artifact_def read_manifest_def
    by (rule idle_seq [OF b]) (auto simp del: ret_Pair intro!: creations.idle_rules split: prod.splits)
qed

lemma created_prepare: "idle created (prepare_artifact E A)"
  unfolding prepare_artifact_def check_artifact_def copy_artifact_def nix_copy_def
  by (intro creations.idle_rules created_select idle_precheck created_run_inherited)

lemma created_sudo_run: "idle created (sudo_run E t r ep)"
proof -
  have "idle created (note_event Terminated)" by (simp add: idle_def note_event_def created_def)
  then show ?thesis
    unfolding sudo_run_def by (intro creations.idle_rules created_ran)
qed


definition sudo_args :: deploy_args where
  "sudo_args = \<lparr>da_flake = Some ''.#web'', da_to = None, da_seed = None, da_path = None,
     da_copy_to = Some ''ssh://deploy@web-1:22'', da_no_substitute = False, da_no_seed_download = False, da_sudo = True,
     da_name = None, da_type = None, da_tags = [], da_action = Some Restart, da_force = False, da_override = False,
     da_reason = None, da_no_wait = False\<rparr>"


section \<open>What the server is asked to create\<close>

lemma created_note:
  "(\<And>s. e \<noteq> CreatedSeed s) \<Longrightarrow> (\<And>d. e \<noteq> CreatedDeployment d) \<Longrightarrow> idle created (note_event e)"
  by (cases e) (auto simp: idle_def note_event_def created_def)

lemma created_realize: "idle created (realize E p cs i pr)"
  unfolding realize_def store_path_exists_def by (intro creations.idle_rules created_run_inherited)

lemma created_warm: "idle created (warm_seed E A garden)"
proof -
  have p: "idle created (previous_seed E garden name ty)" for name ty
    unfolding previous_seed_def list_caches_def by (intro creations.idle_rules created_realize)
  show ?thesis
    unfolding warm_seed_def
    by (auto simp del: ret_Pair seq_attempt intro!: creations.idle_rules p split: option.splits sum.splits prod.splits)
qed

lemma created_poll: "idle created (poll E sid)"
  unfolding poll_def by (intro creations.idle_rules created_note) simp_all

lemma created_announce: "idle created (announce d known)"
  unfolding announce_def
  by (cases "report_seeds (dp_seeds d) known")
    (auto simp del: ret_Pair intro!: idle_seq idle_ret does_each created_note split: prod.splits)

lemma created_finish: "idle created (finish_wait E sid d outcome)"
proof -
  have t: "idle created (print_log_tails x)" for x
    unfolding print_log_tails_def by (intro does_each created_note) simp_all
  have "idle created (case l of Inr l \<Rightarrow> print_log_tails l
     | Inl _ \<Rightarrow> seq (note_event (Printed m)) (\<lambda>_. print_log_tails d))" for l m
    by (cases l) (auto intro!: t idle_seq created_note)
  then have "idle created (failure_logs E d)"
    unfolding failure_logs_def by (intro idle_seq idle_attempt created_poll)
  then show ?thesis unfolding finish_wait_def by (intro idle_if idle_seq idle_ret idle_lift)
qed

lemma idleD: "idle view m \<Longrightarrow> m c = (r, c') \<Longrightarrow> view c' = view c"
  unfolding idle_def by (metis snd_conv)

lemma created_wait: "wait_loop E fuel sid known d c = Some (r, c') \<Longrightarrow> created c' = created c"
proof (induction fuel arbitrary: known d c)
  case 0
  obtain a c1 where a: "announce d known c = (a, c1)" by fastforce
  have "created c1 = created c" by (rule idleD [OF created_announce a])
  then show ?case using 0 a
    by (auto simp: wait_loop.simps [of _ 0] split: sum.splits option.splits dest: idleD [OF created_finish])
next
  case (Suc fuel)
  obtain a c1 where a: "announce d known c = (a, c1)" by fastforce
  have e1: "created c1 = created c" by (rule idleD [OF created_announce a])
  obtain p c2 where p: "poll E sid c1 = (p, c2)" by fastforce
  have e2: "created c2 = created c1" by (rule idleD [OF created_poll p])
  show ?case using Suc a p e1 e2
    by (cases p) (auto simp: wait_loop.simps [of _ "Suc _"] split: sum.splits option.splits dest: idleD [OF created_finish])
qed

lemma created_resolve:
  assumes "resolve_seed E A c = (r, c')"
  shows "(da_seed A = None \<or> r = Inr (the (da_seed A))) \<and> created c' = created c \<and> (da_seed A = None \<longrightarrow> \<not> is_ok r)
    \<or> da_seed A = None \<and> (\<exists>s. created c' = created c @ [CreatedSeed s]
        \<and> (\<forall>sid. r = Inr sid \<longrightarrow> (\<exists>n reply. si_new_seed E n s = Inr reply \<and> sd_sid reply = Some sid)))"
proof (cases "da_seed A")
  case (Some sid)
  then show ?thesis using assms by (auto simp: resolve_seed_def)
next
  case None
  obtain p c1 where p: "prepare_artifact E A c = (p, c1)" by fastforce
  have e: "created c1 = created c" by (rule idleD [OF created_prepare p])
  show ?thesis
  proof (cases p)
    case (Inl x)
    then show ?thesis using assms None p e by (auto simp: resolve_seed_def seq_def)
  next
    case (Inr q)
    show ?thesis
    proof (cases "case da_name A of Some n \<Rightarrow> Some n | None \<Rightarrow> (case pr_name q of Some n \<Rightarrow> Some n | None \<Rightarrow> infer_name (pr_artifact q))")
      case none: None
      then show ?thesis using assms None p e Inr by (auto simp: resolve_seed_def seq_def)
    next
      case (Some name)
      let ?s = "\<lparr>sd_artifact = pr_artifact q, sd_name = name, sd_type = pr_type q, sd_sid = None, sd_tags = pr_tags q\<rparr>"
      let ?c = "c1\<lparr>cr_events := cr_events c1 @ [CreatedSeed ?s], cr_step := Suc (cr_step c1)\<rparr>"
      have run: "(r, c') = seq (lift_r (with_context ''create seed'' (si_new_seed E (cr_step c1) ?s)))
          (\<lambda>seed. lift_r (ok_or ''server returned a seed without a sid'' (sd_sid seed))) ?c"
        using assms None p Inr Some
        by (auto simp: resolve_seed_def seq_def create_seed_def note_event_def asking_def split: sum.splits)
      have "created ?c = created c @ [CreatedSeed ?s]" using e by (simp add: created_def)
      moreover have "c' = ?c" using run by (auto simp: seq_def split: sum.splits)
      moreover have "\<exists>n reply. si_new_seed E n ?s = Inr reply \<and> sd_sid reply = Some sid" if "r = Inr sid" for sid
        using run that by (auto simp: seq_def result_simps ok_or_def split: sum.splits option.splits)
      ultimately show ?thesis using None by metis
    qed
  qed
qed

lemma created_deploy:
  assumes "deploy E fuel A garden sid c = Some (r, c')"
  shows "created c' = created c @ [CreatedDeployment (deployment_body A garden sid)]"
proof -
  obtain d c1 where cd: "create_deployment E A garden sid c = (d, c1)" by fastforce
  have "created c1 = created c @ [CreatedDeployment (deployment_body A garden sid)]"
    using cd by (auto simp: create_deployment_def seq_def note_event_def asking_def created_def split: sum.splits)
  moreover have "created c' = created c1"
    using assms cd by (cases d) (auto simp: deploy_def wait_deployment_def note_event_def created_def split: if_splits dest: created_wait)
  ultimately show ?thesis by simp
qed

text \<open>How far a run through the server gets.\<close>

lemma server_run_cases:
  assumes "\<not> da_sudo A" "deploy_run E fuel connected endpoint A c = Some (r, c')"
  obtains (stopped) "created c' = created c"
  | (seeding) c1 r1 where "created c1 = created c" "resolve_seed E A c1 = (r1, c')" "\<not> is_ok r1" "\<not> is_ok r"
  | (deployed) garden c1 sid c2 where "resolve_garden (da_to A) (da_flake A) = Inr garden" "created c1 = created c"
      "resolve_seed E A c1 = (Inr sid, c2)" "deploy E fuel A garden sid c2 = Some (r, c')"
proof -
  obtain w c1 where w: "warm_seed E A (projr (resolve_garden (da_to A) (da_flake A))) c = (w, c1)" by fastforce
  have e: "created c1 = created c" by (rule idleD [OF created_warm w])
  obtain s c2 where s: "resolve_seed E A c1 = (s, c2)" by fastforce
  consider "\<not> is_ok (validate_args A) \<or> \<not> is_ok (resolve_garden (da_to A) (da_flake A)) \<or> \<not> is_ok (si_runtime E) \<or> \<not> is_ok connected"
    | garden where "validate_args A = Inr ()" "resolve_garden (da_to A) (da_flake A) = Inr garden" "si_runtime E = Inr ()" "connected = Inr ()"
    by (auto simp: is_ok_iff)
  then show ?thesis
  proof cases
    case 1
    then have "created c' = created c"
      using assms by (auto simp: deploy_run_def seq_def result_simps split: sum.splits)
    then show ?thesis by (rule stopped)
  next
    case 2
    show ?thesis
    proof (cases w)
      case (Inl x)
      then have "created c' = created c" using assms 2 w e by (auto simp: deploy_run_def seq_def)
      then show ?thesis by (rule stopped)
    next
      case w1: (Inr u)
      show ?thesis
      proof (cases s)
        case (Inl x)
        then have "r = Inl x \<and> c' = c2" using assms 2 w w1 s by (auto simp: deploy_run_def seq_def)
        then show ?thesis using seeding [of c1 "Inl x"] e s Inl by simp
      next
        case (Inr sid)
        then have "deploy E fuel A garden sid c2 = Some (r, c')"
          using assms 2 w w1 s by (simp add: deploy_run_def seq_def)
        then show ?thesis using deployed 2(2) e s Inr by blast
      qed
    qed
  qed
qed

text \<open>C28: Through the server, a run creates at most one seed and then at most one deployment, in this order.  The deployment goes
  to the garden that was given or inferred, carries the options of the command line, and deploys either the
  seed that was given, and then none is registered, or the one the server has just registered.  Whatever
  happens before, while warming caches or while waiting, creates nothing.\<close>

theorem deploy_creates:
  assumes "\<not> da_sudo A" "deploy_run E fuel connected endpoint A c = Some (r, c')"
  shows "\<exists>new. created c' = created c @ new \<and>
    (new = [] \<or> (da_seed A = None \<and> (\<exists>s. new = [CreatedSeed s] \<and> \<not> is_ok r))
     \<or> (\<exists>garden sid. resolve_garden (da_to A) (da_flake A) = Inr garden
        \<and> (new = [CreatedDeployment (deployment_body A garden sid)] \<and> da_seed A = Some sid
           \<or> da_seed A = None \<and> (\<exists>s n reply. new = [CreatedSeed s, CreatedDeployment (deployment_body A garden sid)]
               \<and> si_new_seed E n s = Inr reply \<and> sd_sid reply = Some sid))))"
  using assms
proof (cases rule: server_run_cases)
  case (seeding c1 r1)
  then show ?thesis using created_resolve [OF seeding(2)] by auto
next
  case (deployed garden c1 sid c2)
  note new = created_resolve [OF deployed(3)] created_deploy [OF deployed(4)]
  show ?thesis
  proof (cases "da_seed A")
    case None
    then obtain s n reply where "created c2 = created c1 @ [CreatedSeed s]" "si_new_seed E n s = Inr reply" "sd_sid reply = Some sid"
      using new by auto
    then show ?thesis using new deployed None
      by (intro exI [of _ "[CreatedSeed s, CreatedDeployment (deployment_body A garden sid)]"]) auto
  next
    case (Some x)
    then have "x = sid" "created c2 = created c1" using new by auto
    then show ?thesis using new deployed Some
      by (intro exI [of _ "[CreatedDeployment (deployment_body A garden sid)]"]) auto
  qed
qed simp

definition seed_args :: deploy_args where
  "seed_args = \<lparr>da_flake = None, da_to = Some ''web'', da_seed = Some ''seed_1'', da_path = None,
     da_copy_to = None, da_no_substitute = False, da_no_seed_download = False, da_sudo = False,
     da_name = None, da_type = None, da_tags = [], da_action = None, da_force = False, da_override = False,
     da_reason = None, da_no_wait = True\<rparr>"

theorem deploy_creates_witness:
  "\<exists>r c'. deploy_run sample_site 0 (Inr ()) (Inr None) seed_args idle_run = Some (r, c')
     \<and> created c' = [CreatedDeployment (deployment_body seed_args ''web'' ''seed_1'')]"
proof -
  have s: "\<not> da_sudo seed_args" "da_seed seed_args = Some ''seed_1''"
    "resolve_garden (da_to seed_args) (da_flake seed_args) = Inr ''web''"
    by (simp_all add: seed_args_def resolve_garden_def)
  obtain r c' where run: "deploy_run sample_site 0 (Inr ()) (Inr None) seed_args idle_run = Some (r, c')" and n: "created c' \<noteq> []"
    by (simp add: deploy_run_def validate_args_def seed_args_def resolve_garden_def warm_seed_def resolve_seed_def deploy_def
        create_deployment_def seq_def note_event_def asking_def sample_site_def idle_run_def created_def)
  show ?thesis
    using deploy_creates [OF s(1) run] run n s by (auto simp: idle_run_def created_def)
qed

section \<open>Waiting\<close>

lemma announce_step: "\<exists>known' c'. announce d known c = (Inr known', c') \<and> cr_step c' = cr_step c"
proof -
  have e: "fst (each (\<lambda>(s, state). note_event (Reported s state)) xs c) = Inr ()
      \<and> cr_step (snd (each (\<lambda>(s, state). note_event (Reported s state)) xs c)) = cr_step c" for xs c
    by (induction xs arbitrary: c) (auto simp: seq_def note_event_def)
  obtain new known' where n: "report_seeds (dp_seeds d) known = (new, known')" by fastforce
  obtain x c' where x: "each (\<lambda>(s, state). note_event (Reported s state)) new c = (x, c')" by fastforce
  then have "x = Inr ()" "cr_step c' = cr_step c" using e [of new c] by simp_all
  then show ?thesis using n x by (auto simp: announce_def seq_def)
qed

lemma finish_ok: "finish_wait E sid d outcome c = (Inr (), c') \<Longrightarrow> outcome = ''success''"
  by (auto simp: finish_wait_def seq_eq_Inr split: if_splits)

lemma wait_ok:
  "wait_loop E fuel sid known d c = Some (Inr (), c') \<Longrightarrow>
     \<exists>d'. (d' = d \<or> (\<exists>n. si_get_deployment E n sid = Inr d')) \<and> terminal_result d' = Some ''success''"
proof (induction fuel arbitrary: known d c)
  case 0
  then show ?case
    by (auto simp: wait_loop.simps [of _ 0] split: prod.splits sum.splits option.splits dest: finish_ok)
next
  case (Suc fuel)
  obtain known' c1 where a: "announce d known c = (Inr known', c1)" using announce_step by blast
  show ?case
  proof (cases "terminal_result d")
    case (Some outcome)
    then show ?thesis using Suc.prems a by (auto simp: wait_loop.simps [of _ "Suc _"] dest: finish_ok)
  next
    case None
    obtain p c2 where p: "poll E sid c1 = (p, c2)" by fastforce
    then obtain d' where d': "p = Inr d'" and l: "wait_loop E fuel sid known' d' c2 = Some (Inr (), c')"
      using Suc.prems a None by (cases p) (auto simp: wait_loop.simps [of _ "Suc _"])
    have "\<exists>n. si_get_deployment E n sid = Inr d'"
      using p d' by (auto simp: poll_def seq_def note_event_def asking_def)
    then show ?thesis using Suc.IH [OF l] by blast
  qed
qed

text \<open>\<open>wait\<close> reports success only on the server's word: some answer for this deployment has left
  the waiting states with the result \<open>success\<close>.\<close>

theorem wait_success_sound:
  assumes "wait_deployment E fuel d c = Some (Inr (), c')"
  shows "\<exists>d'. (d' = d \<or> (\<exists>n. si_get_deployment E n (dp_sid d) = Inr d')) \<and> terminal_result d' = Some ''success''"
  using assms wait_ok by (simp add: wait_deployment_def)

lemma wait_polls:
  "terminal_result d = None \<Longrightarrow>
   (\<And>i. i < k \<Longrightarrow> \<exists>d'. si_get_deployment E (cr_step c + i) sid = Inr d' \<and> terminal_result d' = None) \<Longrightarrow>
   si_get_deployment E (cr_step c + k) sid = Inr final \<Longrightarrow> terminal_result final = Some outcome \<Longrightarrow>
   k < fuel \<Longrightarrow> \<exists>c1. wait_loop E fuel sid known d c = Some (finish_wait E sid final outcome c1)"
proof (induction k arbitrary: d c known fuel)
  case 0
  obtain m where m: "fuel = Suc m" using 0(5) by (cases fuel) auto
  obtain known' c1 where a: "announce d known c = (Inr known', c1)" "cr_step c1 = cr_step c" using announce_step by blast
  obtain known2 c3 where b: "announce final known' (c1\<lparr>cr_events := cr_events c1 @ [Fetched sid], cr_step := Suc (cr_step c)\<rparr>) = (Inr known2, c3)"
    using announce_step by blast
  have "wait_loop E fuel sid known d c = Some (finish_wait E sid final outcome c3)"
    using 0 m a b by (simp add: wait_loop.simps [of _ "Suc m"] wait_loop.simps [of _ m] poll_def seq_def note_event_def asking_def)
  then show ?case by blast
next
  case (Suc k)
  obtain m where m: "fuel = Suc m" "k < m" using Suc.prems(5) by (cases fuel) auto
  obtain known' c1 where a: "announce d known c = (Inr known', c1)" "cr_step c1 = cr_step c" using announce_step by blast
  let ?c = "c1\<lparr>cr_events := cr_events c1 @ [Fetched sid], cr_step := Suc (cr_step c)\<rparr>"
  obtain d1 where d1: "si_get_deployment E (cr_step c) sid = Inr d1" "terminal_result d1 = None"
    using Suc.prems(2) [of 0] by auto
  have step: "wait_loop E fuel sid known d c = wait_loop E m sid known' d1 ?c"
    using Suc.prems(1) a d1 m by (simp add: wait_loop.simps [of _ "Suc m"] poll_def seq_def note_event_def asking_def)
  have "\<exists>c1. wait_loop E m sid known' d1 ?c = Some (finish_wait E sid final outcome c1)"
  proof (rule Suc.IH [OF d1(2) _ _ Suc.prems(4) m(2)])
    show "\<exists>d'. si_get_deployment E (cr_step ?c + i) sid = Inr d' \<and> terminal_result d' = None" if "i < k" for i
      using Suc.prems(2) [of "Suc i"] that by simp
    show "si_get_deployment E (cr_step ?c + k) sid = Inr final" using Suc.prems(3) by simp
  qed
  then show ?case using step by simp
qed


theorem wait_success_sound_witness:
  "\<exists>c'. wait_deployment sample_site 1 (sample_deployment ''created'' None) idle_run = Some (Inr (), c')
     \<and> (\<exists>d'. (d' = sample_deployment ''created'' None \<or> (\<exists>n. si_get_deployment sample_site n ''dply_1'' = Inr d'))
          \<and> terminal_result d' = Some ''success'')"
proof -
  let ?d = "sample_deployment ''created'' None"
  have n: "terminal_result ?d = None" and s: "terminal_result (sample_deployment ''completed'' (Some ''success'')) = Some ''success''"
    by (simp_all add: sample_deployment_def terminal_result_def)
  have "\<exists>c1. wait_loop sample_site 1 ''dply_1'' (\<lambda>_. None) ?d idle_run
      = Some (finish_wait sample_site ''dply_1'' (sample_deployment ''completed'' (Some ''success'')) ''success'' c1)"
    by (rule wait_polls [OF n, of 0]) (use s in \<open>simp_all add: sample_site_def\<close>)
  then obtain c' where w: "wait_deployment sample_site 1 ?d idle_run = Some (Inr (), c')"
    by (auto simp: wait_deployment_def sample_deployment_def finish_wait_def)
  then show ?thesis using wait_success_sound [OF w] by (simp add: sample_deployment_def)
qed


section \<open>Logs\<close>

definition line_text :: "string \<Rightarrow> string" where
  "line_text p = (if p \<noteq> [] \<and> last p = char_nl then chop_cr (butlast p) else p)"

lemma inclusive_parts:
  "split_inclusive char_nl s = map (\<lambda>p. p @ [char_nl]) (butlast (split_char char_nl s))
     @ (if last (split_char char_nl s) = [] then [] else [last (split_char char_nl s)])"
proof (induction s)
  case Nil
  then show ?case by simp
next
  case (Cons x xs)
  obtain p ps where s: "split_char char_nl xs = p # ps" by (cases "split_char char_nl xs") auto
  show ?case
  proof (cases ps)
    case Nil
    then show ?thesis using Cons s by auto
  next
    case (Cons q qs)
    then show ?thesis using \<open>split_inclusive char_nl xs = _\<close> s by auto
  qed
qed

lemma lines_inclusive: "lines s = map line_text (split_inclusive char_nl s)"
proof -
  have "last (split_char char_nl s) \<in> set (split_char char_nl s)" by simp
  then have "char_nl \<notin> set (last (split_char char_nl s))" by (rule split_char_part)
  then have "line_text (last (split_char char_nl s)) = last (split_char char_nl s)"
    by (auto simp: line_text_def dest: last_in_set)
  moreover have "map (\<lambda>p. line_text (p @ [char_nl])) ps = map chop_cr ps" for ps by (simp add: line_text_def)
  ultimately show ?thesis by (simp add: lines_def Let_def inclusive_parts o_def)
qed

definition nl_part :: "string \<Rightarrow> bool" where
  "nl_part p \<longleftrightarrow> p \<noteq> [] \<and> char_nl \<notin> set (butlast p)"

lemma inclusive_wf:
  "ps = split_inclusive char_nl s \<Longrightarrow> list_all nl_part ps \<and> list_all (\<lambda>p. last p = char_nl) (butlast ps)"
  by (induction s arbitrary: ps) (auto simp: nl_part_def split: list.splits)

lemma inclusive_concat:
  "list_all nl_part ps \<Longrightarrow> list_all (\<lambda>p. last p = char_nl) (butlast ps) \<Longrightarrow> split_inclusive char_nl (concat ps) = ps"
proof (induction ps)
  case Nil
  then show ?case by simp
next
  case (Cons p ps)
  have whole: "char_nl \<notin> set q \<Longrightarrow> split_inclusive char_nl (q @ char_nl # r) = (q @ [char_nl]) # split_inclusive char_nl r" for q r
    by (induction q) auto
  have single: "char_nl \<notin> set q \<Longrightarrow> q \<noteq> [] \<Longrightarrow> split_inclusive char_nl q = [q]" for q
  proof (induction q)
    case (Cons c q)
    then show ?case by (cases "q = []") auto
  qed simp
  obtain b x where p: "p = b @ [x]" "char_nl \<notin> set b" using Cons.prems(1) by (cases p rule: rev_cases) (auto simp: nl_part_def)
  show ?case
  proof (cases "x = char_nl")
    case True
    have "list_all (\<lambda>p. last p = char_nl) (butlast ps)" using Cons.prems(2) by (cases ps) auto
    then show ?thesis using Cons True p whole [of b "concat ps"] by simp
  next
    case False
    then have "ps = []" using Cons.prems(2) p by (cases ps) auto
    then show ?thesis using False p single [of p] by simp
  qed
qed

text \<open>The log of a failed seed is shown from its last 50 lines on: cutting the log by counting the bytes of its last 50
  line pieces gives exactly the last 50 of its lines, and all of them if there are fewer.\<close>

theorem log_tail_lines: "log_tail log = drop (length (lines log) - 50) (lines log)"
proof -
  define ps where "ps = split_inclusive char_nl log"
  define k where "k = length ps - 50"
  have tail: "take 50 (rev ps) = rev (drop k ps)" by (simp add: take_rev k_def)
  have cat: "concat (take k ps) @ concat (drop k ps) = log"
    by (metis append_take_drop_id concat_append ps_def concat_split_inclusive)
  have len: "sum_list (map length (take 50 (rev ps))) = length (concat (drop k ps))"
    unfolding tail by (simp add: length_concat rev_map [symmetric] sum_list_rev)
  have "length log - length (concat (drop k ps)) = length (concat (take k ps))"
    by (metis add_diff_cancel_right' cat length_append)
  then have d: "drop (length log - sum_list (map length (take 50 (rev ps)))) log = concat (drop k ps)"
    unfolding len by (metis append_eq_conv_conj cat)
  have "list_all nl_part ps \<and> list_all (\<lambda>p. last p = char_nl) (butlast ps)" by (rule inclusive_wf) (simp add: ps_def)
  then have "split_inclusive char_nl (concat (drop k ps)) = drop k ps"
    by (intro inclusive_concat) (auto simp: list_all_iff butlast_drop dest: in_set_dropD)
  then show ?thesis
    unfolding log_tail_def Let_def ps_def [symmetric] d lines_inclusive
    by (simp add: drop_map k_def ps_def)
qed

end
