(* ===== verification/ClientConfig.thy ===== *)
theory ClientConfig
  imports Interfaces Json Outside
begin

text \<open>
  Where a command finds the server and its token: \<open>src/src/commands/client\<close> (\<open>mod.rs\<close> and \<open>config.rs\<close>), and
  where it finds the socket of the garden: \<open>src/src/commands/garden/config.rs\<close>.  The files, the environment
  variables, the JSON parser and the HTTP library are parameters.
\<close>

section \<open>Text and JSON\<close>

text \<open>A field of type \<open>Option<String>\<close> with serde's derived deserialization.\<close>

definition opt_string :: "string \<Rightarrow> json \<Rightarrow> string option result" where
  "opt_string k v =
     (case j_get v k of
        None \<Rightarrow> Inr None
      | Some JNull \<Rightarrow> Inr None
      | Some (JStr s) \<Rightarrow> Inr (Some s)
      | _ \<Rightarrow> Inl (Msg (''invalid type for '' @ k)))"

definition known_once :: "string list \<Rightarrow> json \<Rightarrow> unit result" where
  "known_once ks v =
     (case as_object v of
        None \<Rightarrow> Inl (Msg ''invalid type: expected a map'')
      | Some kvs \<Rightarrow> ensure (\<forall>k \<in> set ks. length (filter (\<lambda>kv. fst kv = k) kvs) \<le> 1) ''duplicate field'')"

section \<open>Files and variables\<close>

record surroundings =
  su_exists :: "string \<Rightarrow> bool"
  su_read :: "string \<Rightarrow> string result"
  su_user :: "string option"
  su_env :: "string \<Rightarrow> string option"
  su_json :: "string \<Rightarrow> json result"
  su_header_ok :: "string \<Rightarrow> bool"
  su_http :: "unit result"

definition default_path_for :: "string option \<Rightarrow> (string \<Rightarrow> string option) \<Rightarrow> string option" where
  "default_path_for user env =
     (if user = Some ''root'' then Some ''/etc/sower/client.json''
      else
        Option.bind (case env ''XDG_CONFIG_HOME'' of Some d \<Rightarrow> Some d | None \<Rightarrow> map_option (\<lambda>h. path_join h ''.config'') (env ''HOME''))
          (\<lambda>base. Some (path_join (path_join base ''sower'') ''client.json'')))"

definition default_path :: "surroundings \<Rightarrow> string option" where
  "default_path S = default_path_for (su_user S) (su_env S)"

definition config_paths :: "surroundings \<Rightarrow> string list \<Rightarrow> string list" where
  "config_paths S explicit = (if explicit = [] then (case default_path S of None \<Rightarrow> [] | Some p \<Rightarrow> [p]) else explicit)"

definition read_config :: "surroundings \<Rightarrow> (json \<Rightarrow> 'c result) \<Rightarrow> string \<Rightarrow> 'c result" where
  "read_config S decode path =
     bind_r (with_context (''read config file: '' @ path) (su_read S path)) (\<lambda>raw.
     with_context (''parse config file: '' @ path) (bind_r (su_json S raw) decode))"

text \<open>The loop over the files: those that do not exist are skipped, the others are merged over the earlier ones.\<close>

fun load_layers :: "surroundings \<Rightarrow> (json \<Rightarrow> 'c result) \<Rightarrow> ('c \<Rightarrow> 'c \<Rightarrow> 'c) \<Rightarrow> 'c \<Rightarrow> string list \<Rightarrow> 'c result" where
  "load_layers S decode merge merged [] = Inr merged"
| "load_layers S decode merge merged (p # ps) =
     (if \<not> su_exists S p then load_layers S decode merge merged ps
      else bind_r (read_config S decode p) (\<lambda>c. load_layers S decode merge (merge merged c) ps))"

lemma load_layers_foldl:
  "load_layers S decode merge merged ps =
     bind_r (collect_r (read_config S decode) (filter (su_exists S) ps)) (\<lambda>cs. Inr (foldl merge merged cs))"
proof (induction ps arbitrary: merged)
  case (Cons p ps)
  have "bind_r (read_config S decode p) (\<lambda>c. bind_r (collect_r (read_config S decode) (filter (su_exists S) ps)) (\<lambda>cs. Inr (foldl merge (merge merged c) cs)))
    = bind_r (bind_r (read_config S decode p) (\<lambda>y. bind_r (collect_r (read_config S decode) (filter (su_exists S) ps)) (\<lambda>ys. Inr (y # ys))))
        (\<lambda>cs. Inr (foldl merge merged cs))"
    by (simp add: bind_r_assoc)
  then show ?case using Cons by simp
qed simp

section \<open>The client's settings\<close>

record file_config =
  fc_endpoint :: "string option"
  fc_access_token :: "string option"
  fc_access_token_file :: "string option"

definition default_config :: file_config where
  "default_config = \<lparr>fc_endpoint = None, fc_access_token = None, fc_access_token_file = None\<rparr>"

definition later :: "'a option \<Rightarrow> 'a option \<Rightarrow> 'a option" where
  "later a b = (case b of None \<Rightarrow> a | Some x \<Rightarrow> Some x)"

definition merge_config :: "file_config \<Rightarrow> file_config \<Rightarrow> file_config" where
  "merge_config a b = \<lparr>fc_endpoint = later (fc_endpoint a) (fc_endpoint b),
     fc_access_token = later (fc_access_token a) (fc_access_token b),
     fc_access_token_file = later (fc_access_token_file a) (fc_access_token_file b)\<rparr>"

interpretation endpoint: layered fc_endpoint merge_config
  by unfold_locales (simp add: merge_config_def later_def split: option.split)

interpretation token: layered fc_access_token merge_config
  by unfold_locales (simp add: merge_config_def later_def split: option.split)

interpretation token_file: layered fc_access_token_file merge_config
  by unfold_locales (simp add: merge_config_def later_def split: option.split)

definition decode_config :: "json \<Rightarrow> file_config result" where
  "decode_config v =
     (let names = [''endpoint'', ''access_token'', ''access_token_file'']; v = struct_value names 3 v in
     bind_r (known_once names v) (\<lambda>_.
     bind_r (opt_string ''endpoint'' v) (\<lambda>e.
     bind_r (opt_string ''access_token'' v) (\<lambda>t.
     bind_r (opt_string ''access_token_file'' v) (\<lambda>f.
     Inr \<lparr>fc_endpoint = e, fc_access_token = t, fc_access_token_file = f\<rparr>)))))"

definition load_config :: "surroundings \<Rightarrow> string list \<Rightarrow> file_config result" where
  "load_config S explicit = load_layers S decode_config merge_config default_config (config_paths S explicit)"

section \<open>The client\<close>

record connection_args =
  ca_endpoint :: "string option"
  ca_access_token :: "string option"
  ca_access_token_file :: "string option"
  ca_config_file :: "string list"

record api_client =
  ac_endpoint :: string
  ac_authorization :: "string option"

definition resolve_token :: "surroundings \<Rightarrow> string option \<Rightarrow> string option \<Rightarrow> string option result" where
  "resolve_token S inline path =
     (case inline of
        Some t \<Rightarrow> Inr (Some t)
      | None \<Rightarrow>
          (case path of
             Some p \<Rightarrow> bind_r (with_context (''read access token file: '' @ p) (su_read S p)) (\<lambda>raw. Inr (Some (trim_text raw)))
           | None \<Rightarrow> Inr None))"

definition auth_header :: "surroundings \<Rightarrow> string option \<Rightarrow> bool \<Rightarrow> string option result" where
  "auth_header S token require_token =
     (case token of
        None \<Rightarrow>
          if require_token
          then Inl (Msg ''missing --access-token (or SOWER_ACCESS_TOKEN, --access-token-file, or a config file)'')
          else Inr None
      | Some t \<Rightarrow>
          (let v = ''Bearer '' @ t in
           if su_header_ok S v then Inr (Some v)
           else Inl (Context ''invalid access token'' (Msg ''failed to parse header value''))))"

definition build_api :: "surroundings \<Rightarrow> string option \<Rightarrow> string option \<Rightarrow> string option \<Rightarrow> bool \<Rightarrow> api_client result" where
  "build_api S endpoint access_token access_token_file require_token =
     bind_r (ok_or ''missing --endpoint (or SOWER_ENDPOINT)'' endpoint) (\<lambda>endpoint.
     bind_r (resolve_token S access_token access_token_file) (\<lambda>token.
     bind_r (auth_header S token require_token) (\<lambda>header.
     bind_r (with_context ''build reqwest client'' (su_http S)) (\<lambda>_.
     Inr \<lparr>ac_endpoint = endpoint, ac_authorization = header\<rparr>))))"

definition build_client :: "surroundings \<Rightarrow> connection_args \<Rightarrow> bool \<Rightarrow> api_client result" where
  "build_client S A require_token =
     bind_r (load_config S (ca_config_file A)) (\<lambda>cfg.
     build_api S (later (fc_endpoint cfg) (ca_endpoint A)) (later (fc_access_token cfg) (ca_access_token A))
       (later (fc_access_token_file cfg) (ca_access_token_file A)) require_token)"

definition connection_endpoint :: "surroundings \<Rightarrow> connection_args \<Rightarrow> string option result" where
  "connection_endpoint S A =
     bind_r (load_config S (ca_config_file A)) (\<lambda>cfg. Inr (later (fc_endpoint cfg) (ca_endpoint A)))"

definition client :: "surroundings \<Rightarrow> connection_args \<Rightarrow> api_client result" where
  "client S A = build_client S A False"

definition authenticated_client :: "surroundings \<Rightarrow> connection_args \<Rightarrow> api_client result" where
  "authenticated_client S A = build_client S A True"

section \<open>The garden's socket\<close>

text \<open>The settings of \<open>garden/config.rs\<close> are the socket alone, merged by assignment.\<close>

definition decode_socket :: "json \<Rightarrow> string option result" where
  "decode_socket v =
     (let v = struct_value [''admin_socket''] 1 v in bind_r (known_once [''admin_socket''] v) (\<lambda>_. opt_string ''admin_socket'' v))"

interpretation socket: layered "\<lambda>c :: 'a option. c" later
  by unfold_locales (simp add: later_def split: option.split)

definition read_socket_config :: "surroundings \<Rightarrow> string \<Rightarrow> string option result" where
  "read_socket_config S path =
     bind_r (with_context (''read config file: '' @ path) (su_read S path)) (\<lambda>raw.
     with_context (''parse config file: '' @ path) (bind_r (su_json S raw) decode_socket))"

definition socket_config_path_for :: "string option \<Rightarrow> (string \<Rightarrow> string option) \<Rightarrow> string option" where
  "socket_config_path_for user env =
     (if user = Some ''root'' then Some ''/etc/sower/client.json''
      else
        (case env ''XDG_CONFIG_HOME'' of
           Some base \<Rightarrow> Some (path_join (path_join base ''sower'') ''client.json'')
         | None \<Rightarrow> map_option (\<lambda>home. path_join (path_join (path_join home ''.config'') ''sower'') ''client.json'') (env ''HOME'')))"

definition socket_config_path :: "surroundings \<Rightarrow> string option" where
  "socket_config_path S = socket_config_path_for (su_user S) (su_env S)"

fun load_socket_from :: "surroundings \<Rightarrow> string option \<Rightarrow> string list \<Rightarrow> string option result" where
  "load_socket_from S merged [] = Inr merged"
| "load_socket_from S merged (p # ps) =
     (if \<not> su_exists S p then load_socket_from S merged ps
      else bind_r (read_socket_config S p) (\<lambda>c.
        load_socket_from S (case c of Some socket \<Rightarrow> Some socket | None \<Rightarrow> merged) ps))"

definition load_socket :: "surroundings \<Rightarrow> string list \<Rightarrow> string option result" where
  "load_socket S explicit =
     load_socket_from S None
       (if explicit = [] then (case socket_config_path S of None \<Rightarrow> [] | Some p \<Rightarrow> [p]) else explicit)"

text \<open>The two copies of this code in the sources agree: the same files in the same order, the later ones first.\<close>

lemma socket_config_path_same: "socket_config_path S = default_path S"
  by (cases "su_env S ''HOME''")
    (auto simp: socket_config_path_def default_path_def socket_config_path_for_def default_path_for_def split: option.split)

lemma load_socket_from_layers: "load_socket_from S merged ps = load_layers S decode_socket later merged ps"
  by (induction ps arbitrary: merged) (simp_all add: read_socket_config_def read_config_def later_def)

lemma load_socket_layers: "load_socket S explicit = load_layers S decode_socket later None (config_paths S explicit)"
  by (simp add: load_socket_def config_paths_def socket_config_path_same load_socket_from_layers)

definition default_admin_socket_for :: "string option \<Rightarrow> string option \<Rightarrow> string" where
  "default_admin_socket_for user xdg_runtime =
     (case xdg_runtime of
        Some dir \<Rightarrow> if user \<noteq> Some ''root'' then path_join (path_join dir ''sower-garden'') ''admin.sock'' else ''/run/sower-garden/admin.sock''
      | None \<Rightarrow> ''/run/sower-garden/admin.sock'')"

definition resolve_socket :: "surroundings \<Rightarrow> string option \<Rightarrow> string list \<Rightarrow> string result" where
  "resolve_socket S flag config_files =
     (case flag of
        Some path \<Rightarrow> Inr path
      | None \<Rightarrow>
          bind_r (load_socket S config_files) (\<lambda>socket.
          case socket of
            Some path \<Rightarrow> Inr path
          | None \<Rightarrow> Inr (default_admin_socket_for (su_user S) (su_env S ''XDG_RUNTIME_DIR''))))"

section \<open>Precedence\<close>

definition found_configs :: "surroundings \<Rightarrow> (json \<Rightarrow> 'c result) \<Rightarrow> string list \<Rightarrow> 'c list result" where
  "found_configs S decode explicit = collect_r (read_config S decode) (filter (su_exists S) (config_paths S explicit))"

lemma load_config_found: "load_config S ps = bind_r (found_configs S decode_config ps) (\<lambda>cs. Inr (foldl merge_config default_config cs))"
  by (simp add: load_config_def found_configs_def load_layers_foldl)

lemma load_socket_found: "load_socket S ps = bind_r (found_configs S decode_socket ps) (\<lambda>cs. Inr (foldl later None cs))"
  by (simp add: load_socket_layers found_configs_def load_layers_foldl)

text \<open>\<open>decides get v cs\<close>: the last of the files that have the setting gives \<open>v\<close>; without one it is \<open>None\<close>.\<close>

definition decides :: "('c \<Rightarrow> 'v option) \<Rightarrow> 'v option \<Rightarrow> 'c list \<Rightarrow> bool" where
  "decides get v cs \<longleftrightarrow>
     (case v of None \<Rightarrow> \<forall>c \<in> set cs. get c = None
      | Some x \<Rightarrow> \<exists>ds d es. cs = ds @ d # es \<and> get d = Some x \<and> (\<forall>e \<in> set es. get e = None))"

lemma decides_last: "decides get (case filter (\<lambda>c. get c \<noteq> None) (rev cs) of [] \<Rightarrow> None | c # _ \<Rightarrow> get c) cs"
proof (induction cs)
  case (Cons c cs)
  show ?case
  proof (cases "filter (\<lambda>c. get c \<noteq> None) (rev cs)")
    case Nil
    then have "\<forall>d \<in> set cs. get d = None" by (simp add: filter_empty_conv)
    then show ?thesis using Nil by (cases "get c") (auto simp: decides_def intro: exI [of _ "[]"])
  next
    case (Cons d ds)
    then have "get d \<noteq> None" by (metis (mono_tags, lifting) filter_eq_Cons_iff)
    then obtain x where "get d = Some x" by blast
    then show ?thesis using Cons.IH Cons unfolding decides_def
      by simp (metis append_Cons)
  qed
qed (simp add: decides_def)

lemma settings_decided:
  "decides fc_endpoint (fc_endpoint (foldl merge_config default_config cs)) cs"
  "decides fc_access_token (fc_access_token (foldl merge_config default_config cs)) cs"
  "decides fc_access_token_file (fc_access_token_file (foldl merge_config default_config cs)) cs"
  unfolding endpoint.get_foldl token.get_foldl token_file.get_foldl default_config_def file_config.select_convs
  by (rule decides_last)+

lemma socket_decided: "decides (\<lambda>c. c) (foldl later None cs) cs"
  using decides_last [of "\<lambda>c. c" cs] unfolding socket.get_foldl by simp

text \<open>C37: A command that needs a token never talks to the server without one: the client it is given sends the header
  \<open>Bearer\<close> with the token of the command line, or else the token the last configuration file with a token
  gives, or else the trimmed text of the token file of the command line or of the last configuration
  file that names one; and its endpoint is chosen the same way.\<close>

theorem authenticated_client_sound:
  assumes "authenticated_client S A = Inr c"
  shows "\<exists>cs e t f token. found_configs S decode_config (ca_config_file A) = Inr cs
     \<and> decides fc_endpoint e cs \<and> decides fc_access_token t cs \<and> decides fc_access_token_file f cs
     \<and> Some (ac_endpoint c) = later e (ca_endpoint A) \<and> ac_authorization c = Some (''Bearer '' @ token)
     \<and> (case later t (ca_access_token A) of Some x \<Rightarrow> token = x
        | None \<Rightarrow> \<exists>p raw. later f (ca_access_token_file A) = Some p \<and> su_read S p = Inr raw \<and> token = trim_text raw)"
proof -
  obtain cs where cs: "found_configs S decode_config (ca_config_file A) = Inr cs"
    and b: "build_api S (later (fc_endpoint (foldl merge_config default_config cs)) (ca_endpoint A))
       (later (fc_access_token (foldl merge_config default_config cs)) (ca_access_token A))
       (later (fc_access_token_file (foldl merge_config default_config cs)) (ca_access_token_file A)) True = Inr c"
    using assms by (auto simp: authenticated_client_def build_client_def load_config_found bind_r_eq_Inr)
  then obtain token where
    "Some (ac_endpoint c) = later (fc_endpoint (foldl merge_config default_config cs)) (ca_endpoint A)"
    "ac_authorization c = Some (''Bearer '' @ token)"
    "resolve_token S (later (fc_access_token (foldl merge_config default_config cs)) (ca_access_token A))
       (later (fc_access_token_file (foldl merge_config default_config cs)) (ca_access_token_file A)) = Inr (Some token)"
    by (auto simp: build_api_def auth_header_def result_simps Let_def split: option.splits if_splits)
  then show ?thesis using cs settings_decided [of cs]
    by (intro exI [of _ cs] exI [of _ "fc_endpoint (foldl merge_config default_config cs)"]
        exI [of _ "fc_access_token (foldl merge_config default_config cs)"]
        exI [of _ "fc_access_token_file (foldl merge_config default_config cs)"] exI [of _ token])
      (auto simp: resolve_token_def result_simps split: option.splits)
qed

definition sample_surroundings :: surroundings where
  "sample_surroundings = \<lparr>su_exists = (\<lambda>p. p \<noteq> ''c''),
     su_read = (\<lambda>p. Inr (if p = ''key'' then '' secret'' @ [char_nl] else p)), su_user = Some ''root'',
     su_env = (\<lambda>k. None),
     su_json = (\<lambda>s. Inr (if s = ''a'' then JObj [(''endpoint'', JStr ''https://a''), (''access_token_file'', JStr ''key'')]
        else JObj [(''endpoint'', JStr ''https://b''), (''admin_socket'', JStr ''/s'')])),
     su_header_ok = (\<lambda>s. True), su_http = Inr ()\<rparr>"

definition sample_connection :: connection_args where
  "sample_connection = \<lparr>ca_endpoint = None, ca_access_token = None, ca_access_token_file = None, ca_config_file = [''a'', ''b'', ''c'']\<rparr>"

lemma sample_client:
  "authenticated_client sample_surroundings sample_connection = Inr \<lparr>ac_endpoint = ''https://b'', ac_authorization = Some ''Bearer secret''\<rparr>"
  by code_simp

theorem authenticated_client_sound_witness:
  "\<exists>cs e t f token. found_configs sample_surroundings decode_config [''a'', ''b'', ''c''] = Inr cs
     \<and> decides fc_endpoint e cs \<and> decides fc_access_token t cs \<and> decides fc_access_token_file f cs
     \<and> Some ''https://b'' = later e None \<and> Some ''Bearer secret'' = Some (''Bearer '' @ token)"
  using authenticated_client_sound [OF sample_client] unfolding sample_connection_def by simp blast

text \<open>The garden's socket is the one of the flag; else the one of the last existing configuration file that names one; and
  only if no file does it is the default one, which is the system's socket for root.\<close>

theorem socket_precedence:
  assumes "resolve_socket S flag ps = Inr path"
  shows "case flag of Some p \<Rightarrow> path = p
    | None \<Rightarrow> \<exists>cs v. found_configs S decode_socket ps = Inr cs \<and> decides (\<lambda>c. c) v cs
        \<and> (case v of Some p \<Rightarrow> path = p
           | None \<Rightarrow> path = default_admin_socket_for (su_user S) (su_env S ''XDG_RUNTIME_DIR'')
               \<and> (su_user S = Some ''root'' \<longrightarrow> path = ''/run/sower-garden/admin.sock''))"
proof (cases flag)
  case None
  then obtain cs where "found_configs S decode_socket ps = Inr cs"
      "(case foldl later None cs of Some p \<Rightarrow> path = p | None \<Rightarrow> path = default_admin_socket_for (su_user S) (su_env S ''XDG_RUNTIME_DIR''))"
    using assms by (auto simp: resolve_socket_def load_socket_found bind_r_eq_Inr split: option.splits)
  then show ?thesis unfolding None option.case using socket_decided [of cs]
    by (intro exI [of _ cs] exI [of _ "foldl later None cs"])
      (auto simp: default_admin_socket_for_def split: option.splits)
qed (use assms in \<open>simp add: resolve_socket_def\<close>)

theorem socket_precedence_witness:
  "resolve_socket sample_surroundings None [''b'', ''c''] = Inr ''/s''
     \<and> (\<exists>cs v. found_configs sample_surroundings decode_socket [''b'', ''c''] = Inr cs \<and> decides (\<lambda>c. c) v cs)"
proof -
  have s: "resolve_socket sample_surroundings None [''b'', ''c''] = Inr ''/s''" by code_simp
  show ?thesis using socket_precedence [OF s] s by auto
qed

end
