(* ===== verification/Garden.thy ===== *)
theory Garden
  imports ClientConfig SeedOps Utf8
begin

text \<open>
  \<open>sower garden\<close>: the requests to the garden's socket and its replies (\<open>src/src/commands/garden/mod.rs\<close>,
  \<open>protocol.rs\<close>, \<open>client.rs\<close>).  JSON text is a parameter; a request is the value that is printed, a reply
  is decoded from the value of its line.
\<close>

section \<open>Requests\<close>

definition MAX_LINE_BYTES :: nat where "MAX_LINE_BYTES = 65536"

datatype garden_command = Trigger "seed_type option" "string option" bool | Reload | Status | Reregister

definition present :: "string \<Rightarrow> json option \<Rightarrow> (string \<times> json) list" where
  "present k v = (case v of None \<Rightarrow> [] | Some x \<Rightarrow> [(k, x)])"

definition deploy_payload :: "string option \<Rightarrow> string option \<Rightarrow> bool \<Rightarrow> json" where
  "deploy_payload ty sid force =
     JObj (present ''seed_type'' (map_option JStr ty) @ present ''sid'' (map_option JStr sid) @ [(''force'', JBool force)])"

definition envelope :: "string \<Rightarrow> string \<Rightarrow> json option \<Rightarrow> json" where
  "envelope i kind payload =
     JObj ([(''v'', JNum 1), (''id'', JStr i), (''kind'', JStr kind)] @ present ''payload'' payload)"

definition encode_line :: "(json \<Rightarrow> string) \<Rightarrow> json \<Rightarrow> string result" where
  "encode_line print v =
     (let line = print v in
      bind_r (ensure (length line \<le> MAX_LINE_BYTES) ''request exceeds 65536 byte limit'') (\<lambda>_. Inr line))"

text \<open>The functions of \<open>protocol.rs\<close>, one per kind of request; a type is given by its name.\<close>

definition deploy_request :: "(json \<Rightarrow> string) \<Rightarrow> string \<Rightarrow> string option \<Rightarrow> string option \<Rightarrow> bool \<Rightarrow> string result" where
  "deploy_request print i ty sid force = encode_line print (envelope i ''deploy'' (Some (deploy_payload ty sid force)))"

definition reload_request :: "(json \<Rightarrow> string) \<Rightarrow> string \<Rightarrow> string result" where
  "reload_request print i = encode_line print (envelope i ''reload'' None)"

definition reregister_request :: "(json \<Rightarrow> string) \<Rightarrow> string \<Rightarrow> string result" where
  "reregister_request print i = encode_line print (envelope i ''reregister'' None)"

definition status_request :: "(json \<Rightarrow> string) \<Rightarrow> string \<Rightarrow> string result" where
  "status_request print i = encode_line print (envelope i ''status'' None)"

lemmas request_defs = deploy_request_def reload_request_def reregister_request_def status_request_def

definition build_request_line :: "(json \<Rightarrow> string) \<Rightarrow> string \<Rightarrow> garden_command \<Rightarrow> string result" where
  "build_request_line print i cmd =
     (case cmd of
        Trigger ty sid force \<Rightarrow>
          bind_r (ensure (\<not> (ty = None \<and> sid = None)) ''trigger requires --type or --sid'') (\<lambda>_.
          deploy_request print i (map_option seed_type_str ty) sid force)
      | Reload \<Rightarrow> reload_request print i
      | Status \<Rightarrow> status_request print i
      | Reregister \<Rightarrow> reregister_request print i)"

section \<open>Replies\<close>

datatype reply_kind = ReplyOk | ReplyError | ReplyComplete

record pending_deployment =
  pd_seed_sid :: string
  pd_seed_url :: string

record status_report =
  sr_version :: string
  sr_active :: "string list"
  sr_pending :: "pending_deployment list option"
  sr_rejected_at :: "string option"

record garden_reply =
  gr_kind :: reply_kind
  gr_data :: "string option"
  gr_exit_code :: "int option"
  gr_status :: "status_report option"

definition req_string :: "string \<Rightarrow> json \<Rightarrow> string result" where
  "req_string k v =
     bind_r (ok_or (''missing field '' @ k) (j_get v k)) (\<lambda>x. ok_or (''invalid type for '' @ k) (as_str x))"

definition decode_pending :: "json \<Rightarrow> pending_deployment result" where
  "decode_pending v =
     (let names = [''seed_sid'', ''seed_url'']; v = struct_value names 2 v in
     bind_r (known_once names v) (\<lambda>_.
     bind_r (req_string ''seed_sid'' v) (\<lambda>s.
     bind_r (req_string ''seed_url'' v) (\<lambda>u.
     Inr \<lparr>pd_seed_sid = s, pd_seed_url = u\<rparr>))))"

definition decode_list :: "(json \<Rightarrow> 'a result) \<Rightarrow> json \<Rightarrow> 'a list result" where
  "decode_list f v = bind_r (ok_or ''invalid type: expected a sequence'' (as_array v)) (collect_r f)"

text \<open>\<open>#[serde(default)]\<close>: the default for a missing field; for an option also for \<open>null\<close>.\<close>

definition decode_default :: "'a \<Rightarrow> (json \<Rightarrow> 'a result) \<Rightarrow> string \<Rightarrow> json \<Rightarrow> 'a result" where
  "decode_default d f k v = (case j_get v k of None \<Rightarrow> Inr d | Some x \<Rightarrow> f x)"

definition decode_option :: "(json \<Rightarrow> 'a result) \<Rightarrow> json \<Rightarrow> 'a option result" where
  "decode_option f v = (if v = JNull then Inr None else bind_r (f v) (\<lambda>x. Inr (Some x)))"

definition decode_string :: "json \<Rightarrow> string result" where
  "decode_string v = ok_or ''invalid type: expected a string'' (as_str v)"

definition decode_i32 :: "json \<Rightarrow> int result" where
  "decode_i32 v =
     (case v of
        JNum n \<Rightarrow> if - (2 ^ 31) \<le> n \<and> n < 2 ^ 31 then Inr n else Inl (Msg ''invalid value: expected i32'')
      | _ \<Rightarrow> Inl (Msg ''invalid type: expected i32''))"

definition decode_status :: "json \<Rightarrow> status_report result" where
  "decode_status v =
     (let names = [''version'', ''active_deployments'', ''pending_deployments'', ''credentials_rejected_at''];
          v = struct_value names 1 v in
     bind_r (known_once names v) (\<lambda>_.
     bind_r (req_string ''version'' v) (\<lambda>version.
     bind_r (decode_default [] (decode_list decode_string) ''active_deployments'' v) (\<lambda>active.
     bind_r (decode_default None (decode_option (decode_list decode_pending)) ''pending_deployments'' v) (\<lambda>pending.
     bind_r (decode_default None (decode_option decode_string) ''credentials_rejected_at'' v) (\<lambda>rejected.
     Inr \<lparr>sr_version = version, sr_active = active, sr_pending = pending, sr_rejected_at = rejected\<rparr>))))))"

definition reply_kind_of :: "string \<Rightarrow> reply_kind result" where
  "reply_kind_of s =
     (if s = ''ok'' then Inr ReplyOk else if s = ''error'' then Inr ReplyError else if s = ''complete'' then Inr ReplyComplete
      else Inl (Msg ''unknown variant''))"

definition decode_reply :: "json \<Rightarrow> garden_reply result" where
  "decode_reply v =
     (let names = [''kind'', ''data'', ''exit_code'', ''status'']; v = struct_value names 1 v in
     bind_r (known_once names v) (\<lambda>_.
     bind_r (bind_r (ok_or ''missing field kind'' (j_get v ''kind'')) (\<lambda>x. ok_or ''invalid type for kind'' (variant_name x))) (\<lambda>k.
     bind_r (reply_kind_of k) (\<lambda>kind.
     bind_r (decode_default None (decode_option decode_string) ''data'' v) (\<lambda>data.
     bind_r (decode_default None (decode_option decode_i32) ''exit_code'' v) (\<lambda>code.
     bind_r (decode_default None (decode_option decode_status) ''status'' v) (\<lambda>status.
     Inr \<lparr>gr_kind = kind, gr_data = data, gr_exit_code = code, gr_status = status\<rparr>)))))))"

definition parse_reply :: "(string \<Rightarrow> json result) \<Rightarrow> string \<Rightarrow> garden_reply result" where
  "parse_reply json line = bind_r (json line) decode_reply"

section \<open>Printing\<close>

record streams =
  st_out :: terminal
  st_err :: terminal

definition to_out :: "string \<Rightarrow> (streams, unit) act" where
  "to_out b s = (case write_all b (st_out s) of (r, t) \<Rightarrow> (r, s\<lparr>st_out := t\<rparr>))"

definition to_err :: "string \<Rightarrow> (streams, unit) act" where
  "to_err b s = (case write_all b (st_err s) of (r, t) \<Rightarrow> (r, s\<lparr>st_err := t\<rparr>))"

text \<open>A terminal hyperlink: the escape sequences of the source.\<close>

definition link_text :: "pending_deployment \<Rightarrow> string" where
  "link_text d =
     CHR 0x1B # '']8;;'' @ pd_seed_url d @ [CHR 0x1B, char_backslash] @ pd_seed_sid d @ [CHR 0x1B] @ '']8;;'' @ [CHR 0x1B, char_backslash]"

fun write_links :: "pending_deployment list \<Rightarrow> (streams, unit) act" where
  "write_links [] = ret ()"
| "write_links [d] = to_out (link_text d)"
| "write_links (d # ds) = seq (to_out (link_text d)) (\<lambda>_. seq (to_out '', '') (\<lambda>_. write_links ds))"

definition out_line :: "string \<Rightarrow> (streams, unit) act" where
  "out_line l = to_out (l @ [char_nl])"

definition write_status :: "status_report \<Rightarrow> (streams, unit) act" where
  "write_status s =
     seq (out_line (''version: '' @ sr_version s)) (\<lambda>_.
     seq (out_line (if sr_active s = [] then ''active deployments: none''
            else ''active deployments: '' @ join_with '', '' (sr_active s))) (\<lambda>_.
     seq (case sr_pending s of
            None \<Rightarrow> out_line ''pending deployments: unknown''
          | Some [] \<Rightarrow> out_line ''pending deployments: none''
          | Some ds \<Rightarrow> seq (to_out ''pending deployments: '') (\<lambda>_. seq (write_links ds) (\<lambda>_. out_line []))) (\<lambda>_.
     out_line (case sr_rejected_at s of
         Some at \<Rightarrow> ''credentials: rejected at '' @ at @ '', awaiting operator re-registration (sower garden reregister)''
       | None \<Rightarrow> ''credentials: ok''))))"

definition some_text :: "string option \<Rightarrow> string option" where
  "some_text d = (case d of Some [] \<Rightarrow> None | _ \<Rightarrow> d)"

definition emit_ok :: "garden_reply \<Rightarrow> (streams, unit) act" where
  "emit_ok r =
     seq (case gr_status r of Some s \<Rightarrow> write_status s | None \<Rightarrow> ret ()) (\<lambda>_.
     case some_text (gr_data r) of Some d \<Rightarrow> out_line d | None \<Rightarrow> ret ())"

definition emit_error :: "garden_reply \<Rightarrow> (streams, unit) act" where
  "emit_error r = (case some_text (gr_data r) of Some d \<Rightarrow> to_err (d @ [char_nl]) | None \<Rightarrow> ret ())"

section \<open>Reading replies\<close>

text \<open>
  A \<open>BufReader\<close>: what it has buffered and what its next reads give.  \<open>fill_buf\<close> reads only when
  nothing is buffered; no bytes, or the end of the list, is the end of the stream.
\<close>

datatype fill = Filled string | FillTimesOut | FillFails

type_synonym reader = "string \<times> fill list"

definition end_of_replies :: "string \<Rightarrow> string option result" where
  "end_of_replies acc = (if acc = [] then Inr None else Inl (Msg ''reply frame truncated (no trailing newline)''))"

definition too_long :: "'a result" where
  "too_long = Inl (Msg ''reply frame exceeds 65536 byte limit'')"

definition finish_line :: "string \<Rightarrow> string option result" where
  "finish_line l = bind_r (ensure (is_utf8 l) ''reply frame not valid UTF-8'') (\<lambda>_. Inr (Some l))"

text \<open>The body of the loop on a chunk that is not empty, with the rest of the reads for the case that it goes on.\<close>

fun read_fills :: "nat \<Rightarrow> string \<Rightarrow> fill list \<Rightarrow> string option result \<times> reader" where
  "read_fills cap acc [] = (end_of_replies acc, [], [])"
| "read_fills cap acc (FillTimesOut # fs) = (Inl (Msg ''timed out waiting for a reply from the garden''), [], fs)"
| "read_fills cap acc (FillFails # fs) = (Inl (Context ''read reply frame'' (Msg ''os error'')), [], fs)"
| "read_fills cap acc (Filled chunk # fs) =
     (if chunk = [] then (end_of_replies acc, [], fs)
      else case split_once char_nl chunk of
        Some (l, rest) \<Rightarrow>
          if length acc + length l > cap then (too_long, chunk, fs) else (finish_line (acc @ l), rest, fs)
      | None \<Rightarrow>
          if length acc + length chunk > cap then (too_long, chunk, fs) else read_fills cap (acc @ chunk) fs)"

definition read_line_capped :: "nat \<Rightarrow> reader \<Rightarrow> string option result \<times> reader" where
  "read_line_capped cap = (\<lambda>(buffered, fs).
     if buffered = [] then read_fills cap [] fs else read_fills cap [] (Filled buffered # fs))"

definition reader_size :: "reader \<Rightarrow> nat" where
  "reader_size = (\<lambda>(buffered, fs). length buffered + (\<Sum>f\<leftarrow>fs. case f of Filled b \<Rightarrow> length b | _ \<Rightarrow> 0))"

lemma read_fills_line:
  "read_fills cap acc fs = (Inr (Some l), r) \<Longrightarrow> reader_size r < reader_size ([], fs)"
proof (induction cap acc fs rule: read_fills.induct)
  case (4 cap acc chunk fs)
  then show ?case
    by (auto simp: end_of_replies_def too_long_def reader_size_def split_once_Some_iff split: if_splits option.splits)
qed (auto simp: end_of_replies_def split: if_splits)

lemma read_line_size:
  "read_line_capped cap r = (Inr (Some l), r') \<Longrightarrow> reader_size r' < reader_size r"
proof -
  assume a: "read_line_capped cap r = (Inr (Some l), r')"
  obtain b fs where r: "r = (b, fs)" by (cases r)
  have "reader_size ([], Filled b # fs) = reader_size (b, fs)" by (simp add: reader_size_def)
  then show ?thesis using a read_fills_line [of cap "[]" _ l r'] unfolding r
    by (auto simp: read_line_capped_def split: if_splits simp del: read_fills.simps dest!: read_fills_line)
qed

function stream_replies :: "(string \<Rightarrow> json result) \<Rightarrow> reader \<Rightarrow> (streams, int) act" where
  "stream_replies json r =
     (case read_line_capped MAX_LINE_BYTES r of
        (Inl e, _) \<Rightarrow> lift_r (Inl e)
      | (Inr None, _) \<Rightarrow> lift_r (Inl (Msg ''garden closed the connection without a complete frame''))
      | (Inr (Some line), r') \<Rightarrow>
          seq (lift_r (with_context ''decode reply frame'' (parse_reply json line))) (\<lambda>reply.
          case gr_kind reply of
            ReplyOk \<Rightarrow> seq (emit_ok reply) (\<lambda>_. stream_replies json r')
          | ReplyError \<Rightarrow> seq (emit_error reply) (\<lambda>_. stream_replies json r')
          | ReplyComplete \<Rightarrow> lift_r (ok_or ''complete frame missing exit_code'' (gr_exit_code reply))))"
  by pat_completeness auto
termination by (relation "measure (\<lambda>(_, r). reader_size r)") (auto intro: read_line_size [OF sym])

declare stream_replies.simps [simp del]

section \<open>One run\<close>

text \<open>What the socket does: whether connecting, setting the time-out and each write succeed, and what it replies.\<close>

record garden_socket =
  gs_connect :: "string \<Rightarrow> bool"
  gs_timeout :: bool
  gs_takes :: "string \<Rightarrow> bool"
  gs_replies :: "string \<Rightarrow> fill list"

definition write_request :: "garden_socket \<Rightarrow> string \<Rightarrow> unit result" where
  "write_request G line = ensure (gs_takes G (line @ [char_nl])) ''os error''"

definition run_request :: "garden_socket \<Rightarrow> (string \<Rightarrow> json result) \<Rightarrow> string \<Rightarrow> string \<Rightarrow> (streams, int) act" where
  "run_request G json path line =
     seq (lift_r (with_context (''connect to garden admin socket '' @ path) (ensure (gs_connect G path) ''os error''))) (\<lambda>_.
     seq (lift_r (with_context ''set admin socket read timeout'' (ensure (gs_timeout G) ''os error''))) (\<lambda>_.
     seq (lift_r (with_context ''send admin request'' (write_request G line))) (\<lambda>_.
     stream_replies json ([], gs_replies G (line @ [char_nl])))))"

text \<open>The exit code of the process; 0 if the run returns.\<close>

definition garden_run ::
  "surroundings \<Rightarrow> garden_socket \<Rightarrow> (json \<Rightarrow> string) \<Rightarrow> string \<Rightarrow> string option \<Rightarrow> string list \<Rightarrow> garden_command \<Rightarrow> (streams, int) act" where
  "garden_run S G print pid flag config_files cmd =
     seq (lift_r (resolve_socket S flag config_files)) (\<lambda>path.
     seq (lift_r (build_request_line print pid cmd)) (\<lambda>line.
     run_request G (su_json S) path line))"

section \<open>The replies as one text\<close>

definition read_text :: "nat \<Rightarrow> string \<Rightarrow> string option result \<times> string" where
  "read_text cap t =
     (case split_once char_nl t of
        Some (l, rest) \<Rightarrow> if length l > cap then (too_long, t) else (finish_line l, rest)
      | None \<Rightarrow> if length t > cap then (too_long, t) else (end_of_replies t, []))"

lemma split_once_prefix:
  "char_nl \<notin> set a \<Longrightarrow> split_once char_nl (a @ s) = map_option (\<lambda>(l, r). (a @ l, r)) (split_once char_nl s)"
proof (induction a)
  case Nil
  then show ?case by (cases "split_once char_nl s") auto
qed (auto split: option.splits)

text \<open>The rest of the text after a line: what is buffered and what is still to be read.\<close>

definition rest_of :: "string \<Rightarrow> reader \<Rightarrow> bool" where
  "rest_of t r \<longleftrightarrow> (\<exists>cs. snd r = map Filled cs \<and> [] \<notin> set cs \<and> t = fst r @ concat cs)"

lemma read_fills_text:
  "[] \<notin> set cs \<Longrightarrow> char_nl \<notin> set acc \<Longrightarrow> length acc \<le> cap \<Longrightarrow> read_fills cap acc (map Filled cs) = (q, r) \<Longrightarrow>
     q = fst (read_text cap (acc @ concat cs)) \<and> (\<forall>l. q = Inr (Some l) \<longrightarrow> rest_of (snd (read_text cap (acc @ concat cs))) r)"
proof (induction cs arbitrary: acc)
  case Nil
  then show ?case by (auto simp: read_text_def split_once_notin end_of_replies_def split: if_splits)
next
  case (Cons c cs)
  show ?case
  proof (cases "split_once char_nl c")
    case None
    then have nl: "char_nl \<notin> set (acc @ c)" using Cons.prems(2) by (simp add: split_once_None_iff)
    show ?thesis
    proof (cases "length acc + length c \<le> cap")
      case True
      then show ?thesis using Cons.prems None nl Cons.IH [of "acc @ c"] by auto
    next
      case False
      then have "fst (read_text cap (acc @ concat (c # cs))) = too_long"
        using nl split_once_prefix [OF nl, of "concat cs"] by (auto simp: read_text_def split: option.splits)
      then show ?thesis using Cons.prems None False by (auto simp: too_long_def)
    qed
  next
    case (Some lr)
    obtain l s where lr: "lr = (l, s)" by (cases lr)
    have c: "c = l @ char_nl # s" "char_nl \<notin> set (acc @ l)"
      using Some lr Cons.prems(2) by (auto simp: split_once_Some_iff)
    then have "split_once char_nl (acc @ concat (c # cs)) = Some (acc @ l, s @ concat cs)"
      by (simp add: split_once_Some_iff)
    then show ?thesis using Cons.prems Some lr c
      by (auto simp: read_text_def rest_of_def too_long_def split: if_splits)
  qed
qed

lemma read_line_text:
  assumes "rest_of t r" "read_line_capped cap r = (q, r')"
  shows "q = fst (read_text cap t) \<and> (\<forall>l. q = Inr (Some l) \<longrightarrow> rest_of (snd (read_text cap t)) r')"
proof -
  obtain b cs where r: "r = (b, map Filled cs)" "[] \<notin> set cs" "t = b @ concat cs"
    using assms(1) by (cases r) (auto simp: rest_of_def)
  show ?thesis
  proof (cases "b = []")
    case True
    then show ?thesis using read_fills_text [of cs "[]" cap q r'] assms(2) r by (simp add: read_line_capped_def)
  next
    case False
    then show ?thesis using read_fills_text [of "b # cs" "[]" cap q r'] assms(2) r by (simp add: read_line_capped_def del: read_fills.simps)
  qed
qed

text \<open>What is shown for the replies before the last.\<close>

definition show_reply :: "garden_reply \<Rightarrow> (streams, unit) act" where
  "show_reply r = (if gr_kind r = ReplyOk then emit_ok r else emit_error r)"

lemma read_text_line:
  "char_nl \<notin> set l \<Longrightarrow> length l \<le> cap \<Longrightarrow> is_utf8 l \<Longrightarrow> read_text cap (l @ char_nl # t) = (Inr (Some l), t)"
  by (simp add: read_text_def split_once_append finish_line_def)

definition good_line :: "string \<Rightarrow> bool" where
  "good_line l \<longleftrightarrow> char_nl \<notin> set l \<and> length l \<le> MAX_LINE_BYTES \<and> is_utf8 l"

lemma stream_replies_line:
  assumes "good_line l" "rest_of (l @ char_nl # t) r"
  shows "\<exists>r'. rest_of t r' \<and> read_line_capped MAX_LINE_BYTES r = (Inr (Some l), r')"
proof -
  obtain q r' where q: "read_line_capped MAX_LINE_BYTES r = (q, r')" by (cases "read_line_capped MAX_LINE_BYTES r")
  then show ?thesis using read_line_text [OF assms(2) q] read_text_line [of l MAX_LINE_BYTES t] assms(1)
    by (cases r') (auto simp: good_line_def)
qed

lemma stream_replies_played:
  "list_all2 (\<lambda>l p. good_line l \<and> parse_reply json l = Inr p \<and> gr_kind p \<noteq> ReplyComplete) ls ps \<Longrightarrow>
   good_line f \<Longrightarrow> parse_reply json f = Inr q \<Longrightarrow> gr_kind q = ReplyComplete \<Longrightarrow>
   rest_of (concat (map (\<lambda>l. l @ [char_nl]) (ls @ [f])) @ t) r \<Longrightarrow>
     stream_replies json r = seq (each show_reply ps) (\<lambda>_. lift_r (ok_or ''complete frame missing exit_code'' (gr_exit_code q)))"
proof (induction ls ps arbitrary: r rule: list_all2_induct)
  case Nil
  then obtain r' where "read_line_capped MAX_LINE_BYTES r = (Inr (Some f), r')"
    using stream_replies_line [of f t r] by auto
  then show ?case using Nil by (subst stream_replies.simps) (simp add: seq_lift_Inr)
next
  case (Cons l ls p ps)
  then obtain r' where r: "rest_of (concat (map (\<lambda>l. l @ [char_nl]) (ls @ [f])) @ t) r'" "read_line_capped MAX_LINE_BYTES r = (Inr (Some l), r')"
    using stream_replies_line [of l "concat (map (\<lambda>l. l @ [char_nl]) (ls @ [f])) @ t" r] by auto
  have "seq (show_reply p) (\<lambda>_. stream_replies json r') = seq (seq (show_reply p) (\<lambda>_. each show_reply ps))
     (\<lambda>_. lift_r (ok_or ''complete frame missing exit_code'' (gr_exit_code q)))"
    unfolding Cons.IH [OF Cons.prems(1-3) r(1)] seq_seq ..
  then show ?case using Cons r(2)
    by (subst stream_replies.simps) (cases "gr_kind p", auto simp: show_reply_def seq_lift_Inr)
qed

text \<open>C38: The replies of the garden are played as they were sent, however the socket cuts them: if the reads give lines of at
  most 65536 bytes that decode to replies, up to one that completes the request, then exactly the replies before it are
  shown in order, its exit code is the result, and what follows it is not looked at.\<close>

theorem replies_played:
  assumes "list_all2 (\<lambda>l p. good_line l \<and> parse_reply json l = Inr p \<and> gr_kind p \<noteq> ReplyComplete) ls ps"
    and "good_line f" and "parse_reply json f = Inr q" and "gr_kind q = ReplyComplete"
    and "concat cs = concat (map (\<lambda>l. l @ [char_nl]) (ls @ [f])) @ rest" and "[] \<notin> set cs"
  shows "stream_replies json ([], map Filled cs)
    = seq (each show_reply ps) (\<lambda>_. lift_r (ok_or ''complete frame missing exit_code'' (gr_exit_code q)))"
  by (rule stream_replies_played [OF assms(1-4), where t = rest]) (use assms(5,6) in \<open>auto simp: rest_of_def\<close>)

definition sample_garden_json :: "string \<Rightarrow> json result" where
  "sample_garden_json l = Inr (if l = ''a'' then JObj [(''kind'', JStr ''ok''), (''data'', JStr ''queued'')]
     else JObj [(''kind'', JStr ''complete''), (''exit_code'', JNum 3)])"

theorem replies_played_witness:
  "fst (stream_replies sample_garden_json ([], map Filled [''a'', [char_nl, CHR ''b''], [char_nl, CHR ''x'']])
     \<lparr>st_out = \<lparr>te_out = [], te_room = None\<rparr>, st_err = \<lparr>te_out = [], te_room = None\<rparr>\<rparr>) = Inr 3"
proof -
  let ?p = "\<lparr>gr_kind = ReplyOk, gr_data = Some ''queued'', gr_exit_code = None, gr_status = None\<rparr>"
  let ?q = "\<lparr>gr_kind = ReplyComplete, gr_data = None, gr_exit_code = Some 3, gr_status = None\<rparr>"
  have p: "parse_reply sample_garden_json ''a'' = Inr ?p" "parse_reply sample_garden_json ''b'' = Inr ?q" by code_simp+
  have l: "good_line ''a''" "good_line ''b''" by (simp_all add: good_line_def MAX_LINE_BYTES_def byte_in_def)
  have "stream_replies sample_garden_json ([], map Filled [''a'', [char_nl, CHR ''b''], [char_nl, CHR ''x'']])
    = seq (each show_reply [?p]) (\<lambda>_. lift_r (ok_or ''complete frame missing exit_code'' (gr_exit_code ?q)))"
    by (rule replies_played [where ls = "[''a'']" and f = "''b''" and rest = "''x''"]) (simp_all add: p l)
  then show ?thesis by (simp add: show_reply_def emit_ok_def some_text_def out_line_def to_out_def write_all_def seq_def)
qed

lemma read_fills_good:
  "read_fills cap acc fs = (Inr (Some l), r) \<Longrightarrow> char_nl \<notin> set acc \<Longrightarrow> length l \<le> cap \<and> char_nl \<notin> set l \<and> is_utf8 l"
proof (induction cap acc fs rule: read_fills.induct)
  case (4 cap acc chunk fs)
  show ?case
  proof (cases "split_once char_nl chunk")
    case None
    then have "char_nl \<notin> set chunk" by (simp add: split_once_None_iff)
    then show ?thesis
      using 4 None by (auto simp: end_of_replies_def too_long_def split: if_splits)
  next
    case (Some p)
    obtain l' rest where p: "p = (l', rest)" by (cases p)
    then have "char_nl \<notin> set l'" using Some by (simp add: split_once_Some_iff)
    then show ?thesis
      using 4 Some p by (auto simp: end_of_replies_def too_long_def finish_line_def result_simps split: if_splits)
  qed
qed (auto simp: end_of_replies_def split: if_splits)

lemma read_line_good: "read_line_capped cap r = (Inr (Some l), r') \<Longrightarrow> length l \<le> cap \<and> char_nl \<notin> set l \<and> is_utf8 l"
  by (cases r) (auto simp: read_line_capped_def simp del: read_fills.simps split: if_splits dest: read_fills_good)

text \<open>C39: Both directions of the garden's protocol are single bounded lines: what is sent has at most 65536 bytes and prints an
  envelope with the protocol version, the caller's id and the kind of the command, and a deployment always names what it is scoped
  to; and however the socket cuts what the garden sends, a line that is decoded is UTF-8 text of at most 65536 bytes without a
  line break.\<close>

theorem request_line_sound:
  assumes "build_request_line print i cmd = Inr line"
  shows "length line \<le> 65536 \<and> (\<exists>kind payload. line = print (envelope i kind payload)
    \<and> (case cmd of
         Trigger ty sid force \<Rightarrow> kind = ''deploy'' \<and> (ty \<noteq> None \<or> sid \<noteq> None)
           \<and> payload = Some (deploy_payload (map_option seed_type_str ty) sid force)
       | Reload \<Rightarrow> kind = ''reload'' \<and> payload = None
       | Status \<Rightarrow> kind = ''status'' \<and> payload = None
       | Reregister \<Rightarrow> kind = ''reregister'' \<and> payload = None))
    \<and> (\<forall>r r' l. read_line_capped MAX_LINE_BYTES r = (Inr (Some l), r') \<longrightarrow> length l \<le> 65536 \<and> char_nl \<notin> set l \<and> is_utf8 l)"
proof -
  have "length l \<le> 65536 \<and> char_nl \<notin> set l \<and> is_utf8 l" if "read_line_capped MAX_LINE_BYTES r = (Inr (Some l), r')" for r r' l
    using read_line_good [OF that] by (simp add: MAX_LINE_BYTES_def)
  then show ?thesis
    using assms
    by (cases cmd) (auto simp: build_request_line_def request_defs encode_line_def MAX_LINE_BYTES_def result_simps Let_def)
qed

theorem request_line_sound_witness: "build_request_line (\<lambda>v. ''{}'') ''7'' (Trigger (Some Nixos) None False) = Inr ''{}''
  \<and> length ''{}'' \<le> (65536 :: nat)"
  using request_line_sound [of "\<lambda>v. ''{}''" "''7''" "Trigger (Some Nixos) None False" "''{}''"]
  by (simp add: build_request_line_def request_defs encode_line_def MAX_LINE_BYTES_def)

end
