(* ===== verification/Program.thy ===== *)
theory Program
  imports Activator BuildForward DeploySafety Garden
begin

text \<open>
  The program \<open>sower\<close> as a whole: \<open>src/src/main.rs\<close> and \<open>ui.rs\<close>.  The command line is parsed by clap, a parameter; the
  command runs on the state of its component, with the client settings of \<open>ClientConfig\<close> where it talks to
  the server, and an error is shown and decides the exit status.
\<close>

section \<open>Errors on the terminal\<close>

fun causes :: "error \<Rightarrow> string list" where
  "causes (Msg m) = [m]"
| "causes (Context c e) = c # causes e"

text \<open>The mark of an error line, as the UTF-8 bytes of the source's literal.\<close>

definition cross_mark :: string where
  "cross_mark = [CHR 0xE2, CHR 0x9C, CHR 0x97]"

definition ui_error :: "(string \<Rightarrow> string) \<Rightarrow> (string \<Rightarrow> string) \<Rightarrow> error \<Rightarrow> string list" where
  "ui_error style dim e = (style (cross_mark @ '' error:'') @ '' '' @ error_display e)
     # map (\<lambda>cause. ''  '' @ dim cause) (tl (causes e))"

lemma causes_chain: "join_with '': '' (causes e) = error_chain e"
proof (induction e)
  case (Context c e)
  then show ?case by (cases e) simp_all
qed simp

lemma causes_display: "hd (causes e) = error_display e"
  by (cases e) simp_all

section \<open>Commands\<close>

datatype cli_command =
    Activator activator_args
  | Build build_args
  | Deploy connection_args deploy_args
  | Seed connection_args "string option" "seed_type option" seed_command
  | Garden "string option" "string list" garden_command
  | Completions string

text \<open>
  What the program meets: its arguments, clap (\<open>en_parse\<close>, which gives an exit status when it ends the program itself), the
  parameters of the components, and how the terminal's styles change a text.
\<close>

record 'h setting =
  en_argv :: "string list"
  en_parse :: "string list \<Rightarrow> int + cli_command"
  en_process :: "'h process"
  en_site :: site
  en_polls :: nat
  en_surroundings :: surroundings
  en_garden :: garden_socket
  en_print :: "json \<Rightarrow> string"
  en_pid :: nat
  en_build_cli :: "string option"
  en_exec :: "string \<Rightarrow> string list \<Rightarrow> error"
  en_completions :: "string \<Rightarrow> string"
  en_style :: "string \<Rightarrow> string"
  en_dim :: "string \<Rightarrow> string"

record 'h host_state =
  hs_session :: "'h world session"
  hs_client :: client_run
  hs_streams :: streams
  hs_errors :: "string list"

definition on_client :: "unit result \<times> client_run \<Rightarrow> 'h host_state \<Rightarrow> int result \<times> 'h host_state" where
  "on_client rc h = (bind_r (fst rc) (\<lambda>_. Inr 0), h\<lparr>hs_client := snd rc\<rparr>)"

text \<open>\<open>run\<close> of \<open>main.rs\<close>, with the exit status of a command that ends well; \<open>None\<close> if a wait is not over after \<open>en_polls\<close> polls.\<close>

definition run_cli :: "'h setting \<Rightarrow> cli_command \<Rightarrow> 'h host_state \<Rightarrow> (int result \<times> 'h host_state) option" where
  "run_cli N cmd h =
     (case cmd of
        Activator A \<Rightarrow>
          (case activator_run (en_process N) A (hs_session h) of
             (r, s) \<Rightarrow> Some (bind_r r (\<lambda>_. Inr 0), h\<lparr>hs_session := s\<rparr>))
      | Build A \<Rightarrow> Some (bind_r (build_run (en_build_cli N) (en_exec N) A) (\<lambda>_. Inr 0), h)
      | Deploy connection A \<Rightarrow>
          map_option (\<lambda>rc. on_client rc h)
            (deploy_run (en_site N) (en_polls N)
               (bind_r (authenticated_client (en_surroundings N) connection) (\<lambda>_. Inr ()))
               (connection_endpoint (en_surroundings N) connection) A (hs_client h))
      | Seed connection name ty sub \<Rightarrow>
          Some (on_client (seed_run (en_site N) (bind_r (client (en_surroundings N) connection) (\<lambda>_. Inr ())) name ty sub
            (hs_client h)) h)
      | Garden socket config_files sub \<Rightarrow>
          (case garden_run (en_surroundings N) (en_garden N) (en_print N) (show_nat (en_pid N)) socket config_files sub (hs_streams h) of
             (r, s) \<Rightarrow> Some (r, h\<lparr>hs_streams := s\<rparr>))
      | Completions shell \<Rightarrow> Some (Inr 0, h\<lparr>hs_streams := snd (to_out (en_completions N shell) (hs_streams h))\<rparr>))"

definition sower_main :: "'h setting \<Rightarrow> 'h host_state \<Rightarrow> (int \<times> 'h host_state) option" where
  "sower_main N h =
     (case en_parse N (cli_args (en_argv N)) of
        Inl status \<Rightarrow> Some (status, h)
      | Inr cmd \<Rightarrow>
          (case run_cli N cmd h of
             None \<Rightarrow> None
           | Some (Inr status, h') \<Rightarrow> Some (status, h')
           | Some (Inl e, h') \<Rightarrow> Some (1, h'\<lparr>hs_errors := hs_errors h' @ ui_error (en_style N) (en_dim N) e\<rparr>)))"

section \<open>What a run of the program does\<close>

lemma created_seed_run:
  assumes "\<forall>a ts. sub \<noteq> Submit a ts" shows "idle created (seed_run E connected name ty sub)"
proof -
  have latest: "idle created (latest_seed E C)" "idle created (list_caches E)" for C
    unfolding latest_seed_def list_caches_def by (intro creations.idle_rules)+
  have activate: "idle created (SeedOps.activate E t p m)" for t p m
    unfolding SeedOps.activate_def set_profile_def by (cases t) (auto intro!: creations.idle_rules created_run_inherited)
  have reboot: "idle created (reboot_run E yes)" for yes
    unfolding reboot_run_def needs_reboot_def needs_reboot_at_def SeedOps.canonicalize_def
    by (intro creations.idle_rules created_run_inherited)
  show ?thesis
    using assms
    by (cases sub)
      (auto simp: seed_run_def start_runtime_def download_run_def info_run_def upgrade_run_def simp del: ret_Pair
        intro!: creations.idle_rules latest created_realize activate reboot)
qed

lemma deploy_connected:
  assumes "deploy_run E fuel connected endpoint A c = Some (r, c')" "created c' \<noteq> created c"
  shows "\<not> da_sudo A \<and> connected = Inr ()"
proof -
  have "idle created (deploy_sudo E endpoint A)"
    unfolding deploy_sudo_def Let_def by (intro creations.idle_rules created_prepare created_sudo_run)
  then have sudo: "\<not> da_sudo A"
    using assms by (auto simp: deploy_run_def idle_def split: sum.splits) (metis snd_conv)
  have "connected = Inr ()"
  proof (cases connected)
    case (Inl e)
    then show ?thesis
      using assms sudo by (cases "resolve_garden (da_to A) (da_flake A)") (auto simp: deploy_run_def seq_def split: sum.splits if_splits)
  qed simp
  then show ?thesis using sudo by simp
qed

lemma authenticated_header: "authenticated_client S A = Inr c \<Longrightarrow> \<exists>t. ac_authorization c = Some (''Bearer '' @ t)"
  by (auto simp: authenticated_client_def build_client_def build_api_def auth_header_def result_simps Let_def
      split: option.splits if_splits)

lemma run_cli_session:
  "run_cli N cmd h = Some (r, h') \<Longrightarrow> hs_session h' \<noteq> hs_session h \<Longrightarrow> \<exists>A. cmd = Activator A"
  by (cases cmd) (auto simp: run_cli_def on_client_def split: prod.splits)

lemma run_cli_errors: "run_cli N cmd h = Some (r, h') \<Longrightarrow> hs_errors h' = hs_errors h"
  by (cases cmd) (auto simp: run_cli_def on_client_def split: prod.splits)

lemma run_cli_created:
  assumes run: "run_cli N cmd h = Some (r, h')" and new: "created (hs_client h') \<noteq> created (hs_client h)"
  shows "(\<exists>connection A api t. cmd = Deploy connection A \<and> \<not> da_sudo A
      \<and> authenticated_client (en_surroundings N) connection = Inr api \<and> ac_authorization api = Some (''Bearer '' @ t))
    \<or> (\<exists>connection name ty artifact tags. cmd = Seed connection name ty (Submit artifact tags))"
proof (cases cmd)
  case (Deploy connection A)
  let ?connected = "bind_r (authenticated_client (en_surroundings N) connection) (\<lambda>_. Inr ())"
  obtain q c where "deploy_run (en_site N) (en_polls N) ?connected (connection_endpoint (en_surroundings N) connection) A
      (hs_client h) = Some (q, c)" "hs_client h' = c"
    using run Deploy by (auto simp: run_cli_def on_client_def)
  then have "\<not> da_sudo A" "?connected = Inr ()" using deploy_connected new by blast+
  then obtain api where "authenticated_client (en_surroundings N) connection = Inr api" "\<not> da_sudo A"
    by (auto simp: bind_r_eq_Inr)
  then show ?thesis using Deploy authenticated_header by blast
next
  case (Seed connection name ty sub)
  have "\<exists>a ts. sub = Submit a ts"
  proof (rule ccontr)
    assume "\<not> (\<exists>a ts. sub = Submit a ts)"
    then have "idle created (seed_run (en_site N) (bind_r (client (en_surroundings N) connection) (\<lambda>_. Inr ())) name ty sub)"
      by (intro created_seed_run) simp
    then show False using run new Seed by (auto simp: run_cli_def on_client_def idle_def)
  qed
  then show ?thesis using Seed by blast
qed (use run new in \<open>auto simp: run_cli_def split: prod.splits\<close>)


definition example_setting :: "string setting" where
  "example_setting = \<lparr>en_argv = [''/run/wrappers/bin/sower-activator''],
     en_parse = (\<lambda>ws. if ws = [''sower'', ''activator''] then Inr (Activator example_activator_args) else Inl 2),
     en_process = example_process, en_site = sample_site, en_polls = 1, en_surroundings = sample_surroundings,
     en_garden = \<lparr>gs_connect = (\<lambda>_. False), gs_timeout = True, gs_takes = (\<lambda>_. False), gs_replies = (\<lambda>_. [])\<rparr>,
     en_print = (\<lambda>_. []), en_pid = 7, en_build_cli = None, en_exec = (\<lambda>_ _. Msg ''os error''),
     en_completions = (\<lambda>_. []), en_style = id, en_dim = id\<rparr>"

definition example_host_state :: "string host_state" where
  "example_host_state = \<lparr>hs_session = example_session, hs_client = idle_run,
     hs_streams = \<lparr>st_out = \<lparr>te_out = [], te_room = None\<rparr>, st_err = \<lparr>te_out = [], te_room = None\<rparr>\<rparr>, hs_errors = []\<rparr>"


end
