(* ===== verification/GuestHost.thy ===== *)
theory GuestHost
  imports Effects Json Numbers
begin

text \<open>
  The command runner of a guest (\<open>src/guest/src/lib.rs\<close>), its bottom layer: what it asks of the kernel, the
  state of the process, and frames on the connection.  The kernel is a parameter: it answers the \<open>n\<close>-th
  question of a run.  A system call that the code repeats while it is interrupted by a
  signal has a nested answer, which says what the repetition meets; so it is interrupted
  finitely often.
\<close>

section \<open>The kernel\<close>

datatype guest_fd = Socket | Stdin | Stdout | Stderr

datatype read_answer = Got string | ReadIntr read_answer | ReadBlocks | ReadFails
datatype write_answer = Wrote nat | WriteIntr write_answer | WriteBlocks | WriteBroken | WriteFails
datatype wait_answer = Reaps int "32 word" | NoneYet | NoChild | WaitIntr wait_answer | WaitFails
datatype kill_answer = Signalled | NoProcess | KillFails
datatype children_answer = Children string | TaskGone | ChildrenFail
datatype poll_answer = Polled | PollIntr | PollFails

record guest_command =
  gc_path :: string
  gc_args :: "string list"
  gc_env :: "(string \<times> string) list"

text \<open>
  \<open>k_ticks\<close> is all that is said of time: how many comparisons of the clock with the deadline of a
  cleanup come before the first that finds it passed.
\<close>

record kernel =
  k_read :: "nat \<Rightarrow> guest_fd \<Rightarrow> nat \<Rightarrow> read_answer"
  k_write :: "nat \<Rightarrow> guest_fd \<Rightarrow> string \<Rightarrow> write_answer"
  k_wait :: "nat \<Rightarrow> int \<Rightarrow> wait_answer"
  k_kill :: "nat \<Rightarrow> int \<Rightarrow> kill_answer"
  k_tasks :: "nat \<Rightarrow> string result list result"
  k_children :: "nat \<Rightarrow> string \<Rightarrow> children_answer"
  k_ticks :: "nat \<Rightarrow> nat"
  k_spawn :: "nat \<Rightarrow> guest_command \<Rightarrow> int result"
  k_nonblocking :: "nat \<Rightarrow> guest_fd \<Rightarrow> bool"
  k_poll :: "nat \<Rightarrow> (guest_fd option \<times> nat) list \<Rightarrow> poll_answer"
  k_subreaper :: "nat \<Rightarrow> bool"
  k_lock :: "nat \<Rightarrow> bool"
  k_parse :: "string \<Rightarrow> json result"
  k_print :: "json \<Rightarrow> string"

section \<open>The process\<close>

datatype guest_event =
    Sent string
  | Received guest_fd string
  | Ended guest_fd
  | Fed string
  | SpawnedCommand int guest_command
  | Listed string
  | Killed int
  | Reaped int
  | AllGone

text \<open>
  \<open>gu_failed\<close> is the static \<open>FAILED\<close>, \<open>gu_version\<close> the protocol version of the request; \<open>gu_root\<close>,
  \<open>gu_status\<close> and \<open>gu_clean\<close> are the \<open>CommandTree\<close> of the connection's command.
\<close>

record guest =
  gu_step :: nat
  gu_events :: "guest_event list"
  gu_failed :: bool
  gu_version :: int
  gu_root :: int
  gu_status :: "32 word option"
  gu_clean :: bool

type_synonym 'a guest_act = "(guest, 'a) act"

definition g_ask :: "(nat \<Rightarrow> 'a) \<Rightarrow> 'a guest_act" where
  "g_ask f = (\<lambda>g. (Inr (f (gu_step g)), g\<lparr>gu_step := Suc (gu_step g)\<rparr>))"

definition g_note :: "guest_event \<Rightarrow> unit guest_act" where
  "g_note e = (\<lambda>g. (Inr (), g\<lparr>gu_events := gu_events g @ [e]\<rparr>))"

definition modify :: "('w \<Rightarrow> 'w) \<Rightarrow> ('w, unit) act" where
  "modify f = (\<lambda>w. (Inr (), f w))"

definition fail :: "string \<Rightarrow> ('w, 'a) act" where
  "fail msg = lift_r (Inl (Msg msg))"

lemma seq_g_ask [act_simps]: "seq (g_ask f) k g = k (f (gu_step g)) (g\<lparr>gu_step := Suc (gu_step g)\<rparr>)"
  by (simp add: seq_def g_ask_def)

lemma seq_g_note [act_simps]: "seq (g_note e) k g = k () (g\<lparr>gu_events := gu_events g @ [e]\<rparr>)"
  by (simp add: seq_def g_note_def)

lemma seq_modify [act_simps]: "seq (modify f) k g = k () (f g)"
  by (simp add: seq_def modify_def)

lemma modify_apply [simp]: "modify f g = (Inr (), f g)" by (simp add: modify_def)
lemma fail_apply [simp]: "fail msg g = (Inl (Msg msg), g)" by (simp add: fail_def)
lemma seq_fail [simp]: "seq (fail msg) k = fail msg" by (simp add: fun_eq_iff seq_def)

text \<open>The answer after the interruptions.\<close>

fun settle_read :: "read_answer \<Rightarrow> read_answer" where
  "settle_read (ReadIntr a) = settle_read a"
| "settle_read a = a"

fun settle_write :: "write_answer \<Rightarrow> write_answer" where
  "settle_write (WriteIntr a) = settle_write a"
| "settle_write a = a"

fun settle_wait :: "wait_answer \<Rightarrow> wait_answer" where
  "settle_wait (WaitIntr a) = settle_wait a"
| "settle_wait a = a"

section \<open>Bytes on the connection\<close>

definition MAX_FRAME :: nat where "MAX_FRAME = 65536"
definition CHUNK :: nat where "CHUNK = 8192"

text \<open>\<open>u32::to_be_bytes\<close> of a length cast to \<open>u32\<close>, and \<open>u32::from_be_bytes\<close>.\<close>

definition be32 :: "nat \<Rightarrow> string" where
  "be32 n = map (\<lambda>k. char_of (n div 256 ^ k)) [3, 2, 1, 0]"

definition of_be32 :: "string \<Rightarrow> nat" where
  "of_be32 s = foldl (\<lambda>a c. 256 * a + of_char c) 0 s"

lemma length_be32 [simp]: "length (be32 n) = 4" "be32 n \<noteq> []" by (simp_all add: be32_def)

lemma of_be32_be32: "n < 2 ^ 32 \<Longrightarrow> of_be32 (be32 n) = n"
proof -
  assume n: "n < 2 ^ 32"
  have digit: "(n div (m * 256)) * 256 + n div m mod 256 = n div m" for m
    by (simp add: div_mult2_eq)
  have "n div 256 ^ 3 < 256" using n by (simp add: less_mult_imp_div_less)
  then show ?thesis using digit [of "256 ^ 2"] digit [of 256] digit [of 1]
    by (simp add: of_be32_def be32_def of_char_of mult.commute)
qed

text \<open>\<open>Write::write_all\<close> and \<open>Read::read_exact\<close>; a read fills at most the buffer.\<close>

function send_all :: "kernel \<Rightarrow> string \<Rightarrow> unit guest_act" where
  "send_all K b =
     (if b = [] then ret ()
      else seq (g_ask (\<lambda>n. settle_write (k_write K n Socket b))) (\<lambda>a.
        case a of
          Wrote m \<Rightarrow>
            if m = 0 then fail ''failed to write whole buffer''
            else seq (g_note (Sent (take m b))) (\<lambda>_. send_all K (drop m b))
        | _ \<Rightarrow> fail ''os error''))"
  by pat_completeness auto
termination by (relation "measure (\<lambda>(_, b). length b)") auto

declare send_all.simps [simp del]

function read_full :: "kernel \<Rightarrow> nat \<Rightarrow> string guest_act" where
  "read_full K n =
     (if n = 0 then ret []
      else seq (g_ask (\<lambda>i. settle_read (k_read K i Socket n))) (\<lambda>a.
        case a of
          Got bytes \<Rightarrow>
            if bytes = [] then fail ''failed to fill whole buffer''
            else seq (read_full K (n - length (take n bytes))) (\<lambda>r. ret (take n bytes @ r))
        | _ \<Rightarrow> fail ''os error''))"
  by pat_completeness auto
termination by (relation "measure snd") auto

declare read_full.simps [simp del]

definition kind_byte :: "nat \<Rightarrow> char" where "kind_byte k = char_of k"

definition frame_bytes :: "nat \<Rightarrow> string \<Rightarrow> string" where
  "frame_bytes kind body = kind_byte kind # be32 (length body) @ body"

definition send_frame :: "kernel \<Rightarrow> nat \<Rightarrow> string \<Rightarrow> unit guest_act" where
  "send_frame K kind body =
     seq (check (length body \<le> MAX_FRAME) ''frame exceeds 65536 bytes'') (\<lambda>_.
     seq (send_all K [kind_byte kind]) (\<lambda>_.
     seq (send_all K (be32 (length body))) (\<lambda>_.
     send_all K body)))"

definition send_metadata :: "kernel \<Rightarrow> json \<Rightarrow> unit guest_act" where
  "send_metadata K v = send_frame K 1 (k_print K v)"

section \<open>The request\<close>

definition strings_of :: "string \<Rightarrow> json list \<Rightarrow> string list result" where
  "strings_of msg vs = collect_r (\<lambda>v. ok_or msg (as_str v)) vs"

definition decode_request :: "json \<Rightarrow> (guest_command \<times> json) result" where
  "decode_request r =
     bind_r (ensure (j_index r ''type'' = JStr ''execute'' \<and> (j_index r ''version'' = JNum 1 \<or> j_index r ''version'' = JNum 2))
       ''expected execute request version 1 or 2'') (\<lambda>_.
     bind_r (ok_or ''path must be a string'' (as_str (j_index r ''path''))) (\<lambda>path.
     bind_r (ensure (starts_with ''/'' path) ''path must be absolute'') (\<lambda>_.
     bind_r (ok_or ''args must be an array'' (as_array (j_index r ''args''))) (\<lambda>args.
     bind_r (ok_or ''env must be an object'' (as_object (j_index r ''env''))) (\<lambda>env.
     bind_r (ok_or ''stdin payload is required'' (j_get r ''stdin'')) (\<lambda>payload.
     bind_r (strings_of ''args must contain strings'' args) (\<lambda>args.
     bind_r (strings_of ''env values must be strings'' (map snd env)) (\<lambda>vals.
     Inr (\<lparr>gc_path = path, gc_args = args, gc_env = zip (map fst env) vals\<rparr>, payload)))))))))"

definition guest_request :: "kernel \<Rightarrow> (guest_command \<times> string) guest_act" where
  "guest_request K =
     seq (read_full K 5) (\<lambda>header.
     (let size = of_be32 (tl header) in
     seq (check (hd header = kind_byte 1 \<and> size \<le> MAX_FRAME) ''expected bounded execute metadata frame'') (\<lambda>_.
     seq (read_full K size) (\<lambda>body.
     seq (lift_r (k_parse K body)) (\<lambda>r.
     seq (modify (\<lambda>g. if j_index r ''version'' = JNum 1 then g\<lparr>gu_version := 1\<rparr> else g)) (\<lambda>_.
     seq (lift_r (decode_request r)) (\<lambda>(cmd, payload).
     ret (cmd, k_print K payload))))))))"

definition spawn :: "kernel \<Rightarrow> guest_command \<Rightarrow> unit guest_act" where
  "spawn K cmd =
     seq (g_ask (\<lambda>n. k_spawn K n cmd)) (\<lambda>r.
     seq (lift_r r) (\<lambda>pid.
     seq (g_note (SpawnedCommand pid cmd)) (\<lambda>_.
     modify (\<lambda>g. g\<lparr>gu_root := pid, gu_status := None, gu_clean := False\<rparr>))))"

end
