(* ===== verification/GuestTree.thy ===== *)
theory GuestTree
  imports GuestHost
begin

text \<open>
  \<open>CommandTree\<close> of \<open>src/guest/src/lib.rs\<close>: waiting for the command, and killing and reaping all it has left.
\<close>

unbundle bit_operations_syntax

section \<open>Exit statuses\<close>

text \<open>\<open>ExitStatus::code\<close> and \<open>ExitStatus::signal\<close> of a raw wait status.\<close>

definition exit_code :: "32 word \<Rightarrow> int option" where
  "exit_code st = (if st AND 127 = 0 then Some (uint (drop_bit 8 st AND 255)) else None)"

definition exit_signal :: "32 word \<Rightarrow> int option" where
  "exit_signal st = (let s = st AND 127 in if s = 0 \<or> s = 127 then None else Some (uint s))"

section \<open>Waiting and killing\<close>

definition wait_child :: "kernel \<Rightarrow> int \<Rightarrow> wait_answer guest_act" where
  "wait_child K pid =
     seq (g_ask (\<lambda>n. settle_wait (k_wait K n pid))) (\<lambda>a.
     case a of
       Reaps p st \<Rightarrow> seq (g_note (Reaped p)) (\<lambda>_. ret a)
     | _ \<Rightarrow> ret a)"

definition kill_child :: "kernel \<Rightarrow> int \<Rightarrow> unit guest_act" where
  "kill_child K pid =
     seq (g_note (Killed pid)) (\<lambda>_.
     seq (g_ask (\<lambda>n. k_kill K n pid)) (\<lambda>a.
     check (a \<noteq> KillFails) ''os error''))"

text \<open>The command itself: its status is asked for until it is known.\<close>

definition root_exited :: "kernel \<Rightarrow> bool guest_act" where
  "root_exited K =
     seq (gets gu_status) (\<lambda>st.
     if st \<noteq> None then ret True
     else
       seq (gets gu_root) (\<lambda>root.
       seq (wait_child K root) (\<lambda>a.
       case a of
         Reaps p st \<Rightarrow> seq (modify (\<lambda>g. g\<lparr>gu_status := Some st\<rparr>)) (\<lambda>_. ret True)
       | NoneYet \<Rightarrow> ret False
       | _ \<Rightarrow> fail ''os error'')))"

section \<open>Cleaning up\<close>

text \<open>\<open><i32 as FromStr>::from_str\<close>.\<close>

definition parse_i32 :: "string \<Rightarrow> int option" where
  "parse_i32 s =
     (case s of
        c # ds \<Rightarrow>
          if c = CHR ''-'' then
            (if ds = [] \<or> \<not> list_all is_digit ds \<or> nat_of_digits ds > 2 ^ 31 then None
             else Some (- int (nat_of_digits ds)))
          else map_option int (parse_uint (2 ^ 31) s)
      | [] \<Rightarrow> None)"

definition kill_word :: "kernel \<Rightarrow> string \<Rightarrow> unit guest_act" where
  "kill_word K w = seq (lift_r (ok_or ''invalid child PID'' (parse_i32 w))) (kill_child K)"

definition kill_task :: "kernel \<Rightarrow> string result \<Rightarrow> unit guest_act" where
  "kill_task K task =
     seq (lift_r task) (\<lambda>path.
     seq (g_ask (\<lambda>n. k_children K n path)) (\<lambda>a.
     case a of
       Children s \<Rightarrow> seq (g_note (Listed s)) (\<lambda>_. each (kill_word K) (split_whitespace s))
     | TaskGone \<Rightarrow> ret ()
     | ChildrenFail \<Rightarrow> fail ''os error''))"

definition kill_listed :: "kernel \<Rightarrow> unit guest_act" where
  "kill_listed K = seq (g_ask (k_tasks K)) (\<lambda>r. seq (lift_r r) (each (kill_task K)))"

definition timed_out :: "'a guest_act" where
  "timed_out = fail ''command descendants could not be killed and reaped''"

definition note_status :: "int \<Rightarrow> 32 word \<Rightarrow> unit guest_act" where
  "note_status p st = modify (\<lambda>g. if p = gu_root g then g\<lparr>gu_status := Some st\<rparr> else g)"

definition all_gone :: "unit guest_act" where
  "all_gone =
     seq (gets gu_status) (\<lambda>st.
     seq (check (st \<noteq> None) ''command exit status was lost'') (\<lambda>_.
     seq (g_note AllGone) (\<lambda>_.
     modify (\<lambda>g. g\<lparr>gu_clean := True\<rparr>))))"

text \<open>
  The two nested loops, with the comparisons of the clock that are left: with \<open>True\<close> the body of the
  outer loop begins, with \<open>False\<close> the inner one goes on.
\<close>

fun cleanup_loop :: "kernel \<Rightarrow> bool \<Rightarrow> nat \<Rightarrow> unit guest_act" where
  "cleanup_loop K outer 0 = seq (if outer then kill_listed K else ret ()) (\<lambda>_. timed_out)"
| "cleanup_loop K outer (Suc ticks) =
     seq (if outer then kill_listed K else ret ()) (\<lambda>_.
     seq (wait_child K (- 1)) (\<lambda>a.
     case a of
       Reaps p st \<Rightarrow> seq (note_status p st) (\<lambda>_. cleanup_loop K False ticks)
     | NoneYet \<Rightarrow> (case ticks of 0 \<Rightarrow> timed_out | Suc t \<Rightarrow> cleanup_loop K True t)
     | NoChild \<Rightarrow> all_gone
     | _ \<Rightarrow> fail ''os error''))"

definition cleanup_inner :: "kernel \<Rightarrow> unit guest_act" where
  "cleanup_inner K =
     seq (gets gu_clean) (\<lambda>clean.
     if clean then ret ()
     else
       seq (g_ask (k_ticks K)) (\<lambda>ticks.
       seq (gets gu_status) (\<lambda>st.
       seq (gets gu_root) (\<lambda>root.
       seq (if st = None then kill_child K (- root) else ret ()) (\<lambda>_.
       cleanup_loop K True ticks)))))"

definition tree_cleanup :: "kernel \<Rightarrow> unit guest_act" where
  "tree_cleanup K =
     seq (attempt (cleanup_inner K)) (\<lambda>r.
     seq (modify (\<lambda>g. if is_ok r then g else g\<lparr>gu_failed := True\<rparr>)) (\<lambda>_.
     lift_r r))"

end
