(* ===== verification/Guest.thy ===== *)
theory Guest
  imports GuestTree
begin

text \<open>
  The connection of \<open>src/guest/src/lib.rs\<close>: cancel requests, the output frame in flight, the loop of \<open>run\<close>,
  \<open>serve_connection\<close>, and the accept loop of \<open>main.rs\<close>.
\<close>

section \<open>Cancel requests\<close>

text \<open>
  \<open>co_header\<close> and \<open>co_body\<close> are the filled parts of the two buffers, \<open>co_size\<close> the length of the body.
\<close>

record control =
  co_header :: string
  co_body :: string
  co_size :: nat

definition new_control :: control where
  "new_control = \<lparr>co_header = [], co_body = [], co_size = 0\<rparr>"

datatype control_event = Pending | Cancel | Disconnected

definition accept_cancel :: "kernel \<Rightarrow> int \<Rightarrow> string \<Rightarrow> unit result" where
  "accept_cancel K version body =
     bind_r (k_parse K body) (\<lambda>v.
     ensure (version = 2 \<and> j_index v ''type'' = JStr ''cancel'' \<and> j_index v ''version'' = JNum 2)
       ''expected cancel request version 2'')"

definition control_room :: "control \<Rightarrow> nat" where
  "control_room c = (if length (co_header c) < 5 then 5 - length (co_header c) else co_size c - length (co_body c))"

definition control_need :: "control \<Rightarrow> nat" where
  "control_need c = (if length (co_header c) < 5 then 5 - length (co_header c) + (MAX_FRAME + 1)
     else co_size c - length (co_body c))"

function control_read :: "kernel \<Rightarrow> int \<Rightarrow> control \<Rightarrow> (control_event \<times> control) guest_act" where
  "control_read K version c =
     seq (g_ask (\<lambda>n. settle_read (k_read K n Socket (control_room c)))) (\<lambda>a.
     case a of
       Got bytes \<Rightarrow>
         (let b = take (control_room c) bytes in
          if b = [] then ret (Disconnected, c)
          else
            seq (g_note (Received Socket b)) (\<lambda>_.
            if length (co_header c) < 5 then
              (let h = co_header c @ b; size = of_be32 (tl h) in
               if length h < 5 then control_read K version (c\<lparr>co_header := h\<rparr>)
               else if hd h \<noteq> kind_byte 1 \<or> size = 0 \<or> size > MAX_FRAME then fail ''expected bounded cancel metadata frame''
               else control_read K version (c\<lparr>co_header := h, co_size := size\<rparr>))
            else
              (let body = co_body c @ b in
               if length body < co_size c then control_read K version (c\<lparr>co_body := body\<rparr>)
               else seq (lift_r (accept_cancel K version body)) (\<lambda>_. ret (Cancel, c\<lparr>co_header := [], co_body := []\<rparr>)))))
     | ReadBlocks \<Rightarrow> ret (Pending, c)
     | _ \<Rightarrow> fail ''os error'')"
  by pat_completeness auto
termination
  by (relation "measure (\<lambda>(_, _, c). control_need c)")
    (auto simp: control_need_def control_room_def simp flip: length_greater_0_conv split: if_splits)

declare control_read.simps [simp del]

section \<open>The frame in flight\<close>

text \<open>\<open>ou_bytes\<close> is the used part of the buffer; it is empty when there is no frame.\<close>

record outgoing =
  ou_bytes :: string
  ou_sent :: nat

definition new_output :: outgoing where
  "new_output = \<lparr>ou_bytes = [], ou_sent = 0\<rparr>"

definition out_empty :: "outgoing \<Rightarrow> bool" where
  "out_empty out \<longleftrightarrow> ou_bytes out = []"

definition out_pipe :: "kernel \<Rightarrow> guest_fd \<Rightarrow> nat \<Rightarrow> bool \<times> outgoing \<Rightarrow> (bool \<times> outgoing) guest_act" where
  "out_pipe K fd kind = (\<lambda>(open, out).
     if \<not> out_empty out \<or> \<not> open then ret (open, out)
     else
       seq (g_ask (\<lambda>n. k_read K n fd CHUNK)) (\<lambda>a.
       case a of
         Got bytes \<Rightarrow>
           (let b = take CHUNK bytes in
            if b = [] then seq (g_note (Ended fd)) (\<lambda>_. ret (False, out))
            else seq (g_note (Received fd b)) (\<lambda>_. ret (open, out\<lparr>ou_bytes := frame_bytes kind b\<rparr>)))
       | ReadFails \<Rightarrow> fail ''os error''
       | _ \<Rightarrow> ret (open, out)))"

function out_flush :: "kernel \<Rightarrow> outgoing \<Rightarrow> outgoing guest_act" where
  "out_flush K out =
     (if ou_sent out < length (ou_bytes out) then
        (let rest = drop (ou_sent out) (ou_bytes out) in
        seq (g_ask (\<lambda>n. settle_write (k_write K n Socket rest))) (\<lambda>a.
        case a of
          Wrote m \<Rightarrow>
            if m = 0 then fail ''write zero''
            else seq (g_note (Sent (take m rest))) (\<lambda>_. out_flush K (out\<lparr>ou_sent := ou_sent out + length (take m rest)\<rparr>))
        | WriteBlocks \<Rightarrow> ret out
        | _ \<Rightarrow> fail ''os error''))
      else ret (out\<lparr>ou_bytes := [], ou_sent := 0\<rparr>))"
  by pat_completeness auto
termination
  by (relation "measure (\<lambda>(_, out). length (ou_bytes out) - ou_sent out)") auto

declare out_flush.simps [simp del]

definition json_option :: "int option \<Rightarrow> json" where
  "json_option v = (case v of None \<Rightarrow> JNull | Some i \<Rightarrow> JNum i)"

definition exited_json :: "int \<Rightarrow> 32 word \<Rightarrow> json" where
  "exited_json version st =
     JObj [(''type'', JStr ''exited''), (''version'', JNum version), (''code'', json_option (exit_code st)),
       (''signal'', json_option (exit_signal st))]"

definition out_exited :: "kernel \<Rightarrow> int \<Rightarrow> 32 word \<Rightarrow> outgoing \<Rightarrow> outgoing guest_act" where
  "out_exited K version st out =
     (let body = k_print K (exited_json version st) in
      seq (check (length body \<le> CHUNK) ''failed to write whole buffer'') (\<lambda>_.
      ret (out\<lparr>ou_bytes := frame_bytes 1 body\<rparr>)))"

section \<open>The loop\<close>

record guest_session =
  se_stdin :: bool
  se_stdout :: bool
  se_stderr :: bool
  se_input_sent :: nat
  se_control :: control
  se_output :: outgoing
  se_stderr_first :: bool
  se_terminal :: bool

definition new_session :: guest_session where
  "new_session = \<lparr>se_stdin = True, se_stdout = True, se_stderr = True, se_input_sent = 0, se_control = new_control,
     se_output = new_output, se_stderr_first = False, se_terminal = False\<rparr>"

datatype progress = Stop | Go guest_session

definition on_control :: "kernel \<Rightarrow> control_event \<Rightarrow> guest_session \<Rightarrow> guest_session guest_act" where
  "on_control K ev s =
     (case ev of
        Cancel \<Rightarrow> seq (tree_cleanup K) (\<lambda>_. ret (s\<lparr>se_stdin := False\<rparr>))
      | _ \<Rightarrow> ret s)"

definition on_exit :: "kernel \<Rightarrow> guest_session \<Rightarrow> guest_session guest_act" where
  "on_exit K s =
     seq (gets gu_clean) (\<lambda>clean.
     if clean then ret s
     else
       seq (root_exited K) (\<lambda>exited.
       if exited then seq (tree_cleanup K) (\<lambda>_. ret (s\<lparr>se_stdin := False\<rparr>)) else ret s))"

definition feed_stdin :: "kernel \<Rightarrow> string \<Rightarrow> guest_session \<Rightarrow> guest_session guest_act" where
  "feed_stdin K input s =
     (if \<not> se_stdin s then ret s
      else
        (let rest = drop (se_input_sent s) input in
        seq (g_ask (\<lambda>n. k_write K n Stdin rest)) (\<lambda>a.
        case a of
          Wrote m \<Rightarrow>
            seq (g_note (Fed (take m rest))) (\<lambda>_.
            (let sent = se_input_sent s + length (take m rest) in
             ret (s\<lparr>se_input_sent := sent, se_stdin := sent \<noteq> length input\<rparr>)))
        | WriteBroken \<Rightarrow> ret (s\<lparr>se_stdin := False\<rparr>)
        | WriteFails \<Rightarrow> fail ''os error''
        | _ \<Rightarrow> ret s)))"

definition read_both :: "kernel \<Rightarrow> guest_session \<Rightarrow> guest_session guest_act" where
  "read_both K s =
     (if se_stderr_first s then
        seq (out_pipe K Stderr 3 (se_stderr s, se_output s)) (\<lambda>(e, out).
        seq (out_pipe K Stdout 2 (se_stdout s, out)) (\<lambda>(o', out).
        ret (s\<lparr>se_stdout := o', se_stderr := e, se_output := out\<rparr>)))
      else
        seq (out_pipe K Stdout 2 (se_stdout s, se_output s)) (\<lambda>(o', out).
        seq (out_pipe K Stderr 3 (se_stderr s, out)) (\<lambda>(e, out).
        ret (s\<lparr>se_stdout := o', se_stderr := e, se_output := out\<rparr>))))"

definition finish_output :: "kernel \<Rightarrow> int \<Rightarrow> guest_session \<Rightarrow> guest_session guest_act" where
  "finish_output K version s =
     seq (gets gu_clean) (\<lambda>clean.
     if clean \<and> \<not> se_stdout s \<and> \<not> se_stderr s \<and> out_empty (se_output s) then
       seq (gets gu_status) (\<lambda>st.
       seq (out_exited K version (the st) (se_output s)) (\<lambda>out.
       ret (s\<lparr>se_output := out, se_terminal := True\<rparr>)))
     else ret s)"

definition read_pipes :: "kernel \<Rightarrow> int \<Rightarrow> guest_session \<Rightarrow> guest_session guest_act" where
  "read_pipes K version s =
     (if se_terminal s \<or> \<not> out_empty (se_output s) then ret s
      else
        seq (read_both K s) (\<lambda>s.
        finish_output K version (s\<lparr>se_stderr_first := \<not> se_stderr_first s\<rparr>)))"

definition POLLIN :: nat where "POLLIN = 1"
definition POLLOUT :: nat where "POLLOUT = 4"

definition descriptors :: "guest_session \<Rightarrow> (guest_fd option \<times> nat) list" where
  "descriptors s =
     [(Some Socket, if out_empty (se_output s) then POLLIN else POLLIN + POLLOUT),
      (if se_stdin s then Some Stdin else None, POLLOUT),
      (if out_empty (se_output s) \<and> se_stdout s then Some Stdout else None, POLLIN),
      (if out_empty (se_output s) \<and> se_stderr s then Some Stderr else None, POLLIN)]"

definition poll_wait :: "kernel \<Rightarrow> guest_session \<Rightarrow> progress guest_act" where
  "poll_wait K s =
     seq (g_ask (\<lambda>n. k_poll K n (descriptors s))) (\<lambda>a.
     seq (check (a \<noteq> PollFails) ''os error'') (\<lambda>_. ret (Go s)))"

definition run_step :: "kernel \<Rightarrow> int \<Rightarrow> string \<Rightarrow> guest_session \<Rightarrow> progress guest_act" where
  "run_step K version input s =
     seq (control_read K version (se_control s)) (\<lambda>(ev, c).
     if ev = Disconnected then ret Stop
     else
       seq (on_control K ev (s\<lparr>se_control := c\<rparr>)) (\<lambda>s.
       seq (on_exit K s) (\<lambda>s.
       seq (out_flush K (se_output s)) (\<lambda>out.
       if se_terminal s \<and> out_empty out then ret Stop
       else
         seq (feed_stdin K input (s\<lparr>se_output := out\<rparr>)) (\<lambda>s.
         seq (read_pipes K version s) (\<lambda>s.
         poll_wait K s))))))"

text \<open>
  The loop may run for ever: the peer may keep the connection and the command its pipes.  With fuel
  \<open>n\<close> it is \<open>None\<close> if it has not returned after \<open>n\<close> rounds.
\<close>

fun run_loop :: "kernel \<Rightarrow> int \<Rightarrow> string \<Rightarrow> nat \<Rightarrow> guest_session \<Rightarrow> guest \<Rightarrow> (unit result \<times> guest) option" where
  "run_loop K version input 0 s g = None"
| "run_loop K version input (Suc n) s g =
     (case run_step K version input s g of
        (Inl e, g') \<Rightarrow> Some (Inl e, g')
      | (Inr Stop, g') \<Rightarrow> Some (Inr (), g')
      | (Inr (Go s'), g') \<Rightarrow> run_loop K version input n s' g')"

definition nonblocking :: "kernel \<Rightarrow> guest_fd \<Rightarrow> unit guest_act" where
  "nonblocking K fd = seq (g_ask (\<lambda>n. k_nonblocking K n fd)) (\<lambda>done. check done ''os error'')"

definition run_command :: "kernel \<Rightarrow> int \<Rightarrow> string \<Rightarrow> nat \<Rightarrow> guest \<Rightarrow> (unit result \<times> guest) option" where
  "run_command K version input n g =
     (case each (nonblocking K) [Socket, Stdin, Stdout, Stderr] g of
        (Inl e, g') \<Rightarrow> Some (Inl e, g')
      | (Inr _, g') \<Rightarrow> run_loop K version input n new_session g')"

section \<open>One connection\<close>

text \<open>Whether the connection goes on to a request; without the ready frame it is over.\<close>

definition ready_json :: json where
  "ready_json = JObj [(''type'', JStr ''ready''), (''version'', JNum 1), (''contract'', JNum 2)]"

definition open_connection :: "kernel \<Rightarrow> bool guest_act" where
  "open_connection K =
     seq (g_ask (k_lock K)) (\<lambda>free.
     seq (check free ''guest runtime lock poisoned'') (\<lambda>_.
     seq (gets gu_failed) (\<lambda>failed.
     seq (check (\<not> failed) ''guest runtime cleanup previously failed'') (\<lambda>_.
     seq (g_ask (k_subreaper K)) (\<lambda>adopted.
     seq (modify (\<lambda>g. if adopted then g else g\<lparr>gu_failed := True\<rparr>)) (\<lambda>_.
     seq (check adopted ''os error'') (\<lambda>_.
     seq (attempt (send_metadata K ready_json)) (\<lambda>r.
     ret (is_ok r)))))))))"

definition start_command :: "kernel \<Rightarrow> string guest_act" where
  "start_command K = seq (guest_request K) (\<lambda>(cmd, input). seq (spawn K cmd) (\<lambda>_. ret input))"

definition execute :: "kernel \<Rightarrow> nat \<Rightarrow> guest \<Rightarrow> (unit result \<times> guest) option" where
  "execute K n g =
     (case start_command K g of
        (Inl e, g') \<Rightarrow> Some (Inl e, g')
      | (Inr input, g') \<Rightarrow>
          map_option (\<lambda>(r, g''). if gu_failed g'' then (r, g'') else tree_cleanup K g'')
            (run_command K (gu_version g') input n g'))"

text \<open>\<open>chars().take(n)\<close> on UTF-8: a character is a byte and the continuation bytes after it.\<close>

definition continuation :: "char \<Rightarrow> bool" where
  "continuation c \<longleftrightarrow> 128 \<le> (of_char c :: nat) \<and> (of_char c :: nat) < 192"

fun take_chars :: "nat \<Rightarrow> string \<Rightarrow> string" where
  "take_chars n [] = []"
| "take_chars n (c # s) =
     (if continuation c then c # take_chars n s
      else case n of 0 \<Rightarrow> [] | Suc k \<Rightarrow> c # take_chars k s)"

definition error_json :: "int \<Rightarrow> error \<Rightarrow> json" where
  "error_json version e =
     JObj [(''type'', JStr ''error''), (''version'', JNum version), (''message'', JStr (take_chars 4096 (error_display e)))]"

definition conclude :: "kernel \<Rightarrow> unit result \<Rightarrow> unit guest_act" where
  "conclude K r = (\<lambda>g.
     if gu_failed g then (r, g)
     else case r of
       Inl e \<Rightarrow> (Inr (), snd (send_metadata K (error_json (gu_version g) e) g))
     | Inr _ \<Rightarrow> (Inr (), g))"

definition serve_connection :: "kernel \<Rightarrow> nat \<Rightarrow> guest \<Rightarrow> (unit result \<times> guest) option" where
  "serve_connection K n g =
     (case open_connection K g of
        (Inl e, g') \<Rightarrow> Some (Inl e, g')
      | (Inr False, g') \<Rightarrow> Some (Inr (), g')
      | (Inr True, g') \<Rightarrow>
          map_option (\<lambda>(r, g''). conclude K r g'') (execute K n (g'\<lparr>gu_version := 2\<rparr>)))"

section \<open>The listening socket and the accept loop\<close>

datatype runtime = Accepting guest | Exited guest

text \<open>
  Linux's \<open>sockaddr_vm\<close>.  \<open>AF_VSOCK\<close> is 40; the port is 5000 and the context id \<open>u32::MAX\<close>, which stands for any.
  Creating, binding and listening are answers of the kernel.
\<close>

record vsock_address =
  va_family :: "16 word"
  va_reserved :: "16 word"
  va_port :: "32 word"
  va_cid :: "32 word"
  va_flags :: "8 word"
  va_zero :: "8 word list"

definition guest_address :: vsock_address where
  "guest_address = \<lparr>va_family = 40, va_reserved = 0, va_port = 5000, va_cid = - 1, va_flags = 0, va_zero = [0, 0, 0]\<rparr>"

definition guest_boot :: "unit result \<Rightarrow> (vsock_address \<Rightarrow> unit result) \<Rightarrow> (nat \<Rightarrow> unit result) \<Rightarrow> guest \<Rightarrow> unit result \<times> runtime" where
  "guest_boot created bind listen g =
     (case bind_r created (\<lambda>_. bind_r (bind guest_address) (\<lambda>_. listen 1)) of
        Inl e \<Rightarrow> (Inl e, Exited g)
      | Inr _ \<Rightarrow> (Inr (), Accepting g))"

inductive guest_step :: "kernel \<Rightarrow> runtime \<Rightarrow> runtime \<Rightarrow> bool" for K where
  not_accepted: "guest_step K (Accepting g) (Accepting g)"
| accept_error: "guest_step K (Accepting g) (Exited g)"
| connection_over: "serve_connection K n g = Some (Inr (), g') \<Longrightarrow> guest_step K (Accepting g) (Accepting g')"
| connection_fatal: "serve_connection K n g = Some (Inl e, g') \<Longrightarrow> guest_step K (Accepting g) (Exited g')"

inductive_cases accepting_step: "guest_step K (Accepting g) rt"
inductive_simps exited_step: "guest_step K (Exited g) rt"

inductive guest_reaches :: "kernel \<Rightarrow> guest \<Rightarrow> runtime \<Rightarrow> bool" for K g where
  at_start: "guest_reaches K g (Accepting g)"
| one_more: "guest_reaches K g rt \<Longrightarrow> guest_step K rt rt' \<Longrightarrow> guest_reaches K g rt'"

definition booted :: guest where
  "booted = \<lparr>gu_step = 0, gu_events = [], gu_failed = False, gu_version = 2, gu_root = 0, gu_status = None, gu_clean = True\<rparr>"

end
