(* ===== verification/GuestTrace.thy ===== *)
theory GuestTrace
  imports Guest
begin

text \<open>
  What the actions of the guest add to its events.  A monitor reads the events and refuses a forbidden
  one; two of them state that commands never overlap and that signals only go to processes that
  cannot have been replaced.
\<close>

section \<open>Steps of the guest\<close>

definition emits :: "guest_event set \<Rightarrow> guest \<Rightarrow> guest \<Rightarrow> bool" where
  "emits A g g' \<longleftrightarrow> gu_step g \<le> gu_step g' \<and> (\<exists>new. gu_events g' = gu_events g @ new \<and> set new \<subseteq> A)"

definition same_tree :: "guest \<Rightarrow> guest \<Rightarrow> bool" where
  "same_tree g g' \<longleftrightarrow> gu_root g' = gu_root g \<and> gu_status g' = gu_status g \<and> gu_clean g' = gu_clean g \<and> gu_failed g' = gu_failed g"

definition discreet :: "guest_event set \<Rightarrow> guest \<Rightarrow> guest \<Rightarrow> bool" where
  "discreet A g g' \<longleftrightarrow> emits A g g' \<and> same_tree g g'"

lemma emits_refl: "emits A g g" by (simp add: emits_def)

lemma emits_trans: "emits A g h \<Longrightarrow> emits A h k \<Longrightarrow> emits A g k"
  by (fastforce simp: emits_def)

interpretation emits: step_preorder "emits A" for A
  by unfold_locales (blast intro: emits_refl emits_trans)+

interpretation discreet: step_preorder "discreet A" for A
  by unfold_locales (auto simp: discreet_def same_tree_def emits_refl intro: emits_trans)

lemma moves_mono: "moves R m \<Longrightarrow> (\<And>g h. R g h \<Longrightarrow> S g h) \<Longrightarrow> moves S m"
  by (simp add: moves_def)

lemma quiet_emits: "moves (discreet A) m \<Longrightarrow> moves (emits A) m"
  by (erule moves_mono) (simp add: discreet_def)

lemma emits_mono: "emits A g h \<Longrightarrow> A \<subseteq> B \<Longrightarrow> emits B g h"
  unfolding emits_def by blast

lemma quiet_mono: "moves (discreet A) m \<Longrightarrow> A \<subseteq> B \<Longrightarrow> moves (discreet B) m"
  by (erule moves_mono) (auto simp: discreet_def intro: emits_mono)

lemma quiet_ask: "moves (discreet A) (g_ask f)"
  by (simp add: moves_def g_ask_def discreet_def emits_def same_tree_def)

lemma quiet_note: "e \<in> A \<Longrightarrow> moves (discreet A) (g_note e)"
  by (simp add: moves_def g_note_def discreet_def emits_def same_tree_def)

lemma emits_modify: "(\<And>g. gu_events (f g) = gu_events g \<and> gu_step (f g) = gu_step g) \<Longrightarrow> moves (emits A) (modify f)"
  by (simp add: moves_def emits_def)

lemma quiet_modify: "(\<And>g. discreet A g (f g)) \<Longrightarrow> moves (discreet A) (modify f)"
  by (simp add: moves_def)

lemmas emits_ask = quiet_emits [OF quiet_ask]
lemmas emits_note = quiet_emits [OF quiet_note]

text \<open>Case distinctions on the answers of the kernel.\<close>

lemma moves_fail: "(\<And>g. R g g) \<Longrightarrow> moves R (fail msg)" by (simp add: moves_def)

lemma moves_pair: "(\<And>a b. moves R (f a b)) \<Longrightarrow> moves R (case p of (a, b) \<Rightarrow> f a b)" by (cases p) simp

lemma moves_let: "(\<And>x. moves R (f x)) \<Longrightarrow> moves R (Let t f)" by simp

lemma moves_read:
  "(\<And>b. moves R (f b)) \<Longrightarrow> (\<And>b. moves R (i b)) \<Longrightarrow> moves R w \<Longrightarrow> moves R x \<Longrightarrow>
     moves R (case a of Got b \<Rightarrow> f b | ReadIntr b \<Rightarrow> i b | ReadBlocks \<Rightarrow> w | ReadFails \<Rightarrow> x)"
  by (cases a) simp_all

lemma moves_write:
  "(\<And>b. moves R (f b)) \<Longrightarrow> (\<And>b. moves R (i b)) \<Longrightarrow> moves R w \<Longrightarrow> moves R p \<Longrightarrow> moves R x \<Longrightarrow>
     moves R (case a of Wrote b \<Rightarrow> f b | WriteIntr b \<Rightarrow> i b | WriteBlocks \<Rightarrow> w | WriteBroken \<Rightarrow> p | WriteFails \<Rightarrow> x)"
  by (cases a) simp_all

lemma moves_wait:
  "(\<And>p s. moves R (f p s)) \<Longrightarrow> moves R n \<Longrightarrow> moves R c \<Longrightarrow> (\<And>b. moves R (i b)) \<Longrightarrow> moves R x \<Longrightarrow>
     moves R (case a of Reaps p s \<Rightarrow> f p s | NoneYet \<Rightarrow> n | NoChild \<Rightarrow> c | WaitIntr b \<Rightarrow> i b | WaitFails \<Rightarrow> x)"
  by (cases a) simp_all

lemma moves_children:
  "(\<And>s. moves R (f s)) \<Longrightarrow> moves R n \<Longrightarrow> moves R x \<Longrightarrow> moves R (case a of Children s \<Rightarrow> f s | TaskGone \<Rightarrow> n | ChildrenFail \<Rightarrow> x)"
  by (cases a) simp_all

lemma moves_control:
  "moves R p \<Longrightarrow> moves R c \<Longrightarrow> moves R d \<Longrightarrow> moves R (case e of Pending \<Rightarrow> p | Cancel \<Rightarrow> c | Disconnected \<Rightarrow> d)"
  by (cases e) simp_all

lemma moves_nat: "moves R z \<Longrightarrow> (\<And>k. n = Suc k \<Longrightarrow> moves R (f k)) \<Longrightarrow> moves R (case n of 0 \<Rightarrow> z | Suc k \<Rightarrow> f k)"
  by (cases n) simp_all

lemmas case_moves = moves_pair moves_let moves_read moves_write moves_wait moves_children moves_control moves_nat

lemmas quiet_moves = discreet.moves_rules moves_fail [where R = "discreet A" for A, OF discreet.step_refl] quiet_ask quiet_note case_moves
lemmas emits_rules = emits.moves_rules moves_fail [where R = "emits A" for A, OF emits.step_refl] emits_ask emits_note case_moves

subsection \<open>Reading and writing\<close>

definition sends :: "guest_event set" where "sends = range Sent"

definition receives :: "guest_fd \<Rightarrow> guest_event set" where
  "receives fd = insert (Ended fd) (range (Received fd))"

lemma io_events [simp]: "Sent b \<in> sends" "Received fd b \<in> receives fd" "Ended fd \<in> receives fd"
  by (simp_all add: sends_def receives_def)

lemma send_all_quiet: "moves (discreet sends) (send_all K b)"
proof (induction K b rule: send_all.induct)
  case (1 K b)
  show ?case by (subst send_all.simps, intro quiet_moves 1) simp_all
qed

lemma read_full_quiet: "moves (discreet {}) (read_full K n)"
proof (induction K n rule: read_full.induct)
  case (1 K n)
  show ?case by (subst read_full.simps, intro quiet_moves 1) simp_all
qed

lemma metadata_quiet: "moves (discreet sends) (send_metadata K v)"
  unfolding send_metadata_def send_frame_def by (intro quiet_moves send_all_quiet)

lemma read_request_quiet: "moves (discreet {}) (guest_request K)"
  unfolding guest_request_def
  by (intro quiet_moves read_full_quiet quiet_modify) (simp add: discreet_def emits_def same_tree_def)

lemma control_read_quiet: "moves (discreet (receives Socket)) (control_read K v c)"
proof (induction c rule: measure_induct_rule [of control_need])
  case (less c)
  show ?case
    by (subst control_read.simps, unfold Let_def, intro quiet_moves less)
      (auto simp: control_need_def control_room_def not_less simp flip: length_greater_0_conv split: if_splits)
qed

lemma out_flush_quiet: "moves (discreet sends) (out_flush K out)"
proof (induction K out rule: out_flush.induct)
  case (1 K out)
  show ?case by (subst out_flush.simps, unfold Let_def, intro quiet_moves 1) simp_all
qed

lemma out_pipe_quiet: "moves (discreet (receives fd)) (out_pipe K fd k p)"
  unfolding out_pipe_def by (intro quiet_moves) (auto intro!: quiet_moves)

lemma feed_stdin_quiet: "moves (discreet (range Fed)) (feed_stdin K input s)"
  unfolding feed_stdin_def by (intro quiet_moves) simp_all

definition pipes :: "guest_event set" where "pipes = receives Stdout \<union> receives Stderr"

lemma read_both_quiet: "moves (discreet pipes) (read_both K s)"
  unfolding read_both_def
  by (intro quiet_moves quiet_mono [OF out_pipe_quiet]) (auto simp: pipes_def)

lemma finish_output_quiet: "moves (discreet A) (finish_output K v s)"
  unfolding finish_output_def out_exited_def by (intro quiet_moves)

lemma read_pipes_quiet: "moves (discreet pipes) (read_pipes K v s)"
  unfolding read_pipes_def by (intro quiet_moves read_both_quiet finish_output_quiet)

lemma poll_wait_quiet: "moves (discreet A) (poll_wait K s)"
  unfolding poll_wait_def by (intro quiet_moves)

lemma nonblocking_quiet: "moves (discreet A) (nonblocking K fd)"
  unfolding nonblocking_def by (intro quiet_moves)

subsection \<open>The tree\<close>

definition signs :: "guest_event set" where
  "signs = range Listed \<union> range Killed \<union> range Reaped"

lemma signs_events [simp]: "Listed s \<in> signs" "Killed p \<in> signs" "Reaped p \<in> signs"
  by (auto simp: signs_def)

lemma wait_child_quiet: "moves (discreet signs) (wait_child K p)"
  unfolding wait_child_def by (intro quiet_moves) simp_all

lemma kill_child_quiet: "moves (discreet signs) (kill_child K p)"
  unfolding kill_child_def by (intro quiet_moves) simp_all

lemma kill_listed_quiet: "moves (discreet signs) (kill_listed K)"
  unfolding kill_listed_def kill_task_def kill_word_def
  by (intro quiet_moves kill_child_quiet) simp_all

lemma cleanup_loop_emits: "moves (emits (insert AllGone signs)) (cleanup_loop K outer n)"
proof (induction K outer n rule: cleanup_loop.induct)
  case (1 K outer)
  then show ?case unfolding cleanup_loop.simps timed_out_def
    by (intro emits_rules quiet_emits quiet_mono [OF kill_listed_quiet]) auto
next
  case (2 K outer n)
  show ?case unfolding cleanup_loop.simps timed_out_def all_gone_def note_status_def
    by (intro emits_rules quiet_emits quiet_mono [OF kill_listed_quiet] quiet_mono [OF wait_child_quiet] emits_modify 2) auto
qed

lemma tree_cleanup_emits: "moves (emits (insert AllGone signs)) (tree_cleanup K)"
  unfolding tree_cleanup_def cleanup_inner_def
  by (intro emits_rules cleanup_loop_emits quiet_emits quiet_mono [OF kill_child_quiet] emits_modify) auto

lemma root_exited_emits: "moves (emits signs) (root_exited K)"
  unfolding root_exited_def by (intro emits_rules quiet_emits [OF wait_child_quiet] emits_modify) auto

end
