(* ===== verification/GuestSample.thy ===== *)
theory GuestSample
  imports Guest
begin

text \<open>
  An example of a kernel and the whole run of one connection on it: a command that writes two bytes and
  leaves two processes behind.
\<close>

section \<open>The kernel\<close>

definition sample_request :: json where
  "sample_request = JObj [(''type'', JStr ''execute''), (''version'', JNum 2), (''path'', JStr ''/bin/sh''), (''args'', JArr []),
     (''env'', JObj []), (''stdin'', JNull)]"

definition sample_kernel :: kernel where
  "sample_kernel = \<lparr>
     k_read = (\<lambda>n fd room. case fd of
        Socket \<Rightarrow> if n = 5 then Got (kind_byte 1 # be32 1) else if n = 6 then Got ''x'' else ReadBlocks
      | Stdout \<Rightarrow> if n = 22 then Got ''hi'' else Got []
      | _ \<Rightarrow> Got []),
     k_write = (\<lambda>n fd b. Wrote (length b)),
     k_wait = (\<lambda>n p. if p = 7 then Reaps 7 0 else if n = 19 then Reaps 12 9 else if n = 20 then Reaps 13 9 else NoChild),
     k_kill = (\<lambda>n p. Signalled),
     k_tasks = (\<lambda>n. Inr [Inr ''1'']),
     k_children = (\<lambda>n t. Children ''12 13''),
     k_ticks = (\<lambda>n. 5),
     k_spawn = (\<lambda>n cmd. Inr 7),
     k_nonblocking = (\<lambda>n fd. True),
     k_poll = (\<lambda>n fds. Polled),
     k_subreaper = (\<lambda>n. True),
     k_lock = (\<lambda>n. True),
     k_parse = (\<lambda>s. Inr sample_request),
     k_print = (\<lambda>j. ''r'')\<rparr>"

section \<open>The run\<close>

lemma sample_answers [simp]:
  "k_read sample_kernel n fd room = (case fd of
        Socket \<Rightarrow> if n = 5 then Got (kind_byte 1 # be32 1) else if n = 6 then Got ''x'' else ReadBlocks
      | Stdout \<Rightarrow> if n = 22 then Got ''hi'' else Got []
      | _ \<Rightarrow> Got [])"
  "k_write sample_kernel n fd b = Wrote (length b)"
  "k_wait sample_kernel n p = (if p = 7 then Reaps 7 0 else if n = 19 then Reaps 12 9 else if n = 20 then Reaps 13 9 else NoChild)"
  "k_kill sample_kernel n p = Signalled" "k_tasks sample_kernel n = Inr [Inr ''1'']"
  "k_children sample_kernel n t = Children ''12 13''" "k_ticks sample_kernel n = Suc (Suc (Suc (Suc (Suc 0))))" "k_spawn sample_kernel n cmd = Inr 7"
  "k_nonblocking sample_kernel n fd" "k_poll sample_kernel n fds = Polled" "k_subreaper sample_kernel n" "k_lock sample_kernel n"
  "k_parse sample_kernel s = Inr sample_request" "k_print sample_kernel j = ''r''"
  by (simp_all add: sample_kernel_def eval_nat_numeral)

lemma send_all_sample:
  "b \<noteq> [] \<Longrightarrow> send_all sample_kernel b g = (Inr (), g\<lparr>gu_step := Suc (gu_step g), gu_events := gu_events g @ [Sent b]\<rparr>)"
  by (subst send_all.simps) (simp add: seq_g_ask seq_g_note send_all.simps [of _ "[]"])

lemmas run_eval = seq_def g_ask_def g_note_def

lemma sample_open:
  "open_connection sample_kernel booted
     = (Inr True, booted\<lparr>gu_step := 5, gu_events := [Sent [kind_byte 1], Sent (be32 1), Sent ''r'']\<rparr>)"
  by (simp add: open_connection_def send_metadata_def send_frame_def run_eval send_all_sample booted_def MAX_FRAME_def)

lemma read_full_sample:
  "settle_read (k_read sample_kernel (gu_step g) Socket n) = Got b \<Longrightarrow> b \<noteq> [] \<Longrightarrow> length b = n \<Longrightarrow>
     read_full sample_kernel n g = (Inr b, g\<lparr>gu_step := Suc (gu_step g)\<rparr>)"
  by (subst read_full.simps) (auto simp: seq_g_ask read_full.simps [of _ 0])

lemma sample_start:
  "gu_step g = 5 \<Longrightarrow> start_command sample_kernel g = (Inr ''r'', g\<lparr>gu_step := 8,
     gu_events := gu_events g @ [SpawnedCommand 7 \<lparr>gc_path = ''/bin/sh'', gc_args = [], gc_env = []\<rparr>],
     gu_root := 7, gu_status := None, gu_clean := False\<rparr>)"
  by (simp add: start_command_def guest_request_def run_eval read_full_sample of_be32_be32 MAX_FRAME_def spawn_def
     decode_request_def sample_request_def strings_of_def starts_with_def)

lemma control_read_sample:
  "6 < gu_step g \<Longrightarrow> control_read sample_kernel v c g = (Inr (Pending, c), g\<lparr>gu_step := Suc (gu_step g)\<rparr>)"
  by (subst control_read.simps) (simp add: seq_g_ask)

lemma out_flush_sample:
  "out_flush sample_kernel \<lparr>ou_bytes = b, ou_sent = 0\<rparr> g = (Inr new_output,
     if b = [] then g else g\<lparr>gu_step := Suc (gu_step g), gu_events := gu_events g @ [Sent b]\<rparr>)"
  by (subst out_flush.simps) (simp add: seq_g_ask seq_g_note out_flush.simps [where out = "\<lparr>ou_bytes = b, ou_sent = length b\<rparr>"] new_output_def)

lemma parse_sample: "parse_i32 ''12'' = Some 12" "parse_i32 ''13'' = Some 13" "split_whitespace ''12 13'' = [''12'', ''13'']"
  by (simp_all add: parse_i32_def parse_uint_def is_digit_def nat_of_digits_def digit_value_def) code_simp

lemmas cleanup_eval = kill_listed_def kill_task_def kill_word_def kill_child_def parse_sample wait_child_def note_status_def all_gone_def
  modify_def ensure_def

lemma sample_cleanup:
  assumes "gu_step g = 14" "gu_root g = 7" "gu_status g = Some 0" "\<not> gu_clean g"
  shows "tree_cleanup sample_kernel g = (Inr (), g\<lparr>gu_step := 22, gu_clean := True, gu_events := gu_events g @
    [Listed ''12 13'', Killed 12, Killed 13, Reaped 12, Reaped 13, AllGone]\<rparr>)"
  using assms by (cases g) (simp add: tree_cleanup_def cleanup_inner_def run_eval cleanup_eval)

definition sample_running :: guest_session where
  "sample_running = new_session\<lparr>se_stdin := False, se_stderr_first := True, se_output := \<lparr>ou_bytes = frame_bytes 2 ''hi'', ou_sent = 0\<rparr>\<rparr>"

definition sample_over :: guest_session where
  "sample_over = sample_running\<lparr>se_stdout := False, se_stderr := False, se_stderr_first := False, se_terminal := True,
     se_output := \<lparr>ou_bytes = frame_bytes 1 ''r'', ou_sent = 0\<rparr>\<rparr>"

lemmas step_eval = run_step_def run_eval control_read_sample on_control_def on_exit_def root_exited_def wait_child_def modify_def
    sample_cleanup new_session_def new_output_def out_flush_sample feed_stdin_def read_pipes_def out_empty_def read_both_def out_pipe_def CHUNK_def
    finish_output_def frame_bytes_def poll_wait_def ensure_def Let_def out_exited_def sample_running_def sample_over_def

lemma sample_step1:
  assumes "gu_step g = 12" "gu_root g = 7" "gu_status g = None" "\<not> gu_clean g"
  shows "run_step sample_kernel 2 ''r'' new_session g = (Inr (Go sample_running), g\<lparr>gu_step := 24, gu_status := Some 0, gu_clean := True,
    gu_events := gu_events g @ [Reaped 7, Listed ''12 13'', Killed 12, Killed 13, Reaped 12, Reaped 13, AllGone, Received Stdout ''hi'']\<rparr>)"
  using assms by (cases g) (simp add: step_eval)

lemma sample_step2:
  assumes "gu_step g = 24" "gu_clean g"
  shows "run_step sample_kernel 2 ''r'' sample_running g = (Inr (Go sample_over), g\<lparr>gu_step := 29,
    gu_events := gu_events g @ [Sent (frame_bytes 2 ''hi''), Ended Stderr, Ended Stdout]\<rparr>)"
  using assms by (cases g) (simp add: step_eval)

lemma sample_step3:
  assumes "gu_step g = 29" "gu_clean g"
  shows "run_step sample_kernel 2 ''r'' sample_over g = (Inr Stop, g\<lparr>gu_step := 31,
    gu_events := gu_events g @ [Sent (frame_bytes 1 ''r'')]\<rparr>)"
  using assms by (cases g) (simp add: step_eval)

definition sample_result :: guest where
  "sample_result = booted\<lparr>gu_step := 31, gu_root := 7, gu_status := Some 0, gu_clean := True,
     gu_events := [Sent [kind_byte 1], Sent (be32 1), Sent ''r'',
       SpawnedCommand 7 \<lparr>gc_path = ''/bin/sh'', gc_args = [], gc_env = []\<rparr>,
       Reaped 7, Listed ''12 13'', Killed 12, Killed 13, Reaped 12, Reaped 13, AllGone, Received Stdout ''hi'',
       Sent (frame_bytes 2 ''hi''), Ended Stderr, Ended Stdout, Sent (frame_bytes 1 ''r'')]\<rparr>"

lemma sample_serves: "serve_connection sample_kernel 3 booted = Some (Inr (), sample_result)"
proof -
  have fuel: "3 = Suc (Suc (Suc 0))" by simp
  show ?thesis unfolding fuel
    by (simp add: serve_connection_def sample_open [unfolded booted_def] execute_def sample_start run_command_def nonblocking_def run_eval
      sample_step1 sample_step2 sample_step3 conclude_def sample_result_def booted_def tree_cleanup_def cleanup_inner_def modify_def)
qed

end
