(* ===== verification/GuestSafety.thy ===== *)
theory GuestSafety
  imports GuestTrace GuestSample Interfaces
begin

text \<open>
  Safety of the guest over all its connections: commands never overlap, signals only go to processes
  that are still unreaped, and an uncertain cleanup is final.
\<close>

section \<open>The monitors\<close>

text \<open>One command at a time: whether a command, or something it left, may still run.\<close>

fun occupy :: "bool \<Rightarrow> guest_event \<Rightarrow> bool option" where
  "occupy busy (SpawnedCommand p cmd) = (if busy then None else Some True)"
| "occupy busy AllGone = Some False"
| "occupy busy e = Some busy"

text \<open>
  Signals: the processes that were listed after the last one was reaped, and the command while it is
  not reaped.  Reaping anything empties the list.
\<close>

definition pids_of :: "string \<Rightarrow> int list" where
  "pids_of s = List.map_filter parse_i32 (split_whitespace s)"

fun signal :: "int list \<times> int option \<Rightarrow> guest_event \<Rightarrow> (int list \<times> int option) option" where
  "signal (ps, r) (SpawnedCommand p cmd) = Some (ps, Some p)"
| "signal (ps, r) (Listed s) = Some (pids_of s @ ps, r)"
| "signal (ps, r) (Reaped p) = Some ([], if r = Some p then None else r)"
| "signal (ps, r) (Killed p) = (if p \<in> set ps \<or> r = Some (- p) then Some (ps, r) else None)"
| "signal s e = Some s"

definition plain :: "guest_event set" where
  "plain = sends \<union> receives Socket \<union> pipes \<union> range Fed"

interpretation occ: monitor occupy "- (insert AllGone {SpawnedCommand p cmd | p cmd. True})"
proof
  show "occupy s e = Some s" if "e \<in> - (insert AllGone {SpawnedCommand p cmd | p cmd. True})" for s e
    using that by (cases e) auto
qed

interpretation sig: monitor signal plain
proof
  show "signal s e = Some s" if "e \<in> plain" for s e
    using that by (cases s) (auto simp: plain_def sends_def receives_def pipes_def)
qed

definition occupied :: "guest_event list \<Rightarrow> bool option" where
  "occupied es = watch occupy False es"

definition signals :: "guest_event list \<Rightarrow> (int list \<times> int option) option" where
  "signals es = watch signal ([], None) es"

lemma monitors_plain:
  "set es \<subseteq> plain \<Longrightarrow> occupied (xs @ es) = occupied xs \<and> signals (xs @ es) = signals xs"
proof
  assume es: "set es \<subseteq> plain"
  then have "set es \<subseteq> - (insert AllGone {SpawnedCommand p cmd | p cmd. True})"
    by (auto simp: plain_def sends_def receives_def pipes_def)
  then show "occupied (xs @ es) = occupied xs" unfolding occupied_def by (rule occ.watch_more)
  show "signals (xs @ es) = signals xs" using es unfolding signals_def by (rule sig.watch_more)
qed

lemma monitors_snoc:
  "occupied (xs @ [e]) = Option.bind (occupied xs) (\<lambda>s. occupy s e)"
  "signals (xs @ [e]) = Option.bind (signals xs) (\<lambda>s. signal s e)"
  by (simp_all add: occupied_def signals_def occ.watch_snoc sig.watch_snoc)

section \<open>The invariant\<close>

definition orderly :: "int list \<Rightarrow> guest \<Rightarrow> bool" where
  "orderly ws g \<longleftrightarrow>
     (\<exists>b. occupied (gu_events g) = Some b \<and> (gu_clean g \<longrightarrow> \<not> b)) \<and>
     (\<exists>ps r. signals (gu_events g) = Some (ps, r) \<and> set ws \<subseteq> set ps
       \<and> (gu_status g = None \<and> \<not> gu_clean g \<longrightarrow> r = Some (gu_root g)))"

lemma orderly_weaken: "orderly ws g \<Longrightarrow> orderly [] g" by (auto simp: orderly_def)

lemma orderly_quiet:
  assumes "discreet A g h" "A \<subseteq> plain" shows "orderly ws h \<longleftrightarrow> orderly ws g"
proof -
  obtain new where "gu_events h = gu_events g @ new" "set new \<subseteq> plain" "same_tree g h"
    using assms unfolding discreet_def emits_def by blast
  then show ?thesis using monitors_plain [of new "gu_events g"] by (simp add: orderly_def same_tree_def)
qed

definition live :: "bool \<Rightarrow> int list \<Rightarrow> guest \<Rightarrow> bool" where
  "live f ws g \<longleftrightarrow> orderly ws g \<and> gu_failed g = f"

lemma live_discreet: "moves (discreet A) m \<Longrightarrow> A \<subseteq> plain \<Longrightarrow> triple (live f ws) m (\<lambda>_. live f ws) (live f ws)"
  by (rule discreet.triple_moves) (auto simp: live_def orderly_quiet discreet_def same_tree_def)

lemma live_fail: "triple (live f ws) (fail msg) Q (live f ws)" by (simp add: triple_def)

lemma live_stepped [simp]: "live f ws (g\<lparr>gu_step := n\<rparr>) = live f ws g" by (simp add: live_def orderly_def)

lemma live_weaken: "live f ws g \<Longrightarrow> live f [] g" by (auto simp: live_def intro: orderly_weaken)

lemma triple_ask:
  "(\<And>x. triple P (k x) Q E) \<Longrightarrow> (\<And>g. P g \<Longrightarrow> P (g\<lparr>gu_step := Suc (gu_step g)\<rparr>)) \<Longrightarrow> triple P (seq (g_ask h) k) Q E"
  by (simp add: triple_def seq_g_ask)

lemma triple_note:
  "(\<And>g. P g \<Longrightarrow> P' (g\<lparr>gu_events := gu_events g @ [e]\<rparr>)) \<Longrightarrow> triple P' (k ()) Q E \<Longrightarrow> triple P (seq (g_note e) k) Q E"
  by (simp add: triple_def seq_g_note)

lemma triple_modify:
  "(\<And>g. P g \<Longrightarrow> P' (f g)) \<Longrightarrow> triple P' (k ()) Q E \<Longrightarrow> triple P (seq (modify f) k) Q E"
  by (simp add: triple_def seq_modify)

section \<open>Cleaning up\<close>

text \<open>Signals sent while the listed processes \<open>ws\<close> are all unreaped.\<close>

lemma kill_child_live:
  assumes "\<And>g. P g \<Longrightarrow> live f ws g \<and> (p \<in> set ws \<or> gu_status g = None \<and> \<not> gu_clean g \<and> p = - gu_root g)"
  shows "triple P (kill_child K p) (\<lambda>_. live f ws) (live f ws)"
  unfolding kill_child_def
proof (rule triple_note)
  show "live f ws (g\<lparr>gu_events := gu_events g @ [Killed p]\<rparr>)" if "P g" for g
  proof -
    from assms [OF that] obtain b ps r where
      o': "occupied (gu_events g) = Some b" "gu_clean g \<longrightarrow> \<not> b" "signals (gu_events g) = Some (ps, r)" "set ws \<subseteq> set ps"
        "gu_status g = None \<and> \<not> gu_clean g \<longrightarrow> r = Some (gu_root g)" and f: "gu_failed g = f"
      and p: "p \<in> set ws \<or> gu_status g = None \<and> \<not> gu_clean g \<and> p = - gu_root g"
      unfolding live_def orderly_def by blast
    have "p \<in> set ps \<or> r = Some (- p)" using p o' by auto
    then show ?thesis using o' f by (simp add: live_def orderly_def monitors_snoc)
  qed
qed (auto intro!: triple_ask triple_check)

lemma kill_word_live: "set (List.map_filter parse_i32 [w]) \<subseteq> set ws \<Longrightarrow>
  triple (live f ws) (kill_word K w) (\<lambda>_. live f ws) (live f ws)"
  unfolding kill_word_def
  by (rule triple_seq_lift) (auto simp: ok_or_eq_Inr List.map_filter_simps intro: kill_child_live)

lemma triple_each:
  "(\<And>x. x \<in> set xs \<Longrightarrow> triple P (f x) (\<lambda>_. P) E) \<Longrightarrow> triple P (each f xs) (\<lambda>_. P) E"
  by (induction xs) (auto intro!: triple_ret triple_seq)

lemma kill_task_live: "triple (live f []) (kill_task K t) (\<lambda>_. live f []) (live f [])"
proof -
  have listed: "triple (live f []) (seq (g_note (Listed s)) (\<lambda>_. each (kill_word K) (split_whitespace s)))
    (\<lambda>_. live f []) (live f [])" for s
  proof (rule triple_note)
    show "live f (pids_of s) (g\<lparr>gu_events := gu_events g @ [Listed s]\<rparr>)" if "live f [] g" for g
      using that by (auto simp: live_def orderly_def monitors_snoc)
    have "triple (live f (pids_of s)) (each (kill_word K) (split_whitespace s)) (\<lambda>_. live f (pids_of s)) (live f (pids_of s))"
      by (intro triple_each kill_word_live) (auto simp: pids_of_def List.map_filter_def)
    then show "triple (live f (pids_of s)) (each (kill_word K) (split_whitespace s)) (\<lambda>_. live f []) (live f [])"
      by (rule triple_weaken) (auto intro: live_weaken)
  qed
  show ?thesis
    unfolding kill_task_def
    by (rule triple_seq_lift, rule triple_ask) (auto simp: listed live_fail intro: triple_ret split: children_answer.split)
qed

lemma kill_listed_live: "triple (live f []) (kill_listed K) (\<lambda>_. live f []) (live f [])"
  unfolding kill_listed_def by (auto intro!: triple_ask triple_seq_lift triple_each kill_task_live)

lemma live_reaped:
  "live f ws g \<Longrightarrow> live f [] (if p = gu_root g then g\<lparr>gu_events := gu_events g @ [Reaped p], gu_status := Some st\<rparr>
     else g\<lparr>gu_events := gu_events g @ [Reaped p]\<rparr>)"
  by (auto simp: live_def orderly_def monitors_snoc)

lemma all_gone_live:
  "triple (live f []) all_gone (\<lambda>_ g. live f [] g \<and> gu_clean g) (live f [])"
  unfolding all_gone_def
  by (rule triple_gets, rule triple_seq_check)
    (auto simp: triple_def live_def orderly_def monitors_snoc seq_g_note)

lemma triple_wait:
  assumes reaped: "\<And>q st. triple (\<lambda>g. \<exists>h. P h \<and> g = h\<lparr>gu_events := gu_events h @ [Reaped q]\<rparr>) (k (Reaps q st)) Q E"
    and other: "\<And>a. (\<And>q st. a \<noteq> Reaps q st) \<Longrightarrow> triple P (k a) Q E"
    and step: "\<And>g. P g \<Longrightarrow> P (g\<lparr>gu_step := Suc (gu_step g)\<rparr>)"
  shows "triple P (seq (wait_child K p) k) Q E"
  unfolding triple_def
proof (intro allI impI)
  fix g assume "P g"
  define a where "a = settle_wait (k_wait K (gu_step g) p)"
  define h where "h = g\<lparr>gu_step := Suc (gu_step g)\<rparr>"
  have h: "P h" unfolding h_def by (rule step [OF \<open>P g\<close>])
  have w: "wait_child K p g = (case a of Reaps q st \<Rightarrow> (Inr a, h\<lparr>gu_events := gu_events h @ [Reaped q]\<rparr>) | _ \<Rightarrow> (Inr a, h))"
    by (simp add: wait_child_def seq_g_ask seq_g_note a_def h_def split: wait_answer.split)
  show "case seq (wait_child K p) k g of (Inl e, w') \<Rightarrow> E w' | (Inr x, w') \<Rightarrow> Q x w'"
  proof (cases "\<exists>q st. a = Reaps q st")
    case True
    then obtain q st where a: "a = Reaps q st" by blast
    then have "seq (wait_child K p) k g = k (Reaps q st) (h\<lparr>gu_events := gu_events h @ [Reaped q]\<rparr>)"
      using w by (simp add: seq_def)
    then show ?thesis using reaped [of q st] h unfolding triple_def by auto
  next
    case False
    then have "seq (wait_child K p) k g = k a h" using w by (cases a) (simp_all add: seq_def)
    then show ?thesis using other [of a] False h unfolding triple_def by auto
  qed
qed

lemma reaped_live:
  "triple (live f []) (k ()) Q E \<Longrightarrow>
     triple (\<lambda>g. \<exists>h. live f [] h \<and> g = h\<lparr>gu_events := gu_events h @ [Reaped q]\<rparr>) (seq (note_status q st) k) Q E"
  unfolding note_status_def
  by (rule triple_modify [where P' = "live f []"]) (auto dest: live_reaped [where p = q and st = st] split: if_splits)

lemma cleanup_loop_live:
  "triple (live f []) (cleanup_loop K outer n) (\<lambda>_ g. live f [] g \<and> gu_clean g) (live f [])"
proof (induction K outer n rule: cleanup_loop.induct)
  case (1 K outer)
  have "triple (live f []) (if outer then kill_listed K else ret ()) (\<lambda>_. live f []) (live f [])"
    by (auto intro: kill_listed_live triple_ret)
  then show ?case unfolding cleanup_loop.simps timed_out_def by (rule triple_seq) (rule live_fail)
next
  case (2 K outer n)
  have listed: "triple (live f []) (if outer then kill_listed K else ret ()) (\<lambda>_. live f []) (live f [])"
    by (auto intro: kill_listed_live triple_ret)
  show ?case unfolding cleanup_loop.simps timed_out_def
  proof (rule triple_seq [OF listed], rule triple_wait)
    show "triple (\<lambda>g. \<exists>h. live f [] h \<and> g = h\<lparr>gu_events := gu_events h @ [Reaped q]\<rparr>)
       (case Reaps q st of Reaps p st \<Rightarrow> seq (note_status p st) (\<lambda>_. cleanup_loop K False n)
        | NoneYet \<Rightarrow> (case n of 0 \<Rightarrow> fail ''command descendants could not be killed and reaped'' | Suc t \<Rightarrow> cleanup_loop K True t)
        | NoChild \<Rightarrow> all_gone | _ \<Rightarrow> fail ''os error'')
       (\<lambda>_ g. live f [] g \<and> gu_clean g) (live f [])" for q st
      by (simp add: reaped_live 2)
    show "triple (live f [])
       (case a of Reaps p st \<Rightarrow> seq (note_status p st) (\<lambda>_. cleanup_loop K False n)
        | NoneYet \<Rightarrow> (case n of 0 \<Rightarrow> fail ''command descendants could not be killed and reaped'' | Suc t \<Rightarrow> cleanup_loop K True t)
        | NoChild \<Rightarrow> all_gone | _ \<Rightarrow> fail ''os error'')
       (\<lambda>_ g. live f [] g \<and> gu_clean g) (live f [])" if "\<And>q st. a \<noteq> Reaps q st" for a
      using that 2 by (cases a) (auto intro: all_gone_live live_fail split: nat.split)
  qed simp
qed

lemma cleanup_inner_live:
  "triple (live f []) (cleanup_inner K) (\<lambda>_ g. live f [] g \<and> gu_clean g) (live f [])"
  unfolding cleanup_inner_def
proof (rule triple_gets)
  fix clean
  show "triple (\<lambda>g. live f [] g \<and> gu_clean g = clean)
     (if clean then ret ()
      else seq (g_ask (k_ticks K)) (\<lambda>ticks. seq (gets gu_status) (\<lambda>st. seq (gets gu_root) (\<lambda>root.
        seq (if st = None then kill_child K (- root) else ret ()) (\<lambda>_. cleanup_loop K True ticks)))))
     (\<lambda>_ g. live f [] g \<and> gu_clean g) (live f [])"
  proof (cases clean)
    case False
    have kill: "triple (\<lambda>g. ((live f [] g \<and> gu_clean g = clean) \<and> gu_status g = st) \<and> gu_root g = root)
      (if st = None then kill_child K (- root) else ret ()) (\<lambda>_. live f []) (live f [])" for st root
      using False by (auto intro!: kill_child_live triple_ret)
    show ?thesis unfolding if_not_P [OF False]
      by (intro triple_ask triple_gets triple_seq [OF kill cleanup_loop_live]) simp_all
  qed (auto intro: triple_ret)
qed

definition over :: "guest \<Rightarrow> bool" where
  "over g \<longleftrightarrow> orderly [] g \<and> gu_failed g"

lemma tree_cleanup_live:
  "triple (live f []) (tree_cleanup K) (\<lambda>_ g. live f [] g \<and> gu_clean g) over"
  unfolding tree_cleanup_def
  by (rule triple_seq_attempt [OF cleanup_inner_live]) (auto simp: triple_def seq_modify over_def live_def orderly_def)

section \<open>A command\<close>

lemma triple_prod: "(\<And>a b. triple P (f a b) Q E) \<Longrightarrow> triple P (case p of (a, b) \<Rightarrow> f a b) Q E"
  by (cases p) simp

lemma going_quiet:
  assumes "moves (discreet A) m" "A \<subseteq> plain"
  shows "triple (live False []) m (\<lambda>_. live False []) (orderly [])"
  by (rule triple_weaken [OF live_discreet [OF assms]]) (auto simp: live_def)

lemma going_cleanup: "triple (live False []) (tree_cleanup K) (\<lambda>_. live False []) (orderly [])"
  by (rule triple_weaken [OF tree_cleanup_live]) (auto simp: over_def)

lemma going_root_exited: "triple (live False []) (root_exited K) (\<lambda>_. live False []) (orderly [])"
  unfolding root_exited_def
proof (intro triple_gets triple_if)
  fix st root
  show "triple (\<lambda>w. live False [] w \<and> gu_status w = st) (ret True) (\<lambda>_. live False []) (orderly [])"
    by (rule triple_ret) simp
  show "triple (\<lambda>w. (live False [] w \<and> gu_status w = st) \<and> gu_root w = root)
     (seq (wait_child K root)
       (\<lambda>a. case a of Reaps p st \<Rightarrow> seq (modify (gu_status_update (\<lambda>_. Some st))) (\<lambda>_. ret True) | NoneYet \<Rightarrow> ret False
        | _ \<Rightarrow> fail ''os error''))
     (\<lambda>_. live False []) (orderly [])"
  proof (rule triple_wait)
    show "triple (\<lambda>g. \<exists>h. ((live False [] h \<and> gu_status h = st) \<and> gu_root h = root) \<and> g = h\<lparr>gu_events := gu_events h @ [Reaped q]\<rparr>)
      (case Reaps q s of Reaps p st \<Rightarrow> seq (modify (gu_status_update (\<lambda>_. Some st))) (\<lambda>_. ret True) | NoneYet \<Rightarrow> ret False
        | _ \<Rightarrow> fail ''os error'') (\<lambda>_. live False []) (orderly [])" for q s
      by (simp, rule triple_modify [where P' = "live False []"]) (auto simp: live_def orderly_def monitors_snoc intro: triple_ret)
    show "triple (\<lambda>w. (live False [] w \<and> gu_status w = st) \<and> gu_root w = root)
      (case a of Reaps p st \<Rightarrow> seq (modify (gu_status_update (\<lambda>_. Some st))) (\<lambda>_. ret True) | NoneYet \<Rightarrow> ret False
        | _ \<Rightarrow> fail ''os error'') (\<lambda>_. live False []) (orderly [])" if "\<And>q st. a \<noteq> Reaps q st" for a
      using that by (cases a) (auto simp: triple_def live_def)
  qed simp
qed

lemma going_on_control: "triple (live False []) (on_control K ev s) (\<lambda>_. live False []) (orderly [])"
  unfolding on_control_def by (cases ev) (auto intro: triple_ret triple_seq [OF going_cleanup])

lemma going_on_exit: "triple (live False []) (on_exit K s) (\<lambda>_. live False []) (orderly [])"
  unfolding on_exit_def
  by (intro triple_gets triple_if triple_ret triple_pre [OF triple_seq [OF going_root_exited]] triple_seq [OF going_cleanup]) simp_all

lemma plain_parts [simp]:
  "sends \<subseteq> plain" "receives Socket \<subseteq> plain" "pipes \<subseteq> plain" "range Fed \<subseteq> plain"
  by (auto simp: plain_def)

lemma going_run_step: "triple (live False []) (run_step K v input s) (\<lambda>_. live False []) (orderly [])"
  unfolding run_step_def
  by (intro triple_seq [OF going_quiet [OF control_read_quiet]] triple_prod triple_if triple_ret triple_seq [OF going_on_control]
      triple_seq [OF going_on_exit] triple_seq [OF going_quiet [OF out_flush_quiet]] triple_seq [OF going_quiet [OF feed_stdin_quiet]]
      triple_seq [OF going_quiet [OF read_pipes_quiet]] going_quiet [OF poll_wait_quiet [of "{}"]]) simp_all

lemma going_run_loop:
  "live False [] g \<Longrightarrow> run_loop K v input n s g = Some (r, g') \<Longrightarrow> orderly [] g' \<and> (is_ok r \<longrightarrow> \<not> gu_failed g')"
proof (induction n arbitrary: s g)
  case (Suc n)
  obtain p h where step: "run_step K v input s g = (p, h)" by (cases "run_step K v input s g")
  show ?case
  proof (cases p)
    case (Inl e)
    then show ?thesis using Suc.prems step tripleD_Inl [OF going_run_step Suc.prems(1), of K v input s e h] by auto
  next
    case (Inr x)
    then have "live False [] h" using step tripleD_Inr [OF going_run_step Suc.prems(1), of K v input s x h] by simp
    then show ?thesis using Suc.prems(2) Suc.IH [of h] step Inr by (cases x) (auto simp: live_def)
  qed
qed simp

lemma going_run_command:
  assumes "live False [] g" "run_command K v input n g = Some (r, g')"
  shows "orderly [] g' \<and> (is_ok r \<longrightarrow> \<not> gu_failed g')"
proof -
  have "moves (discreet {}) (each (nonblocking K) [Socket, Stdin, Stdout, Stderr])"
    by (rule discreet.each_moves) (rule nonblocking_quiet)
  then have "triple (live False []) (each (nonblocking K) [Socket, Stdin, Stdout, Stderr]) (\<lambda>_. live False []) (orderly [])"
    by (rule going_quiet) simp
  then show ?thesis using assms
    by (auto simp: run_command_def triple_def split: sum.splits prod.splits dest!: going_run_loop [rotated])
qed

section \<open>A connection\<close>

definition vacant :: "guest \<Rightarrow> bool" where
  "vacant g \<longleftrightarrow> orderly [] g \<and> occupied (gu_events g) = Some False"

lemma vacant_quiet: "discreet A g h \<Longrightarrow> A \<subseteq> plain \<Longrightarrow> vacant g \<Longrightarrow> vacant h \<and> gu_failed h = gu_failed g"
proof -
  assume q: "discreet A g h" "A \<subseteq> plain" and v: "vacant g"
  then obtain new where "gu_events h = gu_events g @ new" "set new \<subseteq> plain" unfolding discreet_def emits_def by blast
  then show ?thesis using v orderly_quiet [OF q] q(1) monitors_plain [of new "gu_events g"]
    by (simp add: vacant_def discreet_def same_tree_def)
qed

lemma discreet_result: "moves (discreet A) m \<Longrightarrow> m g = (r, h) \<Longrightarrow> discreet A g h"
  unfolding moves_def by (metis snd_conv)

lemma live_clean: "live f [] g \<Longrightarrow> gu_clean g \<Longrightarrow> vacant g"
  by (auto simp: live_def orderly_def vacant_def)

lemma spawn_live:
  assumes "vacant g" "\<not> gu_failed g" "spawn K cmd g = (r, h)"
  shows "(case r of Inl e \<Rightarrow> vacant h | Inr u \<Rightarrow> live False [] h) \<and> \<not> gu_failed h"
  using assms
  by (cases "k_spawn K (gu_step g) cmd")
    (auto simp: spawn_def seq_g_ask seq_g_note vacant_def live_def orderly_def monitors_snoc)

lemma start_command_live:
  assumes "vacant g" "\<not> gu_failed g" "start_command K g = (r, h)"
  shows "(case r of Inl e \<Rightarrow> vacant h | Inr i \<Rightarrow> live False [] h) \<and> \<not> gu_failed h"
proof -
  obtain q k where rd: "guest_request K g = (q, k)" by (cases "guest_request K g")
  have k: "vacant k" "\<not> gu_failed k"
    using vacant_quiet [OF discreet_result [OF read_request_quiet rd]] assms by auto
  show ?thesis
  proof (cases q)
    case (Inl e)
    then show ?thesis using assms(3) rd k by (auto simp: start_command_def seq_def)
  next
    case (Inr x)
    obtain cmd i where x: "x = (cmd, i)" by (cases x)
    obtain u l where sp: "spawn K cmd k = (u, l)" by (cases "spawn K cmd k")
    then have "r = map_sum id (\<lambda>_. i) u \<and> h = l"
      using assms(3) rd Inr x by (cases u) (auto simp: start_command_def seq_def)
    then show ?thesis using spawn_live [OF k sp] by (cases u) auto
  qed
qed

lemma execute_live:
  assumes "vacant g" "\<not> gu_failed g" "execute K n g = Some (r, h)"
  shows "orderly [] h \<and> (gu_failed h \<longrightarrow> \<not> is_ok r) \<and> (\<not> gu_failed h \<longrightarrow> vacant h)"
proof -
  obtain q k where st: "start_command K g = (q, k)" by (cases "start_command K g")
  note sk = start_command_live [OF assms(1,2) st]
  show ?thesis
  proof (cases q)
    case (Inl e)
    then show ?thesis using assms(3) st sk by (auto simp: execute_def vacant_def)
  next
    case (Inr input)
    obtain r' l where run: "run_command K (gu_version k) input n k = Some (r', l)"
      and rh: "(r, h) = (if gu_failed l then (r', l) else tree_cleanup K l)"
      using assms(3) st Inr by (auto simp: execute_def)
    have l: "orderly [] l \<and> (is_ok r' \<longrightarrow> \<not> gu_failed l)"
      by (rule going_run_command [OF _ run]) (use sk Inr in simp)
    show ?thesis
    proof (cases "gu_failed l")
      case False
      then have "live False [] l" using l by (simp add: live_def)
      moreover have "tree_cleanup K l = (r, h)" using rh False by simp
      ultimately have "case r of Inl e \<Rightarrow> over h | Inr u \<Rightarrow> live False [] h \<and> gu_clean h"
        using tripleD_Inr [OF tree_cleanup_live] tripleD_Inl [OF tree_cleanup_live] by (cases r) auto
      then show ?thesis using live_clean by (cases r) (auto simp: over_def live_def)
    qed (use rh l in auto)
  qed
qed

lemma open_connection_live:
  assumes "vacant g" "open_connection K g = (r, h)"
  shows "vacant h \<and> (is_ok r \<longrightarrow> \<not> gu_failed h) \<and> (\<not> is_ok r \<longrightarrow> gu_failed h \<or> \<not> k_lock K (gu_step g))"
proof -
  have meta: "vacant k \<Longrightarrow> vacant (snd (send_metadata K v k)) \<and> gu_failed (snd (send_metadata K v k)) = gu_failed k" for v k
    by (rule vacant_quiet [OF discreet_result [OF metadata_quiet]]) (auto simp: prod_eq_iff)
  have step: "vacant (k\<lparr>gu_step := n\<rparr>) = vacant k" "vacant (k\<lparr>gu_failed := b\<rparr>) = vacant k" for k n b
    by (simp_all add: vacant_def orderly_def)
  show ?thesis using assms meta
    by (auto simp: open_connection_def seq_g_ask seq_modify seq_check step split: if_splits)
qed

text \<open>What a connection leaves behind.\<close>

lemma serve_connection_leaves:
  assumes "vacant g" "serve_connection K n g = Some (r, h)"
  shows "orderly [] h \<and> (is_ok r \<longrightarrow> vacant h) \<and> (\<not> is_ok r \<longrightarrow> gu_failed h \<or> \<not> k_lock K (gu_step g))"
proof -
  obtain q k where op: "open_connection K g = (q, k)" by (cases "open_connection K g")
  note k = open_connection_live [OF assms(1) op]
  have meta: "vacant l \<Longrightarrow> vacant (snd (send_metadata K v l))" for v l
    using vacant_quiet [OF discreet_result [OF metadata_quiet]] by (metis plain_parts(1) prod.collapse)
  show ?thesis
  proof (cases "q = Inr True")
    case True
    then obtain r' l where ex: "execute K n (k\<lparr>gu_version := 2\<rparr>) = Some (r', l)" and rh: "conclude K r' l = (r, h)"
      using assms(2) op by (auto simp: serve_connection_def)
    have "vacant (k\<lparr>gu_version := 2\<rparr>)" "\<not> gu_failed (k\<lparr>gu_version := 2\<rparr>)"
      using k True by (auto simp: vacant_def orderly_def)
    note l = execute_live [OF this ex]
    show ?thesis using l rh meta by (auto simp: conclude_def vacant_def split: if_splits sum.splits)
  next
    case False
    then have "(q = Inr False \<and> r = Inr () \<or> (\<exists>e. q = Inl e \<and> r = Inl e)) \<and> h = k"
      using assms(2) op by (auto simp: serve_connection_def split: sum.splits bool.splits)
    then show ?thesis using k by (auto simp: vacant_def)
  qed
qed

lemma vacant_booted: "vacant booted"
  by (auto simp: vacant_def orderly_def booted_def occupied_def signals_def)

lemma reached_state:
  "guest_reaches K booted rt \<Longrightarrow> (case rt of Accepting g \<Rightarrow> vacant g | Exited g \<Rightarrow> orderly [] g)"
proof (induction rule: guest_reaches.induct)
  case at_start
  then show ?case by (simp add: vacant_booted)
next
  case (one_more rt rt')
  from one_more.hyps(2) one_more.IH show ?case
    by cases (auto simp: vacant_def dest!: serve_connection_leaves [rotated])
qed

section \<open>What the monitors say\<close>

definition is_spawn :: "guest_event \<Rightarrow> bool" where
  "is_spawn e \<longleftrightarrow> (case e of SpawnedCommand _ _ \<Rightarrow> True | _ \<Rightarrow> False)"

lemma busy_until_gone:
  "watch occupy True es = Some b \<Longrightarrow> \<not> b \<or> (\<exists>e \<in> set es. is_spawn e) \<Longrightarrow> AllGone \<in> set (takeWhile (\<lambda>e. \<not> is_spawn e) es)"
proof (induction es)
  case (Cons e es)
  then show ?case by (cases e) (auto simp: is_spawn_def)
qed simp

lemma occupied_spawn:
  assumes "occupied (xs @ SpawnedCommand p cmd # ys) = Some b" "\<not> b \<or> (\<exists>e \<in> set ys. is_spawn e)"
  shows "AllGone \<in> set (takeWhile (\<lambda>e. \<not> is_spawn e) ys)"
proof -
  obtain c where "watch occupy c (SpawnedCommand p cmd # ys) = Some b"
    using assms(1) unfolding occupied_def occ.watch_append by (auto simp: bind_eq_Some_conv)
  then have "watch occupy True ys = Some b" by (cases c) simp_all
  then show ?thesis using assms(2) by (rule busy_until_gone)
qed

definition listed_unreaped :: "int \<Rightarrow> guest_event list \<Rightarrow> bool" where
  "listed_unreaped p xs \<longleftrightarrow> (\<exists>us s vs. xs = us @ Listed s # vs \<and> p \<in> set (pids_of s) \<and> (\<forall>q. Reaped q \<notin> set vs))"

definition command_unreaped :: "int \<Rightarrow> guest_event list \<Rightarrow> bool" where
  "command_unreaped p xs \<longleftrightarrow> (\<exists>us cmd vs. xs = us @ SpawnedCommand p cmd # vs \<and> Reaped p \<notin> set vs)"

lemma unreaped_more:
  "listed_unreaped p xs \<Longrightarrow> (\<And>q. e \<noteq> Reaped q) \<Longrightarrow> listed_unreaped p (xs @ [e])"
  "command_unreaped p xs \<Longrightarrow> e \<noteq> Reaped p \<Longrightarrow> command_unreaped p (xs @ [e])"
  "command_unreaped p xs \<Longrightarrow> p \<noteq> q \<Longrightarrow> command_unreaped p (xs @ [Reaped q])"
  by (force simp: listed_unreaped_def command_unreaped_def)+

lemma unreaped_new:
  "p \<in> set (pids_of s) \<Longrightarrow> listed_unreaped p (xs @ [Listed s])" "command_unreaped p (xs @ [SpawnedCommand p cmd])"
  unfolding listed_unreaped_def command_unreaped_def by (metis append_Cons append_Nil empty_iff list.set(1))+

lemma signals_state:
  "signals xs = Some (ps, r) \<Longrightarrow> (\<forall>p \<in> set ps. listed_unreaped p xs) \<and> (\<forall>q. r = Some q \<longrightarrow> command_unreaped q xs)"
proof (induction xs arbitrary: ps r rule: rev_induct)
  case Nil
  then show ?case by (simp add: signals_def)
next
  case (snoc e xs)
  then obtain ps' r' where s: "signals xs = Some (ps', r')" "signal (ps', r') e = Some (ps, r)"
    by (auto simp: monitors_snoc bind_eq_Some_conv)
  then show ?case using snoc.IH [OF s(1)]
    by (cases e) (auto simp: unreaped_more unreaped_new split: if_splits, metis unreaped_more(3))
qed

lemma signals_kill:
  assumes "signals (xs @ Killed p # ys) \<noteq> None"
  shows "listed_unreaped p xs \<or> command_unreaped (- p) xs"
proof -
  obtain s where s: "signals xs = Some s" "signal s (Killed p) \<noteq> None"
    using assms unfolding signals_def sig.watch_append by (auto simp: bind_eq_Some_conv)
  then show ?thesis using signals_state [of xs "fst s" "snd s"] by (cases s) (auto split: if_splits)
qed

section \<open>The properties\<close>


lemma sample_reached: "guest_reaches sample_kernel booted (Accepting sample_result)"
  by (rule one_more [OF at_start]) (rule connection_over [OF sample_serves])


text \<open>C31: Signals only go to processes that cannot have been replaced by others: every signal of a guest is sent to a process the
  kernel listed as a child after the last time any child was reaped, or to the group of a command that is not
  reaped yet.\<close>

theorem signals_hit_unreaped:
  assumes "guest_reaches K booted rt"
    and "(case rt of Accepting g \<Rightarrow> gu_events g | Exited g \<Rightarrow> gu_events g) = xs @ Killed p # ys"
  shows "listed_unreaped p xs \<or> command_unreaped (- p) xs"
  using reached_state [OF assms(1)] assms(2)
  by (intro signals_kill [of xs p ys]) (cases rt, auto simp: vacant_def orderly_def)

theorem signals_hit_unreaped_witness:
  "listed_unreaped 13 [Sent [kind_byte 1], Sent (be32 1), Sent ''r'',
      SpawnedCommand 7 \<lparr>gc_path = ''/bin/sh'', gc_args = [], gc_env = []\<rparr>, Reaped 7, Listed ''12 13'', Killed 12]"
proof -
  let ?xs = "[Sent [kind_byte 1], Sent (be32 1), Sent ''r'',
      SpawnedCommand 7 \<lparr>gc_path = ''/bin/sh'', gc_args = [], gc_env = []\<rparr>, Reaped 7, Listed ''12 13'', Killed 12]"
  have "listed_unreaped 13 ?xs \<or> command_unreaped (- 13) ?xs"
    by (rule signals_hit_unreaped [OF sample_reached, of _ _ "tl (tl (dropWhile (\<lambda>e. e \<noteq> Killed 12) (gu_events sample_result)))"])
      (simp add: sample_result_def)
  moreover have "\<not> command_unreaped (- 13) ?xs"
    by (auto simp: command_unreaped_def Cons_eq_append_conv)
  ultimately show ?thesis by blast
qed

text \<open>C32: An uncertain cleanup is final: after a connection that ended with an error while the runtime's lock was free,
  every further connection of the process is refused before it sends, reads or starts anything.\<close>

theorem uncertain_cleanup_final:
  assumes "guest_reaches K booted (Accepting g)" and "serve_connection K n g = Some (Inl e, h)"
    and "k_lock K (gu_step g)"
  shows "\<exists>e' h'. serve_connection K m h = Some (Inl e', h') \<and> gu_events h' = gu_events h \<and> gu_failed h'"
proof -
  have "vacant g" using reached_state [OF assms(1)] by simp
  then have "gu_failed h" using serve_connection_leaves [OF _ assms(2)] assms(3) by auto
  then show ?thesis
    by (cases "k_lock K (gu_step h)") (simp_all add: serve_connection_def open_connection_def seq_g_ask seq_check)
qed

definition stuck_kernel :: kernel where
  "stuck_kernel = sample_kernel\<lparr>k_subreaper := \<lambda>n. False\<rparr>"

theorem uncertain_cleanup_final_witness:
  "\<exists>e h e' h'. serve_connection stuck_kernel 0 booted = Some (Inl e, h) \<and> serve_connection stuck_kernel 1 h = Some (Inl e', h')
     \<and> gu_events h' = gu_events h \<and> gu_failed h'"
proof -
  have "serve_connection stuck_kernel 0 booted = Some (Inl (Msg ''os error''), booted\<lparr>gu_step := 2, gu_failed := True\<rparr>)"
    by (simp add: serve_connection_def open_connection_def seq_g_ask seq_check seq_modify stuck_kernel_def booted_def)
  moreover have "k_lock stuck_kernel (gu_step booted)" by (simp add: stuck_kernel_def)
  ultimately show ?thesis using uncertain_cleanup_final [OF at_start, of stuck_kernel 0] by blast
qed

end
