(* ===== verification/GuestFlow.thy ===== *)
theory GuestFlow
  imports GuestTrace GuestSample
begin

text \<open>
  What goes through a connection of the guest: the output of the command in frames, its input, and the cancel
  requests; the shape of the loop's state; and that the loop ends once the peer is gone.
\<close>

section \<open>Bytes of the events\<close>

definition event_bytes :: "(guest_event \<Rightarrow> string) \<Rightarrow> guest_event list \<Rightarrow> string" where
  "event_bytes f es = concat (map f es)"

fun sent_of :: "guest_event \<Rightarrow> string" where
  "sent_of (Sent b) = b"
| "sent_of _ = []"

fun frame_of :: "guest_event \<Rightarrow> string" where
  "frame_of (Received Stdout b) = frame_bytes 2 b"
| "frame_of (Received Stderr b) = frame_bytes 3 b"
| "frame_of _ = []"

fun fed_of :: "guest_event \<Rightarrow> string" where
  "fed_of (Fed b) = b"
| "fed_of _ = []"

abbreviation sent_bytes :: "guest_event list \<Rightarrow> string" where "sent_bytes \<equiv> event_bytes sent_of"
abbreviation output_frames :: "guest_event list \<Rightarrow> string" where "output_frames \<equiv> event_bytes frame_of"
abbreviation fed_bytes :: "guest_event list \<Rightarrow> string" where "fed_bytes \<equiv> event_bytes fed_of"

lemma event_bytes_simps [simp]:
  "event_bytes f [] = []" "event_bytes f (e # es) = f e @ event_bytes f es"
  "event_bytes f (es @ fs) = event_bytes f es @ event_bytes f fs"
  by (simp_all add: event_bytes_def)

definition aside :: "guest_event set" where
  "aside = receives Socket \<union> insert AllGone signs"

lemma aside_bytes:
  "set es \<subseteq> aside \<Longrightarrow> event_bytes sent_of es = [] \<and> event_bytes frame_of es = [] \<and> event_bytes fed_of es = []"
  by (induction es) (auto simp: aside_def receives_def signs_def)

section \<open>The shape of the state\<close>

definition wf_control :: "control \<Rightarrow> bool" where
  "wf_control c \<longleftrightarrow> (if length (co_header c) < 5 then co_body c = []
     else length (co_header c) = 5 \<and> hd (co_header c) = kind_byte 1 \<and> co_size c = of_be32 (tl (co_header c))
       \<and> length (co_body c) < co_size c \<and> co_size c \<le> MAX_FRAME)"

definition wf_output :: "outgoing \<Rightarrow> bool" where
  "wf_output out \<longleftrightarrow> length (ou_bytes out) \<le> CHUNK + 5 \<and> (if ou_bytes out = [] then ou_sent out = 0 else ou_sent out < length (ou_bytes out))"

definition wf_session :: "string \<Rightarrow> guest_session \<Rightarrow> bool" where
  "wf_session input s \<longleftrightarrow> wf_control (se_control s) \<and> wf_output (se_output s) \<and> se_input_sent s \<le> length input
     \<and> (se_terminal s \<longrightarrow> \<not> se_stdout s \<and> \<not> se_stderr s)"

lemma wf_new [simp]: "wf_control new_control" "wf_output new_output" "wf_session input new_session"
  by (simp_all add: wf_control_def wf_output_def wf_session_def new_control_def new_output_def new_session_def)

definition yields :: "('w, 'a) act \<Rightarrow> ('a \<Rightarrow> bool) \<Rightarrow> bool" where
  "yields m Q \<longleftrightarrow> triple (\<lambda>_. True) m (\<lambda>x _. Q x) (\<lambda>_. True)"

lemma yields_seq: "yields m R \<Longrightarrow> (\<And>x. R x \<Longrightarrow> yields (k x) Q) \<Longrightarrow> yields (seq m k) Q"
  unfolding yields_def triple_def seq_def by (fastforce split: prod.splits sum.splits)

lemma yields_any: "yields m (\<lambda>_. True)" by (simp add: yields_def triple_def split: prod.splits sum.splits)
lemma yields_ret: "Q x \<Longrightarrow> yields (ret x) Q" by (simp add: yields_def triple_def)
lemma yields_fail: "yields (fail msg) Q" by (simp add: yields_def triple_def)
lemma yields_if: "(c \<Longrightarrow> yields m Q) \<Longrightarrow> (\<not> c \<Longrightarrow> yields n Q) \<Longrightarrow> yields (if c then m else n) Q" by simp
lemma yields_check: "(c \<Longrightarrow> yields (k ()) Q) \<Longrightarrow> yields (seq (check c msg) k) Q"
  by (cases c) (simp_all add: yields_def triple_def)

lemma yields_then: "(\<And>x. yields (k x) Q) \<Longrightarrow> yields (seq m k) Q"
  by (rule yields_seq [OF yields_any])

lemma yieldsD: "yields m Q \<Longrightarrow> m w = (Inr x, w') \<Longrightarrow> Q x"
  unfolding yields_def using tripleD_Inr by fastforce

lemma control_header:
  assumes "length (co_header c) < 5" "b = take (control_room c) bytes" "b \<noteq> []" "length (co_header c @ b) < 5"
  shows "control_need (c\<lparr>co_header := co_header c @ b\<rparr>) < control_need c"
    "wf_control c \<Longrightarrow> wf_control (c\<lparr>co_header := co_header c @ b\<rparr>)"
proof -
  obtain x xs where "b = x # xs" using assms(3) by (cases b) auto
  then show "control_need (c\<lparr>co_header := co_header c @ b\<rparr>) < control_need c"
    using assms(1,4) by (simp add: control_need_def)
  show "wf_control c \<Longrightarrow> wf_control (c\<lparr>co_header := co_header c @ b\<rparr>)"
    using assms(1,4) by (simp add: wf_control_def)
qed

lemma control_full_header:
  assumes "length (co_header c) < 5" "b = take (control_room c) bytes" "\<not> length (co_header c @ b) < 5"
    "hd (co_header c @ b) = kind_byte 1" "of_be32 (tl (co_header c @ b)) \<noteq> 0" "\<not> MAX_FRAME < of_be32 (tl (co_header c @ b))"
  shows "control_need (c\<lparr>co_header := co_header c @ b, co_size := of_be32 (tl (co_header c @ b))\<rparr>) < control_need c"
    "wf_control c \<Longrightarrow> wf_control (c\<lparr>co_header := co_header c @ b, co_size := of_be32 (tl (co_header c @ b))\<rparr>)"
proof -
  have "length (co_header c @ b) = 5" using assms(1,2,3) by (simp add: control_room_def)
  then show "control_need (c\<lparr>co_header := co_header c @ b, co_size := of_be32 (tl (co_header c @ b))\<rparr>) < control_need c"
    "wf_control c \<Longrightarrow> wf_control (c\<lparr>co_header := co_header c @ b, co_size := of_be32 (tl (co_header c @ b))\<rparr>)"
    using assms(1,4-6) by (simp_all add: control_need_def wf_control_def)
qed

lemma control_more_body:
  assumes "\<not> length (co_header c) < 5" "b \<noteq> []" "length (co_body c @ b) < co_size c"
  shows "control_need (c\<lparr>co_body := co_body c @ b\<rparr>) < control_need c"
    "wf_control c \<Longrightarrow> wf_control (c\<lparr>co_body := co_body c @ b\<rparr>)"
proof -
  obtain x xs where "b = x # xs" using assms(2) by (cases b) auto
  then show "control_need (c\<lparr>co_body := co_body c @ b\<rparr>) < control_need c"
    using assms(1,3) by (simp add: control_need_def)
  show "wf_control c \<Longrightarrow> wf_control (c\<lparr>co_body := co_body c @ b\<rparr>)"
    using assms(1,3) by (simp add: wf_control_def)
qed

lemma control_read_wf: "wf_control c \<Longrightarrow> yields (control_read K v c) (\<lambda>(ev, c'). wf_control c')"
proof (induction c rule: measure_induct_rule [of control_need])
  case (less c)
  have IH: "yields (control_read K v c') (\<lambda>(ev, c'). wf_control c')" if "control_need c' < control_need c" "wf_control c'" for c'
    using less that by blast
  show ?case
    using less.prems
    by (subst control_read.simps, intro yields_then, split read_answer.split, unfold Let_def,
        intro conjI allI impI yields_if yields_then yields_ret yields_fail IH)
      (use less.prems in \<open>simp_all add: control_header control_full_header control_more_body\<close>,
       simp add: wf_control_def)
qed

lemma out_flush_wf: "length (ou_bytes out) \<le> CHUNK + 5 \<Longrightarrow> yields (out_flush K out) wf_output"
proof (induction K out rule: out_flush.induct)
  case (1 K out)
  show ?case
    by (subst out_flush.simps, unfold Let_def, intro yields_if yields_then yields_ret,
        split write_answer.split, intro conjI allI impI yields_if yields_then yields_ret yields_fail 1)
      (use 1 in \<open>auto simp: wf_output_def\<close>)
qed

lemma frame_length [simp]: "length (frame_bytes k b) = length b + 5" by (simp add: frame_bytes_def)

lemma frame_not_Nil [simp]: "frame_bytes k b \<noteq> []" by (simp add: frame_bytes_def)

lemma out_pipe_wf: "wf_output out \<Longrightarrow> yields (out_pipe K fd k (b, out)) (\<lambda>(b', out'). wf_output out')"
  unfolding out_pipe_def
  by (auto simp: Let_def wf_output_def out_empty_def intro!: yields_then yields_ret yields_fail split: read_answer.split)

lemma on_control_wf: "wf_session input s \<Longrightarrow> yields (on_control K ev s) (wf_session input)"
  unfolding on_control_def by (cases ev) (auto simp: wf_session_def intro!: yields_then yields_ret)

lemma on_exit_wf: "wf_session input s \<Longrightarrow> yields (on_exit K s) (wf_session input)"
  unfolding on_exit_def by (intro yields_then yields_if yields_ret) (simp_all add: wf_session_def)

lemma feed_stdin_wf: "wf_session input s \<Longrightarrow> yields (feed_stdin K input s) (wf_session input)"
  unfolding feed_stdin_def Let_def
  by (intro yields_if yields_then yields_ret, assumption, split write_answer.split, intro conjI allI impI yields_then yields_ret yields_fail)
    (auto simp: wf_session_def)

lemma read_both_wf: "wf_session input s \<Longrightarrow> \<not> se_terminal s \<Longrightarrow>
  yields (read_both K s) (\<lambda>s'. wf_session input s' \<and> \<not> se_terminal s')"
  unfolding read_both_def
  by (intro yields_if) (rule yields_seq [OF out_pipe_wf], simp add: wf_session_def, clarsimp,
      rule yields_seq [OF out_pipe_wf], assumption, auto simp: wf_session_def intro: yields_ret)+

lemma finish_output_wf: "wf_session input s \<Longrightarrow> yields (finish_output K v s) (wf_session input)"
  unfolding finish_output_def out_exited_def Let_def
proof (rule yields_then, rule yields_if, rule yields_then, goal_cases)
  case (1 clean st)
  then have "yields (seq (check (length (k_print K (exited_json v (the st))) \<le> CHUNK) ''failed to write whole buffer'')
    (\<lambda>_. ret (se_output s\<lparr>ou_bytes := frame_bytes 1 (k_print K (exited_json v (the st)))\<rparr>))) wf_output"
    by (intro yields_check yields_ret) (auto simp: wf_session_def wf_output_def out_empty_def)
  then show ?case by (rule yields_seq) (use 1 in \<open>auto simp: wf_session_def intro!: yields_ret\<close>)
qed (auto intro: yields_ret)

lemma run_step_wf:
  assumes "wf_session input s"
  shows "yields (run_step K v input s) (\<lambda>p. case p of Stop \<Rightarrow> True | Go s' \<Rightarrow> wf_session input s')"
  unfolding run_step_def
proof (rule yields_seq [OF control_read_wf], goal_cases)
  case (2 evc)
  obtain ev c where evc: "evc = (ev, c)" by (cases evc)
  have "wf_session input (s\<lparr>se_control := c\<rparr>)" using assms 2 evc by (simp add: wf_session_def)
  note control = on_control_wf [OF this]
  have flush: "yields (out_flush K (se_output s)) wf_output" if "wf_session input s" for s
    using that by (intro out_flush_wf) (simp add: wf_session_def wf_output_def)
  have pipes: "yields (read_pipes K v s) (wf_session input)" if s: "wf_session input s" for s
    unfolding read_pipes_def using s
    by (auto intro!: yields_ret yields_seq [OF read_both_wf] finish_output_wf) (simp add: wf_session_def)
  show ?case unfolding evc
    by (auto intro!: yields_ret yields_seq [OF control] yields_seq [OF on_exit_wf] yields_seq [OF flush] yields_seq [OF feed_stdin_wf]
        yields_seq [OF pipes] simp: poll_wait_def yields_then intro: yields_then)
      (auto simp: wf_session_def intro!: yields_then yields_ret)
qed (use assms in \<open>simp add: wf_session_def\<close>)

text \<open>C34: The state of the guest's loop keeps its shape: at most one frame of at most 8192 bytes of payload is in flight and never more of it
  is sent than there is, a cancel request is buffered up to its size of at most 65536 bytes, no more input
  than there is has been fed, and after the exit frame no pipe is open.\<close>

theorem session_stays_wf:
  assumes "wf_session input s" and "run_step K v input s g = (Inr (Go s'), g')"
  shows "wf_session input s'"
  using yieldsD [OF run_step_wf [OF assms(1)] assms(2)] by simp

theorem session_stays_wf_witness: "wf_session ''r'' sample_running"
  by (rule session_stays_wf [OF wf_new(3) sample_step1 [where g = "booted\<lparr>gu_step := 12, gu_root := 7, gu_clean := False\<rparr>"]])
    (simp_all add: booted_def)

section \<open>Cancel requests\<close>

text \<open>\<open>within k m\<close>: the action asks at most \<open>k\<close> questions.\<close>

definition within :: "nat \<Rightarrow> 'a guest_act \<Rightarrow> bool" where
  "within k m \<longleftrightarrow> (\<forall>g. gu_step (snd (m g)) \<le> gu_step g + k)"

lemma within_ask: "(\<And>x. within k (f x)) \<Longrightarrow> within (Suc k) (seq (g_ask h) f)"
  unfolding within_def seq_g_ask by (metis (no_types, lifting) add_Suc_shift guest.ext_inject guest.surjective guest.update_convs(1))

lemma within_note: "within k (f ()) \<Longrightarrow> within k (seq (g_note e) f)"
  unfolding within_def seq_g_note by (metis (no_types, lifting) guest.ext_inject guest.surjective guest.update_convs(2))

lemma within_lift: "(\<And>x. within k (f x)) \<Longrightarrow> within k (seq (lift_r r) f)"
  by (cases r) (simp_all add: within_def)

lemma within_end: "within k (ret x)" "within k (fail msg)" by (simp_all add: within_def)

lemma within_if: "(c \<Longrightarrow> within k m) \<Longrightarrow> (\<not> c \<Longrightarrow> within k n) \<Longrightarrow> within k (if c then m else n)" by simp

lemma within_mono: "within j m \<Longrightarrow> j \<le> k \<Longrightarrow> within k m"
  unfolding within_def by (meson add_le_cancel_left le_trans)

lemma control_read_steps: "within (Suc (control_need c)) (control_read K v c)"
proof (induction c rule: measure_induct_rule [of control_need])
  case (less c)
  have IH: "control_need c' < control_need c \<Longrightarrow> within (control_need c) (control_read K v c')" for c'
    by (rule within_mono [OF less]) simp_all
  show ?case
    by (subst control_read.simps, intro within_ask, split read_answer.split, unfold Let_def,
        intro conjI allI impI within_if within_note within_lift within_end IH)
      (simp_all add: control_header control_full_header control_more_body)
qed

text \<open>C35: Reading cancel requests ends: one call of the reader returns after at most 65543 reads, however the bytes
  are cut and whatever they are, because every read that gives bytes fills a buffer of known size.\<close>

theorem control_read_ends:
  assumes "wf_control c"
  shows "gu_step (snd (control_read K v c g)) \<le> gu_step g + 65543"
proof -
  have "control_need c \<le> MAX_FRAME + 6" using assms by (auto simp: wf_control_def control_need_def split: if_splits)
  moreover have "gu_step (snd (control_read K v c g)) \<le> gu_step g + Suc (control_need c)"
    using control_read_steps [of c K v] unfolding within_def by blast
  ultimately show ?thesis by (simp add: MAX_FRAME_def)
qed

theorem control_read_ends_witness: "gu_step (snd (control_read sample_kernel 2 new_control booted)) \<le> gu_step booted + 65543"
  by (rule control_read_ends) simp

definition control_bytes :: "control \<Rightarrow> string" where
  "control_bytes c = co_header c @ co_body c"

fun socket_of :: "guest_event \<Rightarrow> string" where
  "socket_of (Received Socket b) = b"
| "socket_of _ = []"

abbreviation socket_bytes :: "guest_event list \<Rightarrow> string" where "socket_bytes \<equiv> event_bytes socket_of"

lemma be32_of_be32: "length s = 4 \<Longrightarrow> be32 (of_be32 s) = s"
proof -
  assume "length s = 4"
  then obtain a b c d where s: "s = [a, b, c, d]" by (auto simp: eval_nat_numeral length_Suc_conv)
  have "(m * 256 + of_char x) mod 256 = (of_char x :: nat)" for m :: nat and x :: char by simp
  then have digit: "(m * 256 + of_char x) div 256 = m" "char_of (m * 256 + of_char x) = x" for m :: nat and x :: char
    by (simp, metis char_of_mod_256 char_of_char)
  have "of_be32 s = ((of_char a * 256 + of_char b) * 256 + of_char c) * 256 + of_char d"
    by (simp add: of_be32_def s mult.commute)
  moreover have "256 ^ 3 = (256 :: nat) * 256 * 256" "256 ^ 2 = (256 :: nat) * 256" by simp_all
  ultimately show ?thesis unfolding be32_def s
    by (simp only: list.map div_mult2_eq digit power_0 power_one_right div_by_1 char_of_char)
qed

definition framed :: "kernel \<Rightarrow> int \<Rightarrow> control \<Rightarrow> guest_event list \<Rightarrow> control_event \<Rightarrow> control \<Rightarrow> bool" where
  "framed K v c new ev c' \<longleftrightarrow>
     (if ev = Cancel then control_bytes c' = [] \<and> (\<exists>body. control_bytes c @ socket_bytes new = frame_bytes 1 body \<and> accept_cancel K v body = Inr ())
      else control_bytes c' = control_bytes c @ socket_bytes new)"

lemma framed_more:
  "framed K v d new ev c' \<Longrightarrow> control_bytes d = control_bytes c @ b \<Longrightarrow> framed K v c (Received Socket b # new) ev c'"
  by (auto simp: framed_def)

lemma full_frame:
  assumes "wf_control c" "\<not> length (co_header c) < 5" "length (co_body c @ b) = co_size c"
  shows "control_bytes c @ b = frame_bytes 1 (co_body c @ b)"
proof -
  obtain k r where h: "co_header c = k # r" "length r = 4" "k = kind_byte 1" "of_be32 r = co_size c"
    using assms(1,2) by (cases "co_header c") (auto simp: wf_control_def)
  then show ?thesis using be32_of_be32 [of r] assms(3) by (simp add: control_bytes_def frame_bytes_def)
qed

text \<open>\<open>frames\<close> is the contract of the rest of a call that has already logged \<open>pre\<close>.\<close>

definition frames :: "kernel \<Rightarrow> int \<Rightarrow> control \<Rightarrow> guest_event list \<Rightarrow> (control_event \<times> control) guest_act \<Rightarrow> bool" where
  "frames K v c pre m \<longleftrightarrow> (\<forall>g ev c' h. m g = (Inr (ev, c'), h) \<longrightarrow>
     (\<exists>new. gu_events h = gu_events g @ new \<and> framed K v c (pre @ new) ev c'))"

lemma frames_ask: "(\<And>a. frames K v c pre (k a)) \<Longrightarrow> frames K v c pre (seq (g_ask f) k)"
  by (fastforce simp: frames_def seq_g_ask)

lemma frames_note: "frames K v c (pre @ [e]) (k ()) \<Longrightarrow> frames K v c pre (seq (g_note e) k)"
  by (fastforce simp: frames_def seq_g_note)

lemma frames_if: "(P \<Longrightarrow> frames K v c pre m) \<Longrightarrow> (\<not> P \<Longrightarrow> frames K v c pre n) \<Longrightarrow> frames K v c pre (if P then m else n)"
  by simp

lemma frames_lift: "(\<And>x. r = Inr x \<Longrightarrow> frames K v c pre (k x)) \<Longrightarrow> frames K v c pre (seq (lift_r r) k)"
  by (cases r) (simp_all add: frames_def seq_def lift_r_def)

lemma frames_ret: "framed K v c pre ev c' \<Longrightarrow> frames K v c pre (ret (ev, c'))"
  by (simp add: frames_def)

lemma frames_fail: "frames K v c pre (fail e)"
  by (simp add: frames_def)

lemma frames_on:
  assumes "frames K v d [] m" "control_bytes d = control_bytes c @ b"
  shows "frames K v c [Received Socket b] m"
  unfolding frames_def
proof (intro allI impI)
  fix g ev c' h assume "m g = (Inr (ev, c'), h)"
  then obtain new where "gu_events h = gu_events g @ new" "framed K v d new ev c'"
    using assms(1) by (fastforce simp: frames_def)
  then show "\<exists>new. gu_events h = gu_events g @ new \<and> framed K v c ([Received Socket b] @ new) ev c'"
    using framed_more [OF _ assms(2)] by auto
qed

lemma control_reads_frames: "wf_control c \<Longrightarrow> frames K v c [] (control_read K v c)"
proof (induction c rule: measure_induct_rule [of control_need])
  case (less c)
  have rest: "co_body c = []" if "length (co_header c) < 5" using less.prems that by (simp add: wf_control_def)
  have IH: "frames K v c [Received Socket b] (control_read K v d)"
    if "control_need d < control_need c" "wf_control d" "control_bytes d = control_bytes c @ b" for d b
    by (rule frames_on [OF less.IH [OF that(1,2)] that(3)])
  have whole: "framed K v c [Received Socket (take (control_room c) bytes)] Cancel (c\<lparr>co_header := [], co_body := []\<rparr>)"
    if "\<not> length (co_header c) < 5" "\<not> length (co_body c @ take (control_room c) bytes) < co_size c"
      "accept_cancel K v (co_body c @ take (control_room c) bytes) = Inr ()" for bytes
  proof -
    have "length (co_body c @ take (control_room c) bytes) = co_size c"
      using less.prems that by (simp add: control_room_def wf_control_def)
    then show ?thesis using full_frame [OF less.prems that(1)] that(3) by (auto simp: framed_def control_bytes_def)
  qed
  show ?case
    by (subst control_read.simps, intro frames_ask, split read_answer.split, unfold Let_def,
        intro conjI allI impI frames_if frames_note frames_lift frames_ret frames_fail, unfold append_Nil)
      (use less.prems rest whole in \<open>auto intro!: IH control_header control_full_header control_more_body
         simp: framed_def control_bytes_def\<close>)
qed

lemma control_read_frames:
  "wf_control c \<Longrightarrow> control_read K v c g = (Inr (ev, c'), h) \<Longrightarrow>
     \<exists>new. gu_events h = gu_events g @ new \<and> framed K v c new ev c'"
  using control_reads_frames [of c K v] by (fastforce simp: frames_def)

text \<open>Cancel requests are framed, however their bytes are cut: a call of the reader that reports a cancel has completed, with what earlier
  calls had kept, exactly one frame of kind 1 whose body is an acceptable request and keeps nothing; any other
  call loses no byte, what it keeps being what was kept and what was read.\<close>

theorem cancel_framed:
  assumes "wf_control c" and "control_read K v c g = (Inr (ev, c'), h)"
  shows "\<exists>new. gu_events h = gu_events g @ new \<and>
    (if ev = Cancel then control_bytes c' = [] \<and> (\<exists>body. control_bytes c @ socket_bytes new = frame_bytes 1 body \<and> accept_cancel K v body = Inr ())
     else control_bytes c' = control_bytes c @ socket_bytes new)"
  using control_read_frames [OF assms] by (simp add: framed_def)

definition cancel_kernel :: kernel where
  "cancel_kernel = sample_kernel\<lparr>
     k_read := (\<lambda>n fd room. if n = 0 then Got [kind_byte 1, CHR 0x00] else if n = 1 then Got (tl (be32 2)) else if n = 2 then ReadIntr (Got ''{}'') else ReadBlocks),
     k_parse := (\<lambda>s. Inr (JObj [(''type'', JStr ''cancel''), (''version'', JNum 2)]))\<rparr>"

theorem cancel_framed_witness:
  "\<exists>c' h new. control_read cancel_kernel 2 new_control booted = (Inr (Cancel, c'), h) \<and> gu_events h = new
     \<and> (\<exists>body. socket_bytes new = frame_bytes 1 body \<and> accept_cancel cancel_kernel 2 body = Inr ())"
proof -
  have ne: "tl (be32 2) \<noteq> []" by (simp add: be32_def)
  have z: "be32 2 = CHR 0x00 # tl (be32 2)" by (simp add: be32_def char_of_def)
  then have "tl (kind_byte 1 # CHR 0x00 # tl (be32 2)) = be32 2" by simp
  then have size: "of_be32 (tl (kind_byte 1 # CHR 0x00 # tl (be32 2))) = 2" by (simp add: of_be32_be32)
  have "\<exists>c' h. control_read cancel_kernel 2 new_control booted = (Inr (Cancel, c'), h)"
    by (subst control_read.simps, simp add: cancel_kernel_def new_control_def booted_def control_room_def seq_g_ask seq_g_note Let_def,
        subst control_read.simps, simp add: control_room_def seq_g_ask seq_g_note Let_def,
        subst control_read.simps, use size ne in \<open>simp add: control_room_def seq_g_ask seq_g_note Let_def accept_cancel_def MAX_FRAME_def\<close>)
  then obtain c' h where run: "control_read cancel_kernel 2 new_control booted = (Inr (Cancel, c'), h)" by blast
  show ?thesis using cancel_framed [OF wf_new(1) run] run by (simp add: booted_def control_bytes_def new_control_def)
qed

section \<open>The loop ends once the peer is gone\<close>

lemma emits_UNIV: "moves (discreet A) m \<Longrightarrow> moves (emits UNIV) m"
  by (erule moves_mono) (auto simp: discreet_def intro: emits_mono)

lemma cleanup_UNIV: "moves (emits UNIV) (tree_cleanup K)" "moves (emits UNIV) (root_exited K)"
  by (rule moves_mono [OF tree_cleanup_emits] moves_mono [OF root_exited_emits], erule emits_mono, simp)+

lemma after_control_moves:
  "moves (emits UNIV) (on_control K ev s)" "moves (emits UNIV) (on_exit K s)"
  unfolding on_control_def on_exit_def by (intro emits_rules cleanup_UNIV)+

lemma asks_then:
  assumes "\<And>a. moves (emits UNIV) (f a)" shows "gu_step g < gu_step (snd (seq (g_ask h) f g))"
proof -
  have "emits UNIV k (snd (f a k))" for a k using assms by (simp add: moves_def)
  then show ?thesis unfolding emits_def seq_g_ask by (metis Suc_le_lessD guest.select_convs(1) guest.surjective guest.update_convs(1))
qed

lemma then_moves:
  assumes "\<And>g. gu_step g < gu_step (snd (m g))" "\<And>x. moves (emits UNIV) (k x)"
  shows "gu_step g < gu_step (snd (seq m k g))"
proof (cases "m g")
  case (Pair r h)
  then have "gu_step g < gu_step h" using assms(1) [of g] by simp
  moreover have "gu_step h \<le> gu_step (snd (k x h))" for x using assms(2) by (simp add: moves_def emits_def)
  ultimately show ?thesis using Pair by (cases r) (auto simp: seq_def intro: less_le_trans)
qed

lemma control_read_asks: "gu_step g < gu_step (snd (control_read K v c g))"
  by (subst control_read.simps, rule asks_then) (intro emits_rules emits_UNIV [OF control_read_quiet] UNIV_I)

lemma run_step_asks: "gu_step g < gu_step (snd (run_step K v input s g))"
  unfolding run_step_def
  by (rule then_moves [OF control_read_asks])
    (intro emits_rules after_control_moves emits_UNIV [OF out_flush_quiet] emits_UNIV [OF feed_stdin_quiet]
      emits_UNIV [OF read_pipes_quiet] emits_UNIV [OF poll_wait_quiet [of UNIV]])

definition peer_gone :: "kernel \<Rightarrow> nat \<Rightarrow> bool" where
  "peer_gone K N \<longleftrightarrow> (\<forall>n room. N \<le> n \<longrightarrow> settle_read (k_read K n Socket room) = Got [])"

lemma run_step_gone: "peer_gone K N \<Longrightarrow> N \<le> gu_step g \<Longrightarrow> fst (run_step K v input s g) = Inr Stop"
  by (simp add: run_step_def seq_def, subst control_read.simps) (simp add: peer_gone_def seq_g_ask)

lemma run_loop_ends: "peer_gone K N \<Longrightarrow> N - gu_step g < n \<Longrightarrow> \<exists>r. run_loop K v input n s g = Some r"
proof (induction n arbitrary: s g)
  case (Suc n)
  obtain p h where step: "run_step K v input s g = (p, h)" by (cases "run_step K v input s g")
  show ?case
  proof (cases "N \<le> gu_step g")
    case True
    then have "p = Inr Stop" using run_step_gone [OF Suc.prems(1) True, of v input s] step by simp
    then show ?thesis using step by simp
  next
    case False
    have "gu_step g < gu_step h" using run_step_asks [of g K v input s] step by simp
    then have "N - gu_step h < n" using Suc.prems(2) False by simp
    then show ?thesis using Suc.IH [OF Suc.prems(1)] step by (auto split: sum.split progress.split)
  qed
qed simp

text \<open>C36: A connection of the guest ends once its peer is gone: if from some moment on reading the connection finds its end, then
  \<open>serve_connection\<close> returns, within as many rounds of its loop, whatever the command and its pipes do.\<close>

theorem serve_ends:
  assumes "peer_gone K N"
  shows "\<exists>r. serve_connection K (Suc N) g = Some r"
proof -
  have loop: "\<exists>r. run_loop K v input (Suc N) s h = Some r" for v input s h
    by (rule run_loop_ends [OF assms]) simp
  have "run_command K v input (Suc N) h \<noteq> None" for v input h
    using loop by (auto simp: run_command_def simp del: run_loop.simps each.simps split: sum.split prod.split)
  then have "execute K (Suc N) h \<noteq> None" for h
    by (simp add: execute_def del: not_None_eq split: sum.split prod.split)
  then have "serve_connection K (Suc N) g \<noteq> None"
    by (simp add: serve_connection_def del: not_None_eq split: sum.split prod.split bool.split)
  then show ?thesis by blast
qed

definition leaving_kernel :: kernel where
  "leaving_kernel = sample_kernel\<lparr>k_read := (\<lambda>n fd room. if n < 40 then ReadBlocks else Got [])\<rparr>"

theorem serve_ends_witness: "\<exists>r. serve_connection leaving_kernel 41 booted = Some r"
  using serve_ends [of leaving_kernel 40 booted] by (simp add: peer_gone_def leaving_kernel_def eval_nat_numeral)

end
