(* ===== verification/GuestOutput.thy ===== *)
theory GuestOutput
  imports GuestFlow
begin

text \<open>
  The output of a command reaches the peer unchanged: what the guest sends is the sequence of frames of what
  it read from the two pipes, and the exit frame only comes after the end of both and a certified
  cleanup.
\<close>

section \<open>The flow through the loop\<close>

definition exit_bytes :: "kernel \<Rightarrow> int \<Rightarrow> guest \<Rightarrow> string" where
  "exit_bytes K v g = frame_bytes 1 (k_print K (exited_json v (the (gu_status g))))"

definition flow :: "kernel \<Rightarrow> int \<Rightarrow> string \<Rightarrow> guest_event list \<Rightarrow> guest_session \<Rightarrow> guest \<Rightarrow> bool" where
  "flow K v input base s g \<longleftrightarrow> (\<exists>new. gu_events g = base @ new
     \<and> sent_bytes new @ drop (ou_sent (se_output s)) (ou_bytes (se_output s))
         = output_frames new @ (if se_terminal s then exit_bytes K v g else [])
     \<and> fed_bytes new = take (se_input_sent s) input
     \<and> (\<not> se_stdout s \<longrightarrow> Ended Stdout \<in> set new) \<and> (\<not> se_stderr s \<longrightarrow> Ended Stderr \<in> set new)
     \<and> (se_terminal s \<longrightarrow> gu_clean g \<and> \<not> se_stdout s \<and> \<not> se_stderr s)
     \<and> (gu_clean g \<longrightarrow> gu_status g \<noteq> None)
     \<and> (ou_bytes (se_output s) = [] \<longrightarrow> ou_sent (se_output s) = 0))"

text \<open>Whatever happens, the peer has a prefix of the frames; only after both ends and a cleanup also the exit frame.\<close>

definition delivered :: "kernel \<Rightarrow> int \<Rightarrow> string \<Rightarrow> guest_event list \<Rightarrow> guest \<Rightarrow> bool" where
  "delivered K v input base g \<longleftrightarrow> (\<exists>new. gu_events g = base @ new \<and> prefix (fed_bytes new) input
     \<and> (prefix (sent_bytes new) (output_frames new)
        \<or> (Ended Stdout \<in> set new \<and> Ended Stderr \<in> set new \<and> gu_clean g \<and> gu_status g \<noteq> None
           \<and> prefix (sent_bytes new) (output_frames new @ exit_bytes K v g))))"

definition complete :: "kernel \<Rightarrow> int \<Rightarrow> guest_event list \<Rightarrow> guest \<Rightarrow> bool" where
  "complete K v base g \<longleftrightarrow> (\<exists>new. gu_events g = base @ new \<and> Ended Stdout \<in> set new \<and> Ended Stderr \<in> set new
     \<and> gu_clean g \<and> gu_status g \<noteq> None \<and> sent_bytes new = output_frames new @ exit_bytes K v g)"

lemma flow_delivered: "flow K v input base s g \<Longrightarrow> delivered K v input base g"
proof -
  assume "flow K v input base s g"
  then obtain new where n: "gu_events g = base @ new" "fed_bytes new = take (se_input_sent s) input"
      "sent_bytes new @ drop (ou_sent (se_output s)) (ou_bytes (se_output s))
         = output_frames new @ (if se_terminal s then exit_bytes K v g else [])"
      "\<not> se_stdout s \<longrightarrow> Ended Stdout \<in> set new" "\<not> se_stderr s \<longrightarrow> Ended Stderr \<in> set new"
      "se_terminal s \<longrightarrow> gu_clean g \<and> \<not> se_stdout s \<and> \<not> se_stderr s" "gu_clean g \<longrightarrow> gu_status g \<noteq> None"
    unfolding flow_def by blast
  then have "prefix (sent_bytes new) (output_frames new @ (if se_terminal s then exit_bytes K v g else []))"
    by (metis prefixI)
  then show ?thesis unfolding delivered_def using n
    by (intro exI [of _ new]) (auto simp: take_is_prefix split: if_splits)
qed

lemma flow_session [simp]:
  "flow K v input base (s\<lparr>se_control := c\<rparr>) g = flow K v input base s g"
  "flow K v input base (s\<lparr>se_stdin := b\<rparr>) g = flow K v input base s g"
  "flow K v input base (s\<lparr>se_stderr_first := b\<rparr>) g = flow K v input base s g"
  "flow K v input base s (g\<lparr>gu_step := n\<rparr>) = flow K v input base s g"
  by (simp_all add: flow_def exit_bytes_def)

lemma flow_aside:
  assumes "flow K v input base s g" "emits aside g h" "gu_clean h \<longrightarrow> gu_status h \<noteq> None"
    and "se_terminal s \<Longrightarrow> same_tree g h"
  shows "flow K v input base s h"
proof -
  obtain new more where n: "gu_events g = base @ new" "gu_events h = gu_events g @ more" "set more \<subseteq> aside"
    and rest: "sent_bytes new @ drop (ou_sent (se_output s)) (ou_bytes (se_output s))
         = output_frames new @ (if se_terminal s then exit_bytes K v g else [])"
      "fed_bytes new = take (se_input_sent s) input"
      "\<not> se_stdout s \<longrightarrow> Ended Stdout \<in> set new" "\<not> se_stderr s \<longrightarrow> Ended Stderr \<in> set new"
      "se_terminal s \<longrightarrow> gu_clean g \<and> \<not> se_stdout s \<and> \<not> se_stderr s"
      "ou_bytes (se_output s) = [] \<longrightarrow> ou_sent (se_output s) = 0"
    using assms(1,2) unfolding flow_def emits_def by blast
  have "exit_bytes K v h = exit_bytes K v g" if "se_terminal s"
    using assms(4) [OF that] by (simp add: exit_bytes_def same_tree_def)
  moreover have "se_terminal s \<longrightarrow> gu_clean h \<and> \<not> se_stdout s \<and> \<not> se_stderr s"
    using rest(5) assms(4) by (auto simp: same_tree_def)
  ultimately show ?thesis
    unfolding flow_def using n rest assms(3) aside_bytes [OF n(3)]
    by (intro exI [of _ "new @ more"]) auto
qed

lemma flow_known: "flow K v input base s g \<Longrightarrow> gu_clean g \<longrightarrow> gu_status g \<noteq> None" by (auto simp: flow_def)

lemma flow_quiet:
  assumes "moves (discreet A) m" "A \<subseteq> aside"
  shows "triple (flow K v input base s) m (\<lambda>_. flow K v input base s) (delivered K v input base)"
proof -
  have "triple (flow K v input base s) m (\<lambda>_. flow K v input base s) (flow K v input base s)"
    by (rule discreet.triple_moves [OF assms(1)], rule flow_aside)
      (use assms(2) in \<open>auto simp: discreet_def same_tree_def intro: emits_mono dest: flow_known\<close>)
  then show ?thesis by (rule triple_weaken) (auto intro: flow_delivered)
qed

subsection \<open>Cleaning up\<close>

definition known :: "guest \<Rightarrow> bool" where
  "known g \<longleftrightarrow> (gu_clean g \<longrightarrow> gu_status g \<noteq> None)"

lemma known_quiet: "moves (discreet A) m \<Longrightarrow> keeps known m"
  by (rule discreet.keeps_moves) (auto simp: known_def discreet_def same_tree_def)

lemma known_modify: "(\<And>g. known g \<Longrightarrow> known (f g)) \<Longrightarrow> keeps known (modify f)"
  by (simp add: keeps_def)

lemma known_ask: "keeps known (g_ask f)" by (rule known_quiet [OF quiet_ask])

lemma known_fail: "keeps known (fail msg)" by (simp add: keeps_def)

lemma all_gone_known: "keeps known all_gone"
  by (auto simp: keeps_def all_gone_def seq_check seq_g_note known_def)

lemma known_wait:
  "(\<And>p s. keeps I (f p s)) \<Longrightarrow> keeps I n \<Longrightarrow> keeps I c \<Longrightarrow> (\<And>b. keeps I (i b)) \<Longrightarrow> keeps I x \<Longrightarrow>
     keeps I (case a of Reaps p s \<Rightarrow> f p s | NoneYet \<Rightarrow> n | NoChild \<Rightarrow> c | WaitIntr b \<Rightarrow> i b | WaitFails \<Rightarrow> x)"
  by (cases a) simp_all

lemma cleanup_loop_known: "keeps known (cleanup_loop K outer n)"
proof (induction K outer n rule: cleanup_loop.induct)
  case (1 K outer)
  then show ?case unfolding cleanup_loop.simps timed_out_def
    by (intro keeps_rules known_quiet [OF kill_listed_quiet] known_fail)
next
  case (2 K outer n)
  have again: "keeps known (case n of 0 \<Rightarrow> fail msg | Suc t \<Rightarrow> cleanup_loop K True t)" for msg
    using 2(2) by (cases n) (auto intro: known_fail)
  show ?case unfolding cleanup_loop.simps timed_out_def note_status_def
    by (intro keeps_rules known_quiet [OF kill_listed_quiet] known_quiet [OF wait_child_quiet] known_wait known_modify all_gone_known
        known_fail again 2(1)) (auto simp: known_def)
qed

lemma tree_cleanup_known: "keeps known (tree_cleanup K)"
  unfolding tree_cleanup_def cleanup_inner_def
  by (intro keeps_rules cleanup_loop_known known_ask known_quiet [OF kill_child_quiet] known_modify) (auto simp: known_def)

lemma root_exited_known: "keeps known (root_exited K)"
  unfolding root_exited_def
  by (intro keeps_rules known_wait known_quiet [OF wait_child_quiet] known_modify known_fail) (auto simp: known_def)

lemma tree_cleanup_clean: "gu_clean g \<Longrightarrow> tree_cleanup K g = (Inr (), g)"
  by (simp add: tree_cleanup_def cleanup_inner_def modify_def seq_def)

lemma flow_cleanup: "triple (flow K v input base s) (tree_cleanup K) (\<lambda>_. flow K v input base s) (delivered K v input base)"
proof -
  have "flow K v input base s (snd (tree_cleanup K g))" if f: "flow K v input base s g" for g
  proof (cases "gu_clean g")
    case True
    then show ?thesis using f by (simp add: tree_cleanup_clean)
  next
    case False
    have "emits aside g (snd (tree_cleanup K g))"
      using tree_cleanup_emits [of K] emits_mono [of "insert AllGone signs" _ _ aside] by (auto simp: moves_def aside_def)
    moreover have "known (snd (tree_cleanup K g))"
      using keepsD [OF tree_cleanup_known] flow_known [OF f] by (simp add: known_def)
    moreover have "\<not> se_terminal s" using f False by (auto simp: flow_def)
    ultimately show ?thesis using flow_aside [OF f] by (simp add: known_def)
  qed
  then have "triple (flow K v input base s) (tree_cleanup K) (\<lambda>_. flow K v input base s) (flow K v input base s)"
    unfolding keeps_triple [symmetric] by (simp add: keeps_def)
  then show ?thesis by (rule triple_weaken) (auto intro: flow_delivered)
qed

lemma flow_root_exited:
  assumes "\<not> se_terminal s"
  shows "triple (flow K v input base s) (root_exited K) (\<lambda>_. flow K v input base s) (delivered K v input base)"
proof -
  have "flow K v input base s (snd (root_exited K g))" if f: "flow K v input base s g" for g
  proof -
    have "emits aside g (snd (root_exited K g))"
      using root_exited_emits [of K] emits_mono [of signs _ _ aside] by (auto simp: moves_def aside_def)
    moreover have "known (snd (root_exited K g))"
      using keepsD [OF root_exited_known] flow_known [OF f] by (simp add: known_def)
    ultimately show ?thesis using flow_aside [OF f] assms by (simp add: known_def)
  qed
  then have "triple (flow K v input base s) (root_exited K) (\<lambda>_. flow K v input base s) (flow K v input base s)"
    unfolding keeps_triple [symmetric] by (simp add: keeps_def)
  then show ?thesis by (rule triple_weaken) (auto intro: flow_delivered)
qed

lemma flow_on_control:
  "triple (flow K v input base s) (on_control K ev s) (\<lambda>s. flow K v input base s) (delivered K v input base)"
proof -
  have "triple (flow K v input base s) (seq (tree_cleanup K) (\<lambda>_. ret (s\<lparr>se_stdin := False\<rparr>)))
    (\<lambda>s. flow K v input base s) (delivered K v input base)"
    by (rule triple_seq [OF flow_cleanup]) (simp add: triple_def)
  then show ?thesis unfolding on_control_def by (cases ev) (simp_all add: triple_def)
qed

lemma flow_on_exit: "triple (flow K v input base s) (on_exit K s) (\<lambda>s. flow K v input base s) (delivered K v input base)"
proof (cases "se_terminal s")
  case True
  have "on_exit K s g = (Inr s, g)" if "flow K v input base s g" for g
    using that True by (auto simp: on_exit_def flow_def)
  then show ?thesis by (simp add: triple_def)
next
  case False
  show ?thesis unfolding on_exit_def
    by (intro triple_gets triple_if triple_ret triple_pre [OF triple_seq [OF flow_root_exited [OF False]]] triple_seq [OF flow_cleanup])
      simp_all
qed

subsection \<open>The socket, the input and the pipes\<close>

lemma flow_sent:
  "flow K v input base s g \<Longrightarrow> ou_sent (se_output s) < length (ou_bytes (se_output s)) \<Longrightarrow>
    flow K v input base (s\<lparr>se_output := (se_output s)\<lparr>ou_sent := ou_sent (se_output s) + length (take m (drop (ou_sent (se_output s)) (ou_bytes (se_output s))))\<rparr>\<rparr>)
      (g\<lparr>gu_events := gu_events g @ [Sent (take m (drop (ou_sent (se_output s)) (ou_bytes (se_output s))))]\<rparr>)"
proof -
  assume f: "flow K v input base s g" and l: "ou_sent (se_output s) < length (ou_bytes (se_output s))"
  define r where "r = drop (ou_sent (se_output s)) (ou_bytes (se_output s))"
  have "take m r @ drop (length (take m r)) r = r" by (metis append_take_drop_id length_take take_take min.idem drop_all le_cases min.absorb1 min.absorb2 append_Nil2 take_all)
  then have "take m r @ drop (ou_sent (se_output s) + length (take m r)) (ou_bytes (se_output s)) = r"
    by (simp add: r_def add.commute)
  then show ?thesis using f l unfolding flow_def r_def [symmetric]
    by (auto simp: exit_bytes_def)
qed

lemma flow_flush:
  "triple (flow K v input base s) (out_flush K (se_output s)) (\<lambda>out. flow K v input base (s\<lparr>se_output := out\<rparr>)) (delivered K v input base)"
proof (induction "length (ou_bytes (se_output s)) - ou_sent (se_output s)" arbitrary: s rule: less_induct)
  case less
  let ?out = "se_output s"
  let ?rest = "drop (ou_sent ?out) (ou_bytes ?out)"
  let ?next = "\<lambda>m. s\<lparr>se_output := ?out\<lparr>ou_sent := ou_sent ?out + length (take m ?rest)\<rparr>\<rparr>"
  show ?case
  proof (cases "ou_sent ?out < length (ou_bytes ?out)")
    case False
    then have "flow K v input base (s\<lparr>se_output := ?out\<lparr>ou_bytes := [], ou_sent := 0\<rparr>\<rparr>) g" if "flow K v input base s g" for g
      using that by (auto simp: flow_def exit_bytes_def)
    then show ?thesis using False by (subst out_flush.simps) (simp add: triple_def)
  next
    case True
    have wrote: "triple (flow K v input base s) (seq (g_note (Sent (take m ?rest)))
        (\<lambda>_. out_flush K (?out\<lparr>ou_sent := ou_sent ?out + length (take m ?rest)\<rparr>)))
      (\<lambda>out. flow K v input base (s\<lparr>se_output := out\<rparr>)) (delivered K v input base)" if "m \<noteq> 0" for m
      unfolding triple_def
    proof (intro allI impI)
      fix g assume f: "flow K v input base s g"
      note f' = flow_sent [OF f True, of m]
      have "length (ou_bytes (se_output (?next m))) - ou_sent (se_output (?next m)) < length (ou_bytes ?out) - ou_sent ?out"
        using True that by simp
      then show "case seq (g_note (Sent (take m ?rest))) (\<lambda>_. out_flush K (?out\<lparr>ou_sent := ou_sent ?out + length (take m ?rest)\<rparr>)) g of
          (Inl e, w') \<Rightarrow> delivered K v input base w' | (Inr x, w') \<Rightarrow> flow K v input base (s\<lparr>se_output := x\<rparr>) w'"
        using less [of "?next m"] f' unfolding triple_def seq_g_note by (auto split: sum.splits prod.splits)
    qed
    show ?thesis
      unfolding out_flush.simps [of K ?out] if_P [OF True] Let_def
    proof (rule triple_seq [OF flow_quiet [OF quiet_ask, of "{}"]])
      fix a
      show "triple (flow K v input base s) (case a of
          Wrote m \<Rightarrow> if m = 0 then fail ''write zero''
            else seq (g_note (Sent (take m ?rest))) (\<lambda>_. out_flush K (?out\<lparr>ou_sent := ou_sent ?out + length (take m ?rest)\<rparr>))
        | WriteBlocks \<Rightarrow> ret ?out | _ \<Rightarrow> fail ''os error'')
        (\<lambda>out. flow K v input base (s\<lparr>se_output := out\<rparr>)) (delivered K v input base)"
        using wrote by (cases a) (auto simp: triple_def flow_delivered)
    qed simp
  qed
qed

lemma flow_feed:
  "triple (flow K v input base s) (feed_stdin K input s) (\<lambda>s. flow K v input base s) (delivered K v input base)"
proof (cases "se_stdin s")
  case True
  let ?rest = "drop (se_input_sent s) input"
  have fed: "flow K v input base (s\<lparr>se_input_sent := se_input_sent s + length (take m ?rest), se_stdin := b\<rparr>)
      (g\<lparr>gu_events := gu_events g @ [Fed (take m ?rest)]\<rparr>)" if "flow K v input base s g" for g m b
  proof -
    have "take (se_input_sent s + length (take m ?rest)) input = take (se_input_sent s) input @ take m ?rest"
      by (cases "m \<le> length input - se_input_sent s") (simp_all add: take_add min_def)
    then show ?thesis using that by (auto simp: flow_def exit_bytes_def)
  qed
  show ?thesis
    unfolding feed_stdin_def Let_def using True
  proof (simp, intro triple_seq [OF flow_quiet [OF quiet_ask, of "{}"]])
    fix a
    show "triple (flow K v input base s) (case a of
          Wrote m \<Rightarrow> seq (g_note (Fed (take m ?rest))) (\<lambda>_. ret (s\<lparr>se_input_sent := se_input_sent s + min (length input - se_input_sent s) m,
              se_stdin := se_input_sent s + min (length input - se_input_sent s) m \<noteq> length input\<rparr>))
        | WriteBroken \<Rightarrow> ret (s\<lparr>se_stdin := False\<rparr>)
        | WriteFails \<Rightarrow> fail ''os error''
        | _ \<Rightarrow> ret s) (flow K v input base) (delivered K v input base)"
      using fed by (cases a) (auto simp: triple_def seq_g_note flow_delivered)
  qed simp
qed (simp add: feed_stdin_def triple_def)

text \<open>A read of a pipe, for any statement \<open>F\<close> about whether it is open and the frame in flight.\<close>

lemma out_pipe_triple:
  assumes ended: "\<And>g. F True out g \<Longrightarrow> out_empty out \<Longrightarrow> F False out (g\<lparr>gu_events := gu_events g @ [Ended fd]\<rparr>)"
    and got: "\<And>g b. F True out g \<Longrightarrow> out_empty out \<Longrightarrow>
      F True (out\<lparr>ou_bytes := frame_bytes kind b\<rparr>) (g\<lparr>gu_events := gu_events g @ [Received fd b]\<rparr>)"
    and step: "\<And>g n. F True out g \<Longrightarrow> F True out (g\<lparr>gu_step := n\<rparr>)"
    and D: "\<And>b g. F b out g \<Longrightarrow> D g"
  shows "triple (F open' out) (out_pipe K fd kind (open', out)) (\<lambda>(b, out). F b out) D"
proof (cases "out_empty out \<and> open'")
  case True
  show ?thesis
    unfolding triple_def
  proof (intro allI impI)
    fix g assume "F open' out g"
    then have F: "F True out (g\<lparr>gu_step := Suc (gu_step g)\<rparr>)" using True step by simp
    show "case out_pipe K fd kind (open', out) g of (Inl e, w') \<Rightarrow> D w' | (Inr x, w') \<Rightarrow> (case x of (b, out) \<Rightarrow> F b out) w'"
      using F True ended [OF F] got [OF F] D
      by (auto simp: out_pipe_def seq_g_ask seq_g_note Let_def split: read_answer.split)
  qed
next
  case False
  then have "out_pipe K fd kind (open', out) = ret (open', out)" by (auto simp: out_pipe_def)
  then show ?thesis by (simp add: triple_def)
qed

lemma flow_stdout:
  "\<not> se_terminal s \<Longrightarrow> triple (flow K v input base (s\<lparr>se_stdout := b, se_output := out\<rparr>)) (out_pipe K Stdout 2 (b, out))
    (\<lambda>(b, out). flow K v input base (s\<lparr>se_stdout := b, se_output := out\<rparr>)) (delivered K v input base)"
proof (rule out_pipe_triple [where F = "\<lambda>b out. flow K v input base (s\<lparr>se_stdout := b, se_output := out\<rparr>)"], goal_cases)
  case (4 b g)
  show ?case by (rule flow_delivered [OF 4(2)])
qed (auto simp: flow_def out_empty_def exit_bytes_def)

lemma flow_stderr:
  "\<not> se_terminal s \<Longrightarrow> triple (flow K v input base (s\<lparr>se_stderr := b, se_output := out\<rparr>)) (out_pipe K Stderr 3 (b, out))
    (\<lambda>(b, out). flow K v input base (s\<lparr>se_stderr := b, se_output := out\<rparr>)) (delivered K v input base)"
proof (rule out_pipe_triple [where F = "\<lambda>b out. flow K v input base (s\<lparr>se_stderr := b, se_output := out\<rparr>)"], goal_cases)
  case (4 b g)
  show ?case by (rule flow_delivered [OF 4(2)])
qed (auto simp: flow_def out_empty_def exit_bytes_def)

lemma pipes_commute: "s\<lparr>se_stderr := d, se_stdout := a\<rparr> = s\<lparr>se_stdout := a, se_stderr := d\<rparr>" by (cases s) simp

lemma flow_read_both:
  assumes "\<not> se_terminal s"
  shows "triple (flow K v input base s) (read_both K s) (\<lambda>s' g. flow K v input base s' g \<and> \<not> se_terminal s') (delivered K v input base)"
proof (cases "se_stderr_first s")
  case True
  show ?thesis unfolding read_both_def if_P [OF True]
  proof (rule triple_seq [OF triple_pre [OF flow_stderr [OF assms, where b = "se_stderr s" and out = "se_output s"]]], goal_cases)
    case (2 p)
    obtain d out where p: "p = (d, out)" by (cases p)
    show ?case unfolding p prod.case
      by (rule triple_seq [OF triple_pre [OF flow_stdout [where s = "s\<lparr>se_stderr := d\<rparr>" and b = "se_stdout s" and out = out]]])
        (use assms in \<open>auto simp: triple_def pipes_commute\<close>)
  qed simp
next
  case False
  show ?thesis unfolding read_both_def if_not_P [OF False]
  proof (rule triple_seq [OF triple_pre [OF flow_stdout [OF assms, where b = "se_stdout s" and out = "se_output s"]]], goal_cases)
    case (2 p)
    obtain d out where p: "p = (d, out)" by (cases p)
    show ?case unfolding p prod.case
      by (rule triple_seq [OF triple_pre [OF flow_stderr [where s = "s\<lparr>se_stdout := d\<rparr>" and b = "se_stderr s" and out = out]]])
        (use assms in \<open>auto simp: triple_def pipes_commute\<close>)
  qed simp
qed

lemma flow_finish_output:
  "\<not> se_terminal s \<Longrightarrow> triple (flow K v input base s) (finish_output K v s) (\<lambda>s. flow K v input base s) (delivered K v input base)"
  unfolding triple_def finish_output_def out_exited_def Let_def
  by (auto simp: seq_def flow_delivered ensure_def)
    (auto simp: flow_def out_empty_def exit_bytes_def)

lemma flow_read_pipes:
  "triple (flow K v input base s) (read_pipes K v s) (\<lambda>s. flow K v input base s) (delivered K v input base)"
proof (cases "se_terminal s \<or> \<not> out_empty (se_output s)")
  case False
  then have t: "\<not> se_terminal s" by simp
  show ?thesis unfolding read_pipes_def if_not_P [OF False]
  proof (rule triple_seq [OF flow_read_both [OF t]])
    fix s'
    show "triple (\<lambda>g. flow K v input base s' g \<and> \<not> se_terminal s')
      (finish_output K v (s'\<lparr>se_stderr_first := \<not> se_stderr_first s'\<rparr>)) (\<lambda>s. flow K v input base s) (delivered K v input base)"
      using flow_finish_output [of "s'\<lparr>se_stderr_first := \<not> se_stderr_first s'\<rparr>" K v input base] by (auto simp: triple_def)
  qed
qed (simp add: read_pipes_def triple_def)

section \<open>The loop\<close>

definition peer_left :: "kernel \<Rightarrow> bool" where
  "peer_left K \<longleftrightarrow> (\<exists>n room. settle_read (k_read K n Socket room) = Got [])"

lemma control_read_left: "wf_control c \<Longrightarrow> yields (control_read K v c) (\<lambda>(ev, c'). ev = Disconnected \<longrightarrow> peer_left K)"
proof (induction c rule: measure_induct_rule [of control_need])
  case (less c)
  have IH: "yields (control_read K v c') (\<lambda>(ev, c'). ev = Disconnected \<longrightarrow> peer_left K)" if "control_need c' < control_need c" "wf_control c'" for c'
    using less that by blast
  have room: "0 < control_room c" using less.prems by (auto simp: wf_control_def control_room_def split: if_splits)
  have answered: "yields (seq (g_ask f) k) Q" if "\<And>n. yields (k (f n)) Q" for f k and Q :: "control_event \<times> control \<Rightarrow> bool"
    using that by (simp add: yields_def triple_def seq_g_ask)
  have left: "take (control_room c) bytes = [] \<Longrightarrow> settle_read (k_read K n Socket (control_room c)) = Got bytes \<Longrightarrow> peer_left K" for n bytes
    unfolding peer_left_def using room by auto
  show ?case
    by (subst control_read.simps, intro answered, split read_answer.split, unfold Let_def,
        intro conjI allI impI yields_if yields_then yields_ret yields_fail IH)
      (use less.prems left in \<open>auto simp: control_header control_full_header control_more_body\<close>)
qed

lemma flow_complete:
  "flow K v input base s g \<Longrightarrow> se_terminal s \<Longrightarrow> out_empty (se_output s) \<Longrightarrow> complete K v base g"
  unfolding flow_def complete_def by (auto simp: out_empty_def)

lemma flow_run_step:
  assumes "wf_session input s"
  shows "triple (flow K v input base s) (run_step K v input s)
    (\<lambda>p g. case p of Go s' \<Rightarrow> flow K v input base s' g | Stop \<Rightarrow> delivered K v input base g \<and> (complete K v base g \<or> peer_left K))
    (delivered K v input base)"
proof -
  have wf: "wf_control (se_control s)" using assms by (simp add: wf_session_def)
  have read: "triple (flow K v input base s) (control_read K v (se_control s))
      (\<lambda>(ev, c) g. flow K v input base s g \<and> (ev = Disconnected \<longrightarrow> peer_left K)) (delivered K v input base)"
  proof -
    have "triple (flow K v input base s) (control_read K v (se_control s)) (\<lambda>_. flow K v input base s) (delivered K v input base)"
      by (rule flow_quiet [OF control_read_quiet]) (auto simp: aside_def)
    then show ?thesis using control_read_left [OF wf, of K v]
      unfolding yields_def triple_def by (fastforce split: sum.splits prod.splits)
  qed
  have poll: "triple (flow K v input base s') (poll_wait K s')
      (\<lambda>p g. case p of Go s' \<Rightarrow> flow K v input base s' g | Stop \<Rightarrow> delivered K v input base g \<and> (complete K v base g \<or> peer_left K))
      (delivered K v input base)" for s'
    by (auto simp: poll_wait_def triple_def seq_g_ask seq_check flow_delivered)
  show ?thesis
    unfolding run_step_def
  proof (rule triple_seq [OF read], goal_cases)
    case (1 evc)
    obtain ev c where evc: "evc = (ev, c)" by (cases evc)
    show ?case
    proof (cases "ev = Disconnected")
      case True
      then show ?thesis using evc by (auto simp: triple_def intro: flow_delivered)
    next
      case False
      have finish: "triple (flow K v input base (s'\<lparr>se_output := out\<rparr>))
        (if se_terminal s' \<and> out_empty out then ret Stop
         else seq (feed_stdin K input (s'\<lparr>se_output := out\<rparr>)) (\<lambda>s. seq (read_pipes K v s) (poll_wait K)))
        (\<lambda>p g. case p of Go s' \<Rightarrow> flow K v input base s' g | Stop \<Rightarrow> delivered K v input base g \<and> (complete K v base g \<or> peer_left K))
        (delivered K v input base)" for s' out
      proof (rule triple_if, goal_cases)
        case 1
        have "delivered K v input base g \<and> complete K v base g" if "flow K v input base (s'\<lparr>se_output := out\<rparr>) g" for g
          using flow_complete [OF that] flow_delivered [OF that] 1 by simp
        then show ?case by (simp add: triple_def)
      next
        case 2
        show ?case by (intro triple_seq [OF flow_feed] triple_seq [OF flow_read_pipes] poll)
      qed
      show ?thesis unfolding evc prod.case if_not_P [OF False]
        by (rule triple_pre [OF triple_seq [OF flow_on_control triple_seq [OF flow_on_exit triple_seq [OF flow_flush finish]]]]) simp
    qed
  qed
qed

lemma flow_run_loop:
  "wf_session input s \<Longrightarrow> flow K v input base s g \<Longrightarrow> run_loop K v input n s g = Some (r, h) \<Longrightarrow>
     delivered K v input base h \<and> (is_ok r \<longrightarrow> complete K v base h \<or> peer_left K)"
proof (induction n arbitrary: s g)
  case (Suc n)
  obtain p k where step: "run_step K v input s g = (p, k)" by (cases "run_step K v input s g")
  note t = flow_run_step [OF Suc.prems(1), of K v base]
  show ?case
  proof (cases p)
    case (Inl e)
    then show ?thesis using Suc.prems(3) step tripleD_Inl [OF t Suc.prems(2), of e k] by auto
  next
    case (Inr x)
    note x = tripleD_Inr [OF t Suc.prems(2), of x k, unfolded step Inr, OF refl]
    show ?thesis
    proof (cases x)
      case Stop
      then show ?thesis using Suc.prems(3) step Inr x by auto
    next
      case (Go s')
      have "wf_session input s'" using yieldsD [OF run_step_wf [OF Suc.prems(1)], of K v g x k] step Inr Go by simp
      then show ?thesis using Suc.IH [of s' k] Suc.prems(3) step Inr Go x by simp
    qed
  qed
qed simp

text \<open>C33: The output of a command reaches the peer unchanged: however reads and writes are cut, interrupted or blocked, what was
  sent after the start of a command is a prefix of the frames of what was read from its two pipes, in the order of the
  reads; the exit frame is only sent after the end of both pipes and a certified cleanup; a loop that
  ends well has sent all of it unless the peer left; and what the command was fed is a prefix of its input.\<close>

theorem output_delivered:
  assumes "run_command K v input n g = Some (r, h)" and "\<not> gu_clean g"
  shows "delivered K v input (gu_events g) h \<and> (is_ok r \<longrightarrow> complete K v (gu_events g) h \<or> peer_left K)"
proof -
  have start: "flow K v input (gu_events g) new_session g"
    using assms(2) by (simp add: flow_def new_session_def new_output_def)
  have "moves (discreet {}) (each (nonblocking K) [Socket, Stdin, Stdout, Stderr])"
    by (rule discreet.each_moves) (rule nonblocking_quiet)
  then have t: "triple (flow K v input (gu_events g) new_session) (each (nonblocking K) [Socket, Stdin, Stdout, Stderr])
      (\<lambda>_. flow K v input (gu_events g) new_session) (delivered K v input (gu_events g))"
    by (rule flow_quiet) simp
  obtain q k where set: "each (nonblocking K) [Socket, Stdin, Stdout, Stderr] g = (q, k)"
    by (cases "each (nonblocking K) [Socket, Stdin, Stdout, Stderr] g")
  show ?thesis
  proof (cases q)
    case (Inl e)
    then show ?thesis using assms(1) set tripleD_Inl [OF t start, of e k] by (auto simp: run_command_def simp del: each.simps)
  next
    case (Inr u)
    then have "run_loop K v input n new_session k = Some (r, h)" using assms(1) set by (simp add: run_command_def del: each.simps)
    then show ?thesis using flow_run_loop [OF wf_new(3) tripleD_Inr [OF t start, of u k]] set Inr by simp
  qed
qed

theorem output_delivered_witness:
  "\<exists>h. run_command sample_kernel 2 ''r'' 3 (booted\<lparr>gu_step := 8, gu_root := 7, gu_clean := False\<rparr>) = Some (Inr (), h)
     \<and> gu_events h = [Reaped 7, Listed ''12 13'', Killed 12, Killed 13, Reaped 12, Reaped 13, AllGone, Received Stdout ''hi'',
         Sent (frame_bytes 2 ''hi''), Ended Stderr, Ended Stdout, Sent (frame_bytes 1 ''r'')]
     \<and> delivered sample_kernel 2 ''r'' [] h"
proof -
  let ?g = "booted\<lparr>gu_step := 8, gu_root := 7, gu_clean := False\<rparr>"
  have fuel: "3 = Suc (Suc (Suc 0))" by simp
  have "\<exists>h. run_command sample_kernel 2 ''r'' 3 ?g = Some (Inr (), h)
     \<and> gu_events h = [Reaped 7, Listed ''12 13'', Killed 12, Killed 13, Reaped 12, Reaped 13, AllGone, Received Stdout ''hi'',
         Sent (frame_bytes 2 ''hi''), Ended Stderr, Ended Stdout, Sent (frame_bytes 1 ''r'')]"
    unfolding fuel by (simp add: run_command_def nonblocking_def run_eval sample_step1 sample_step2 sample_step3 booted_def ensure_def)
  then show ?thesis using output_delivered [of sample_kernel 2 "''r''" 3 ?g] by (force simp: booted_def)
qed

end
