(* ===== verification/Spec2Isabelle.thy ===== *)
theory Spec2Isabelle
  imports Program NetworkRequests GuestSafety GuestOutput
begin

text \<open>
  A verification library for \<open>sower\<close>: the Rust program under \<open>src/src\<close> and the command runner of a guest under
  \<open>src/guest\<close>.

  \<^bold>\<open>The program.\<close>  One binary has six commands (\<open>src/src/main.rs\<close>).  \<open>sower activator\<close> is started by systemd once per
  connection, as root: it decides whether the peer may activate a system or only use the network commands, reads one
  request, runs it and answers line by line (\<open>commands/activator\<close>).  An activation runs programs of the Nix store, or
  switches the profile of system services.  The network commands give a job of a garden a tap interface with an
  address of its own: leases are files of a journal, and the host is changed by \<open>ip\<close>, \<open>nft\<close>, \<open>udevadm\<close> and \<open>conntrack\<close>.
  \<open>sower seed\<close> and \<open>sower deploy\<close> build, copy, register and deploy artifacts, through the server or over SSH with the framed
  output of a remote activator; \<open>sower garden\<close> talks to the garden's socket; \<open>sower build\<close> forwards its arguments.  The guest
  program runs one command at a time inside a virtual machine, for the peer of a vsock connection.

  \<^bold>\<open>Common ground.\<close>  \<open>Prelude\<close>: errors (\<open>anyhow\<close>) as a datatype with contexts, results as sums, the string functions of
  Rust's library.  \<open>Effects\<close>: stateful code as a function from a state to a result and a state (\<open>seq\<close>, \<open>attempt\<close>,
  \<open>ctx\<close>, \<open>check\<close>), so that an early return by \<open>?\<close> keeps what was done before it; triples with an error
  postcondition, and the locale \<open>step_preorder\<close> of relations that every step of a piece of code stays in.
  \<open>Interfaces\<close>: the contracts between components as locales, each interpreted on the model's definitions: \<open>record_store\<close>
  (the journal, by \<open>NetworkStore\<close>), \<open>chunk_consumer\<close> (the SSH decoder), \<open>monitor\<close> (the events of the guest), \<open>layered\<close>
  (configuration files).  \<open>Numbers\<close>, \<open>Ipv4\<close>, \<open>Utf8\<close>, \<open>Json\<close>: the parts of the standard library and of \<open>serde_json::Value\<close> that the
  sources use, with the forms in which \<open>serde\<close> accepts a struct or a unit variant.

  \<^bold>\<open>The activator's network\<close> (\<open>network_policy.rs\<close>, \<open>network.rs\<close>, \<open>network_host.rs\<close>).  \<open>NetworkPolicy\<close>: subnets, the
  validation of a policy, the slots of its pool and their addresses, on 32-bit words.  \<open>Lease\<close>: lease records, the
  identity of an owner from \<open>/proc\<close>.  \<open>World\<close>: files, locks, the host behind its tools (\<open>tools\<close>, a parameter), and a
  script of system call outcomes: each of them can work, fail, or kill the process.  \<open>NetworkHost\<close>: the scripts for the
  firewall, the routes that are looked at, the interface.  \<open>NetworkStore\<close>: secure paths, locks, the journal, and
  every operation (\<open>reserve\<close>, \<open>provision\<close>, \<open>revoke\<close>, \<open>release\<close>, \<open>operate\<close>, \<open>store_cleanup\<close>); \<open>w_cur\<close> of the world is the
  lease that the code passes by mutable reference.  \<open>NetworkService\<close>: \<open>request\<close> and \<open>cleanup\<close>.
  \<open>NetworkSafety\<close>, \<open>NetworkReserve\<close>, \<open>NetworkOrder\<close> and \<open>NetworkOwners\<close> show what the operations keep, whatever fails: the journal
  stays readable and its slots disjoint, no interface is left without a record, the firewall stands before an
  interface comes up, only the owner changes a lease, the cleanup spares the living.
  \<open>NetworkArena\<close> is the abstract machine of several processes on one journal, with the per-execution locks: no two leases
  ever share a slot, one process at a time works on a lease, a lease has one history.  In it the scan and the write of a
  reservation are one step, because the code does both under the global lock.  \<open>NetworkRuns\<close> and \<open>NetworkRequests\<close>
  show that every request, under every script of failures, is a run of that machine's steps.

  \<^bold>\<open>The activator's requests\<close> (\<open>activate.rs\<close>, \<open>services.rs\<close>, \<open>handler.rs\<close>, \<open>mod.rs\<close>, \<open>peercred.rs\<close>, \<open>protocol.rs\<close>, \<open>log_tee.rs\<close>).
  \<open>Protocol\<close>: requests and responses.  \<open>Activation\<close>: authorization, the callback that gets the log lines, the two output pipes in
  any interleaving (\<open>cm_order\<close>), the profile of services with its atomically replaced link.  The locale
  \<open>activation_step\<close> states once what a relation needs to be kept by all of it.  \<open>Handler\<close>: one request, with responses that
  may fail to be written and the lock that \<open>send_response\<close> holds meanwhile (\<open>se_stuck\<close>).  \<open>Activator\<close>: the two modes and
  the cleanup as one run.

  \<^bold>\<open>The client commands.\<close>  \<open>Outside\<close>: a \<open>site\<close> answers the \<open>n\<close>-th question (a program, a file, the server, SSH), and a
  run keeps what it did as events.  \<open>SshTarget\<close>, \<open>RemoteCommand\<close>, \<open>SshDecoder\<close> (\<open>deploy/sudo.rs\<close>): targets, the quoted remote
  command line with a reader of shell words that shows what a shell sees, and the decoder of framed output, whose result does not
  depend on how the stream is cut.  \<open>SeedOps\<close> (\<open>commands/seed\<close>), \<open>DeployRef\<close> and \<open>Deploy\<close> (\<open>commands/deploy.rs\<close>) with
  \<open>DeploySafety\<close>: which programs run in which order, what is created at the server, that waiting ends.
  \<open>ClientConfig\<close> (\<open>commands/client\<close>, \<open>garden/config.rs\<close>): where the endpoint, the token and the socket come from.  \<open>Garden\<close>
  (\<open>commands/garden\<close>): requests, the capped line reader, replies.  \<open>BuildForward\<close> (\<open>commands/build.rs\<close>): the forwarded command
  line.  \<open>Program\<close> (\<open>main.rs\<close>, \<open>ui.rs\<close>) composes all commands and shows which of them can change what.

  \<^bold>\<open>The guest\<close> (\<open>src/guest/src\<close>).  \<open>GuestHost\<close>: the kernel as a parameter that answers the \<open>n\<close>-th question, frames.  \<open>GuestTree\<close>:
  killing and reaping the command's processes.  \<open>Guest\<close>: cancel requests, the output frame in flight, the loop, a
  connection, and the accept loop as an inductive step relation.  \<open>GuestTrace\<close> reads the events of a run, \<open>GuestSafety\<close> states
  with two monitors that commands never overlap and only unreaped processes get signals, \<open>GuestFlow\<close> and
  \<open>GuestOutput\<close> what goes over the connection, \<open>GuestSample\<close> is a kernel for the witnesses.

  \<^bold>\<open>Bounds and fuel.\<close>  The guest's \<open>run_loop\<close> takes a number of rounds and gives \<open>None\<close> when it has not returned by then;
  \<open>GuestFlow\<close> shows that some number is enough once the peer is gone.  The clock of its cleanup is \<open>k_ticks\<close>, the number of
  looks at it before the deadline; a system call repeated on \<open>EINTR\<close> has a nested answer, so it is interrupted finitely
  often.  \<open>wait_loop\<close> of a deployment takes a number of polls, since the server may never finish; \<open>DeploySafety\<close> says when it
  does.  What a socket or pipe gives is a list of reads.  All other functions are total.

  \<^bold>\<open>Parameters.\<close>  Programs, the kernel, the server and its API client, JSON text, URL parsing, SHA-256, the clock, the parser of
  command lines, \<open>exec\<close>, the start of the \<open>tokio\<close> runtime, and the filter and field spelling of \<open>tracing\<close>.  Assumptions on them are named hypotheses:
  \<open>host_laws\<close> (only \<open>ip tuntap add dev n\<close> creates an interface \<open>n\<close>, a successful listing is complete), and that the random
  token of a new lease has not been used before (a step of \<open>NetworkArena\<close>).

  \<^bold>\<open>Not modelled.\<close>  The API client is generated from the OpenAPI description at build time.  Clap's parsing and the
  completions are a library's; of their rules, what the arguments \<open>require\<close> and exclude is stated.  Log events of \<open>tracing\<close> are modelled
  where they reach a client of the activator, the installation of the subscriber is not.  The server, the garden agent and their
  libraries are Elixir, the packaging is Nix.  Strings are byte strings; in error texts of the operating system and of
  \<open>serde\<close> only the place is kept.  Processes interleave in \<open>NetworkArena\<close> by its steps, not system call by system call.
\<close>

end
